(* ===== verification/Prelude.thy ===== *)
theory Prelude
  imports Main "HOL-Library.Word" "HOL-Library.Monad_Syntax" "HOL-Library.Char_ord"
begin

text \<open>
  Shared vocabulary of the development: the machine types of the C code as words, reads
  from a byte buffer that fail outside it, and the collections of lemmas that carry the
  component proofs.

  \<^item> \<open>u8 \<dots> u64\<close> and \<open>i64\<close> are the integer types of the code (an \<open>i64\<close> is the same word,
    read with \<^const>\<open>sint\<close>).
  \<^item> \<open>rd8 p i\<close> is the C expression \<open>p[i]\<close> on the bytes from \<open>p\<close> to the end of its buffer.
    \<open>None\<close> is a read past that end, which C leaves undefined.
  \<^item> \<open>bitblast\<close> collects the facts with which an equation between shifts, masks and
    disjunctions of words becomes an equivalence of bits.
\<close>

unbundle bit_operations_syntax

section \<open>Machine integers\<close>

type_synonym u8 = "8 word"
type_synonym u16 = "16 word"
type_synonym u32 = "32 word"
type_synonym u64 = "64 word"
type_synonym i64 = "64 word"

named_theorems bitblast \<open>bit-level views of the constants and operators of the code\<close>
named_theorems model_simps \<open>unfolding equations of small model definitions\<close>

lemma bit_u8 [dest]: "bit (x :: u8) n \<Longrightarrow> n < 8"
  using bit_imp_le_length [of x n] by simp

lemma bit_u16 [dest]: "bit (x :: u16) n \<Longrightarrow> n < 16"
  using bit_imp_le_length [of x n] by simp

lemma bit_u32 [dest]: "bit (x :: u32) n \<Longrightarrow> n < 32"
  using bit_imp_le_length [of x n] by simp

lemma bit_u64 [dest]: "bit (x :: u64) n \<Longrightarrow> n < 64"
  using bit_imp_le_length [of x n] by simp

text \<open>The simplifier reads a bit of a numeral word from the integer numeral.\<close>

lemma bit_mask_ints [bitblast]:
  "bit (0x7f :: int) n \<longleftrightarrow> n < 7"
  "bit (0xff :: int) n \<longleftrightarrow> n < 8"
proof -
  have "(0x7f :: int) = mask 7" and "(0xff :: int) = mask 8"
    by (simp_all add: mask_eq_exp_minus_1)
  then show "bit (0x7f :: int) n \<longleftrightarrow> n < 7" "bit (0xff :: int) n \<longleftrightarrow> n < 8"
    by (simp_all only: bit_mask_iff possible_bit_def) simp_all
qed

lemma bit_u8_low7 [dest]: "bit (x :: u8) n \<Longrightarrow> \<not> bit x 7 \<Longrightarrow> n < 7"
proof -
  assume "bit x n" and "\<not> bit x 7"
  then have "n < 8" and "n \<noteq> 7"
    by auto
  then show "n < 7"
    by simp
qed

lemma high_bit_u8 [simp]: "((x :: u8) AND 0x80 = 0) \<longleftrightarrow> \<not> bit x 7"
  using and_exp_eq_0_iff_not_bit [of x 7] by simp

lemma high_bit_u32 [simp]: "((x :: u32) AND 0x80 = 0) \<longleftrightarrow> \<not> bit x 7"
  using and_exp_eq_0_iff_not_bit [of x 7] by simp

lemma bit_u8_high [simp]: "8 \<le> n \<Longrightarrow> \<not> bit (x :: u8) n"
  by (auto dest: bit_u8)

lemma bit_u32_high [simp]: "32 \<le> n \<Longrightarrow> \<not> bit (x :: u32) n"
  by (auto dest: bit_u32)

lemma bit_u64_high [simp]: "64 \<le> n \<Longrightarrow> \<not> bit (x :: u64) n"
  by (auto dest: bit_u64)

text \<open>
  Two words are equal if they agree bit by bit. With the bits written out as numerals an
  equation between shifts, masks and disjunctions becomes a propositional one.
\<close>

lemma all_less_64:
  "(\<forall>n<64::nat. P n) \<longleftrightarrow>
     P 0 \<and> P 1 \<and> P 2 \<and> P 3 \<and> P 4 \<and> P 5 \<and> P 6 \<and> P 7
     \<and> P 8 \<and> P 9 \<and> P 10 \<and> P 11 \<and> P 12 \<and> P 13 \<and> P
     14 \<and> P 15 \<and> P 16 \<and> P 17 \<and> P 18 \<and> P 19 \<and> P 20
     \<and> P 21 \<and> P 22 \<and> P 23 \<and> P 24 \<and> P 25 \<and> P 26 \<and> P
     27 \<and> P 28 \<and> P 29 \<and> P 30 \<and> P 31 \<and> P 32 \<and> P 33
     \<and> P 34 \<and> P 35 \<and> P 36 \<and> P 37 \<and> P 38 \<and> P 39 \<and> P
     40 \<and> P 41 \<and> P 42 \<and> P 43 \<and> P 44 \<and> P 45 \<and> P 46
     \<and> P 47 \<and> P 48 \<and> P 49 \<and> P 50 \<and> P 51 \<and> P 52 \<and> P
     53 \<and> P 54 \<and> P 55 \<and> P 56 \<and> P 57 \<and> P 58 \<and> P 59
     \<and> P 60 \<and> P 61 \<and> P 62 \<and> P 63"
  by (simp add: eval_nat_numeral All_less_Suc conj_ac)

lemma all_less_32:
  "(\<forall>n<32::nat. P n) \<longleftrightarrow>
     P 0 \<and> P 1 \<and> P 2 \<and> P 3 \<and> P 4 \<and> P 5 \<and> P 6 \<and> P 7
     \<and> P 8 \<and> P 9 \<and> P 10 \<and> P 11 \<and> P 12 \<and> P 13 \<and> P
     14 \<and> P 15 \<and> P 16 \<and> P 17 \<and> P 18 \<and> P 19 \<and> P 20
     \<and> P 21 \<and> P 22 \<and> P 23 \<and> P 24 \<and> P 25 \<and> P 26 \<and> P
     27 \<and> P 28 \<and> P 29 \<and> P 30 \<and> P 31"
  by (simp add: eval_nat_numeral All_less_Suc conj_ac)

lemma u32_eq_by_bits: "\<forall>n<32. bit a n = bit b n \<Longrightarrow> a = (b :: u32)"
  by (rule bit_word_eqI) simp

lemma u64_eq_by_bits: "\<forall>n<64. bit a n = bit b n \<Longrightarrow> a = (b :: u64)"
  by (rule bit_word_eqI) simp

lemma u64_eq_iff: "a = b \<longleftrightarrow> (\<forall>n<64. bit a n = bit (b :: u64) n)"
  by (auto intro: u64_eq_by_bits)

lemmas bits_unfold = all_less_64 all_less_32 bit_simps

lemma ucast_u32_u64 [simp]: "ucast (ucast y :: u64) = (y :: u32)"
  by (rule bit_word_eqI) (auto simp: bit_simps)

lemma ucast_u8_u32_u64 [simp]: "ucast (ucast y :: u32) = (ucast (y :: u8) :: u64)"
  by (rule bit_word_eqI) (auto simp: bit_simps)

lemma unat_drop_bit: "unat (drop_bit k (v :: 'a::len word)) = unat v div 2 ^ k"
  unfolding unat_drop_bit_eq by (simp only: drop_bit_eq_div)

lemma drop_bit_eq_0_iff: "drop_bit k (w :: 'a::len word) = 0 \<longleftrightarrow> (\<forall>n\<ge>k. \<not> bit w n)"
proof
  assume eq: "drop_bit k w = 0"
  show "\<forall>n\<ge>k. \<not> bit w n"
  proof (intro allI impI)
    fix n
    assume "k \<le> n"
    then have "bit w n = bit (drop_bit k w) (n - k)"
      by (simp only: bit_drop_bit_eq comp_apply le_add_diff_inverse)
    with eq show "\<not> bit w n"
      by simp
  qed
next
  assume "\<forall>n\<ge>k. \<not> bit w n"
  then show "drop_bit k w = 0"
    by (intro bit_word_eqI) (simp add: bit_simps)
qed

lemma unat_less_iff_drop_bit: "unat (v :: 'a::len word) < 2 ^ k \<longleftrightarrow> drop_bit k v = 0"
  by (simp add: unat_drop_bit div_eq_0_iff flip: unat_eq_zero)

lemma u8_lt_80_iff: "(b :: u8) < 0x80 \<longleftrightarrow> \<not> bit b 7"
proof -
  have "b < 0x80 \<longleftrightarrow> drop_bit 7 b = 0"
    using unat_less_iff_drop_bit [of b 7] by (simp add: word_less_nat_alt)
  also have "\<dots> \<longleftrightarrow> \<not> bit b 7"
  proof
    assume "drop_bit 7 b = 0"
    then have "\<not> bit (drop_bit 7 b) 0"
      by simp
    then show "\<not> bit b 7"
      by (simp only: bit_drop_bit_eq comp_apply add_0_right not_False_eq_True)
  next
    assume "\<not> bit b 7"
    then show "drop_bit 7 b = 0"
      by (intro bit_word_eqI) (auto simp: bit_simps)
  qed
  finally show ?thesis .
qed

lemma drop_bit_less_self:
  assumes "drop_bit k (v :: 'a::len word) \<noteq> 0" and "0 < k"
  shows "unat (drop_bit k v) < unat v"
proof -
  have "unat v \<noteq> 0"
    using assms(1) by (metis drop_bit_of_0 unat_eq_zero)
  moreover have "(1::nat) < 2 ^ k"
    using assms(2) one_less_power [of "2::nat" k] by simp
  ultimately show ?thesis
    unfolding unat_drop_bit by simp
qed

section \<open>Reading a byte buffer\<close>

definition rd8 :: "u8 list \<Rightarrow> nat \<Rightarrow> u8 option" where
  "rd8 p i = (if i < length p then Some (p ! i) else None)"

definition rd32 :: "u8 list \<Rightarrow> nat \<Rightarrow> u32 option" where
  "rd32 p i = map_option ucast (rd8 p i)"

lemma rd8_Nil [simp]: "rd8 [] i = None"
  by (simp add: rd8_def)

lemma rd8_Cons_0 [simp]: "rd8 (b # p) 0 = Some b"
  by (simp add: rd8_def)

lemma rd8_Cons_Suc [simp]: "rd8 (b # p) (Suc i) = rd8 p i"
  by (simp add: rd8_def)

lemma rd8_Cons_numeral [simp]: "rd8 (b # p) (numeral k) = rd8 p (pred_numeral k)"
  by (simp add: numeral_eq_Suc)

lemma rd8_append [simp]: "i < length p \<Longrightarrow> rd8 (p @ q) i = rd8 p i"
  by (simp add: rd8_def nth_append)

lemma rd8_eq_None_iff [simp]: "rd8 p i = None \<longleftrightarrow> length p \<le> i"
  by (auto simp: rd8_def)

text \<open>
  Storing \<open>xs\<close> at offset \<open>i\<close> of a buffer. \<open>None\<close> is a store past the end of the buffer.
\<close>

definition blit :: "u8 list \<Rightarrow> nat \<Rightarrow> u8 list \<Rightarrow> u8 list option" where
  "blit buf i xs =
     (if i + length xs \<le> length buf then Some (take i buf @ xs @ drop (i + length xs) buf) else None)"

lemma length_blit: "blit buf i xs = Some buf' \<Longrightarrow> length buf' = length buf"
  by (auto simp: blit_def split: if_splits)

section \<open>Texts that end with a zero byte\<close>

text \<open>A buffer with a text of \<open>N\<close> characters and its end, and nothing after it.\<close>

definition nul :: "u8 list \<Rightarrow> nat \<Rightarrow> bool" where
  "nul z N \<longleftrightarrow> length z = N + 1 \<and> z ! N = 0 \<and> (\<forall>i<N. z ! i \<noteq> 0)"

lemma nul_rd: "nul z N \<Longrightarrow> i \<le> N \<Longrightarrow> rd8 z i = Some (z ! i)"
  by (simp add: nul_def rd8_def)

lemma nul_0: "nul z N \<Longrightarrow> i \<le> N \<Longrightarrow> z ! i = 0 \<longleftrightarrow> i = N"
  unfolding nul_def by (metis le_neq_implies_less)

lemma nul_drop: "nul z N \<Longrightarrow> n \<le> N \<Longrightarrow> nul (drop n z) (N - n)"
  by (auto simp: nul_def)

lemma nul_step: "nul z N \<Longrightarrow> i \<le> N \<Longrightarrow> z ! i \<noteq> 0 \<Longrightarrow> Suc i \<le> N"
  using nul_0 [of z N i] by auto

lemma nul_append: "nul (xs @ [0]) (length xs) \<longleftrightarrow> 0 \<notin> set xs"
  by (auto simp: nul_def nth_append in_set_conv_nth)

section \<open>Reading an array\<close>

text \<open>Reading an array of the C code; \<open>None\<close> is a read outside it.\<close>

definition rda :: "'a list \<Rightarrow> nat \<Rightarrow> 'a option" where
  "rda xs n = (if n < length xs then Some (xs ! n) else None)"

lemma rda_Some [simp]: "n < length xs \<Longrightarrow> rda xs n = Some (xs ! n)"
  by (simp add: rda_def)

lemma rda_eq_Some: "rda xs n = Some x \<longleftrightarrow> n < length xs \<and> x = xs ! n"
  by (auto simp: rda_def)

section \<open>Result codes\<close>

abbreviation (input) SQLITE_OK :: nat where "SQLITE_OK \<equiv> 0"
abbreviation (input) SQLITE_NOMEM :: nat where "SQLITE_NOMEM \<equiv> 7"

section \<open>Allocation\<close>

text \<open>
  A script of the outcomes of the next allocations; when it is used up, they succeed. So the
  empty script is a run in which memory never fails.
\<close>

fun malloc :: "bool list \<Rightarrow> bool \<times> bool list" where
  "malloc [] = (True, [])"
| "malloc (ok # oks) = (ok, oks)"

end
