(* ===== verification/Arith.thy ===== *)
theory Arith
  imports Prelude "HOL-Library.Signed_Division"
begin

text \<open>
  Arithmetic of util.c: addition, subtraction and multiplication of 64-bit integers with a check
  for overflow (the portable code, not the compiler builtins) and the absolute value of an
  \<open>int\<close>. An operation of C on \<open>i64\<close> gives \<open>None\<close>
  when its exact result does not fit, so that a theorem with \<open>Some\<close> excludes undefined behaviour.
\<close>

section \<open>Checked integer arithmetic\<close>

abbreviation LARGEST_INT64 :: int where "LARGEST_INT64 \<equiv> 2 ^ 63 - 1"
abbreviation SMALLEST_INT64 :: int where "SMALLEST_INT64 \<equiv> - (2 ^ 63)"

definition is_i64 :: "int \<Rightarrow> bool" where
  "is_i64 x \<longleftrightarrow> SMALLEST_INT64 \<le> x \<and> x \<le> LARGEST_INT64"

text \<open>An \<open>i64\<close> operation of C: the exact result, or \<open>None\<close>, undefined behaviour, if it does not fit.\<close>

definition c64 :: "int \<Rightarrow> int option" where
  "c64 x = (if is_i64 x then Some x else None)"

definition sqlite3AddInt64 :: "int \<Rightarrow> int \<Rightarrow> (bool \<times> int) option" where
  "sqlite3AddInt64 iA iB = do {
     fail \<leftarrow> (if iB \<ge> 0 then
                if iA > 0 then do { d \<leftarrow> c64 (LARGEST_INT64 - iA); Some (d < iB) } else Some False
              else if iA < 0 then do {
                s \<leftarrow> c64 (iA + LARGEST_INT64); m \<leftarrow> c64 (- s); b \<leftarrow> c64 (iB + 1); Some (m > b)
              } else Some False);
     if fail then Some (True, iA) else do { s \<leftarrow> c64 (iA + iB); Some (False, s) }
   }"

definition sqlite3SubInt64 :: "int \<Rightarrow> int \<Rightarrow> (bool \<times> int) option" where
  "sqlite3SubInt64 iA iB =
     (if iB = SMALLEST_INT64 then
        if iA \<ge> 0 then Some (True, iA) else do { d \<leftarrow> c64 (iA - iB); Some (False, d) }
      else do { m \<leftarrow> c64 (- iB); sqlite3AddInt64 iA m })"

definition c_div64 :: "int \<Rightarrow> int \<Rightarrow> int option" where
  "c_div64 a b = (if b = 0 then None else c64 (a sdiv b))"

definition sqlite3MulInt64 :: "int \<Rightarrow> int \<Rightarrow> (bool \<times> int) option" where
  "sqlite3MulInt64 iA iB = do {
     fail \<leftarrow>
       (if iB > 0 then do {
          q \<leftarrow> c_div64 LARGEST_INT64 iB;
          if iA > q then Some True
          else do { q \<leftarrow> c_div64 SMALLEST_INT64 iB; Some (iA < q) }
        }
        else if iB < 0 then
          if iA > 0 then do { q \<leftarrow> c_div64 SMALLEST_INT64 iA; Some (iB < q) }
          else if iA < 0 then
            if iB = SMALLEST_INT64 then Some True
            else if iA = SMALLEST_INT64 then Some True
            else do { a \<leftarrow> c64 (- iA); b \<leftarrow> c64 (- iB); q \<leftarrow> c_div64 LARGEST_INT64 b; Some (a > q) }
          else Some False
        else Some False);
     if fail then Some (True, iA) else do { p \<leftarrow> c64 (iA * iB); Some (False, p) }
   }"

definition sqlite3AbsInt32 :: "int \<Rightarrow> int option" where
  "sqlite3AbsInt32 x =
     (if x \<ge> 0 then Some x
      else if x = - 0x80000000 then Some 0x7fffffff
      else if - (2 ^ 31) \<le> - x \<and> - x < 2 ^ 31 then Some (- x) else None)"

lemma AddInt64_lemma:
  assumes "is_i64 a" "is_i64 b"
  shows "sqlite3AddInt64 a b = Some (if is_i64 (a + b) then (False, a + b) else (True, a))"
  using assms by (auto simp: sqlite3AddInt64_def c64_def is_i64_def split: bind_splits)

lemma SubInt64_lemma:
  assumes "is_i64 a" "is_i64 b"
  shows "sqlite3SubInt64 a b = Some (if is_i64 (a - b) then (False, a - b) else (True, a))"
proof (cases "b = SMALLEST_INT64")
  case True
  then show ?thesis using assms by (auto simp: sqlite3SubInt64_def c64_def is_i64_def)
next
  case False
  then have "is_i64 (- b)" using assms(2) by (auto simp: is_i64_def)
  then show ?thesis using AddInt64_lemma [OF assms(1), of "- b"] False by (simp add: sqlite3SubInt64_def c64_def)
qed

lemma sdiv_pos: "(0::int) < b \<Longrightarrow> a sdiv b = sgn a * (\<bar>a\<bar> div b)"
  by (simp add: signed_divide_int_def)

lemma sdiv_large: "(0::int) < b \<Longrightarrow> 0 \<le> m \<Longrightarrow> m sdiv b = m div b"
  by (cases "m = 0") (simp_all add: signed_divide_int_def)

lemma sdiv_small: "(0::int) < b \<Longrightarrow> 0 < m \<Longrightarrow> (- m) sdiv b = - (m div b)"
  by (simp add: signed_divide_int_def)

lemma gt_div: "(0::int) < b \<Longrightarrow> m div b < a \<longleftrightarrow> m < a * b"
proof -
  assume b: "0 < b"
  define q r where "q = m div b" and "r = m mod b"
  have m: "m = b * q + r" "0 \<le> r" "r < b" using b by (simp_all add: q_def r_def)
  show ?thesis unfolding q_def [symmetric]
  proof (cases "q < a")
    case True
    then have "(q + 1) * b \<le> a * b" using b by (intro mult_right_mono) simp_all
    then have "m < a * b" using m by (simp add: algebra_simps)
    then show "(q < a) = (m < a * b)" using True by simp
  next
    case False
    then have "a * b \<le> q * b" using b by (intro mult_right_mono) simp_all
    then have "\<not> m < a * b" using m(1,2) mult.commute [of b q] by linarith
    then show "(q < a) = (m < a * b)" using False by simp
  qed
qed

lemma div_bounds: "(0::int) < b \<Longrightarrow> 0 \<le> m \<Longrightarrow> 0 \<le> m div b \<and> m div b \<le> m"
proof -
  assume b: "0 < b" "0 \<le> m"
  then have "(m + 1) * 1 \<le> (m + 1) * b" by (intro mult_left_mono) simp_all
  then have "m div b < m + 1" using gt_div [OF b(1), of m "m + 1"] by simp
  then show ?thesis using b by (simp add: pos_imp_zdiv_nonneg_iff)
qed

lemma lt_neg_div: "(0::int) < b \<Longrightarrow> a < - (m div b) \<longleftrightarrow> a * b < - m"
  using gt_div [of b m "- a"] by (auto simp: minus_less_iff less_minus_iff)

lemma c_div_large: "0 < b \<Longrightarrow> c_div64 LARGEST_INT64 b = Some (LARGEST_INT64 div b)"
proof -
  assume b: "0 < b"
  then have "LARGEST_INT64 div b \<le> LARGEST_INT64" "0 \<le> LARGEST_INT64 div b"
    using div_bounds [OF b, of LARGEST_INT64] by auto
  then show ?thesis using b by (simp add: c_div64_def c64_def is_i64_def sdiv_large)
qed

lemma c_div_small: "0 < b \<Longrightarrow> c_div64 SMALLEST_INT64 b = Some (- ((2 ^ 63) div b))"
proof -
  assume b: "0 < b"
  then have "(2 ^ 63) div b \<le> (2 ^ 63 :: int)" "0 \<le> (2 ^ 63 :: int) div b"
    using div_bounds [OF b, of "2 ^ 63"] by auto
  moreover have "SMALLEST_INT64 sdiv b = - ((2 ^ 63) div b)" using sdiv_small [OF b, of "2 ^ 63"] by simp
  ultimately show ?thesis using b by (simp add: c_div64_def c64_def is_i64_def)
qed

lemma MulInt64_lemma:
  assumes a: "is_i64 a" and b: "is_i64 b"
  shows "sqlite3MulInt64 a b = Some (if is_i64 (a * b) then (False, a * b) else (True, a))"
proof -
  consider "b > 0" | "b < 0" "a > 0" | "b < 0" "a < 0" | "a = 0 \<or> b = 0" by linarith
  then show ?thesis
  proof cases
    case 1
    have f1: "a > LARGEST_INT64 div b \<longleftrightarrow> a * b > LARGEST_INT64" by (rule gt_div [OF 1])
    have f2: "a < - ((2 ^ 63) div b) \<longleftrightarrow> a * b < SMALLEST_INT64" by (rule lt_neg_div [OF 1])
    show ?thesis
      unfolding sqlite3MulInt64_def c_div_large [OF 1] c_div_small [OF 1] using 1
      by (simp only: if_True bind.bind_lunit f1 f2) (auto simp: c64_def is_i64_def)
  next
    case 2
    have f: "b < - ((2 ^ 63) div a) \<longleftrightarrow> b * a < SMALLEST_INT64" by (rule lt_neg_div [OF 2(2)])
    have "b * a < 0" using 2 by (simp add: mult_neg_pos)
    then have "b * a \<le> LARGEST_INT64" by simp
    then show ?thesis
      unfolding sqlite3MulInt64_def c_div_small [OF 2(2)] using 2
      by (simp only: if_False if_True bind.bind_lunit f) (auto simp: c64_def is_i64_def mult.commute)
  next
    case 3
    then have ab: "0 < a * b" by (simp add: mult_neg_neg)
    show ?thesis
    proof (cases "b = SMALLEST_INT64 \<or> a = SMALLEST_INT64")
      case True
      have "(2 ^ 63 :: int) \<le> a * b"
      proof (cases "a = SMALLEST_INT64")
        case True
        then show ?thesis using 3(1) by simp
      next
        case False
        then have "b = SMALLEST_INT64" using True by simp
        then show ?thesis using 3(2) by simp
      qed
      then show ?thesis using True 3 by (auto simp: sqlite3MulInt64_def is_i64_def)
    next
      case False
      have n: "0 < - b" "c64 (- a) = Some (- a)" "c64 (- b) = Some (- b)"
        using False a b 3 by (auto simp: c64_def is_i64_def)
      have f: "- a > LARGEST_INT64 div (- b) \<longleftrightarrow> a * b > LARGEST_INT64" using gt_div [OF n(1), of LARGEST_INT64 "- a"] by simp
      show ?thesis
        unfolding sqlite3MulInt64_def n(2,3) bind.bind_lunit c_div_large [OF n(1)] f
        using False 3 ab by (auto simp: c64_def is_i64_def)
    qed
  next
    case 4
    then show ?thesis
    proof
      assume "a = 0"
      show ?thesis
      proof (cases "b > 0")
        case True
        show ?thesis
          unfolding sqlite3MulInt64_def c_div_large [OF True] c_div_small [OF True]
          using True \<open>a = 0\<close> gt_div [OF True, of LARGEST_INT64 0] lt_neg_div [OF True, of 0 "2 ^ 63"]
          by (simp add: c64_def is_i64_def)
      next
        case False
        then show ?thesis using \<open>a = 0\<close> by (simp add: sqlite3MulInt64_def c64_def is_i64_def)
      qed
    qed (simp add: sqlite3MulInt64_def c64_def is_i64_def)
  qed
qed

section \<open>Properties\<close>

text \<open>
  Property C24. The checked operations on 64-bit integers never overflow: they give the exact
  result when it fits, and report failure, leaving the operand, exactly when it does not.
\<close>

theorem checked_arithmetic:
  assumes "is_i64 a" and "is_i64 b"
  shows "sqlite3AddInt64 a b = Some (if is_i64 (a + b) then (False, a + b) else (True, a)) \<and>
    sqlite3SubInt64 a b = Some (if is_i64 (a - b) then (False, a - b) else (True, a)) \<and>
    sqlite3MulInt64 a b = Some (if is_i64 (a * b) then (False, a * b) else (True, a))"
  using AddInt64_lemma [OF assms] SubInt64_lemma [OF assms] MulInt64_lemma [OF assms] by blast

theorem checked_arithmetic_witness:
  "sqlite3AddInt64 (2 ^ 62) (2 ^ 62) = Some (True, 2 ^ 62) \<and>
   sqlite3SubInt64 (2 ^ 62) (2 ^ 62) = Some (False, 0) \<and>
   sqlite3MulInt64 (2 ^ 62) (2 ^ 62) = Some (True, 2 ^ 62)"
  using checked_arithmetic [of "2 ^ 62" "2 ^ 62"] by (simp add: is_i64_def)

end
