(* ===== verification/Containers.thy ===== *)
theory Containers
  imports Prelude
begin

text \<open>
  The contracts of the containers: a set of numbers whose operations may reject a number or
  run out of memory (\<open>None\<close>), and a map. \<open>run_ops\<close> and \<open>map_run\<close> perform a list of operations; a
  client that knows the contract knows what the container holds and answers.
\<close>

section \<open>Sets\<close>

datatype 'a set_op = Ins 'a | Del 'a

fun last_op :: "'a set_op list \<Rightarrow> 'a \<Rightarrow> bool \<Rightarrow> bool" where
  "last_op [] x b = b"
| "last_op (Ins y # ops) x b = last_op ops x (x = y \<or> b)"
| "last_op (Del y # ops) x b = last_op ops x (x \<noteq> y \<and> b)"

fun op_value :: "'a set_op \<Rightarrow> 'a" where
  "op_value (Ins x) = x"
| "op_value (Del x) = x"

fun run_ops :: "('a \<Rightarrow> 's \<Rightarrow> 's option) \<Rightarrow> ('a \<Rightarrow> 's \<Rightarrow> 's option) \<Rightarrow> 'a set_op list \<Rightarrow> 's \<Rightarrow> 's option" where
  "run_ops ins del [] s = Some s"
| "run_ops ins del (Ins x # ops) s = ins x s \<bind> run_ops ins del ops"
| "run_ops ins del (Del x # ops) s = del x s \<bind> run_ops ins del ops"

locale set_contract =
  fixes invar :: "'s \<Rightarrow> bool" and members :: "'s \<Rightarrow> 'a set" and U :: "'a set"
    and ins del :: "'a \<Rightarrow> 's \<Rightarrow> 's option" and isin :: "'s \<Rightarrow> 'a \<Rightarrow> bool option"
  assumes ins: "invar s \<Longrightarrow> x \<in> U \<Longrightarrow> \<exists>s'. ins x s = Some s' \<and> invar s' \<and> members s' = insert x (members s)"
    and del: "invar s \<Longrightarrow> x \<in> U \<Longrightarrow> \<exists>s'. del x s = Some s' \<and> invar s' \<and> members s' = members s - {x}"
    and isin: "invar s \<Longrightarrow> x \<in> U \<Longrightarrow> isin s x = Some (x \<in> members s)"
begin

lemma run_members:
  "invar s \<Longrightarrow> op_value ` set ops \<subseteq> U \<Longrightarrow>
   \<exists>s'. run_ops ins del ops s = Some s' \<and> invar s' \<and> (\<forall>x. x \<in> members s' \<longleftrightarrow> last_op ops x (x \<in> members s))"
proof (induction ops arbitrary: s)
  case (Cons a ops)
  show ?case
  proof (cases a)
    case (Ins y)
    then obtain s1 where "ins y s = Some s1" "invar s1" "members s1 = insert y (members s)"
      using ins [of s y] Cons.prems by auto
    then show ?thesis using Cons.IH [of s1] Cons.prems Ins by auto
  next
    case (Del y)
    then obtain s1 where "del y s = Some s1" "invar s1" "members s1 = members s - {y}"
      using del [of s y] Cons.prems by auto
    then show ?thesis using Cons.IH [of s1] Cons.prems Del by (auto simp: conj_commute)
  qed
qed simp

lemma run_isin:
  assumes "invar s" "op_value ` set ops \<subseteq> U" "x \<in> U"
  shows "(run_ops ins del ops s \<bind> (\<lambda>s'. isin s' x)) = Some (last_op ops x (x \<in> members s))"
  using run_members [OF assms(1,2)] isin [OF _ assms(3)] by auto

end

section \<open>Maps\<close>

text \<open>
  A map whose keys count as equal when \<open>norm\<close> makes them equal. \<open>put k (Some d)\<close> binds a key,
  \<open>put k None\<close> removes it, and both give what the key was bound to; there is room for \<open>cap\<close>
  bindings.
\<close>

datatype ('k, 'd) map_op = Put 'k "'d option" | Get 'k

fun map_run :: "('k \<Rightarrow> 'd option \<Rightarrow> 's \<Rightarrow> ('d option \<times> 's) option) \<Rightarrow> ('s \<Rightarrow> 'k \<Rightarrow> 'd option option) \<Rightarrow>
    ('k, 'd) map_op list \<Rightarrow> 's \<Rightarrow> 'd option list option" where
  "map_run put get [] s = Some []"
| "map_run put get (Put k d # ops) s = do { (r, s) \<leftarrow> put k d s; rs \<leftarrow> map_run put get ops s; Some (r # rs) }"
| "map_run put get (Get k # ops) s = do { r \<leftarrow> get s k; rs \<leftarrow> map_run put get ops s; Some (r # rs) }"

fun map_answers :: "('k \<Rightarrow> 'n) \<Rightarrow> ('k, 'd) map_op list \<Rightarrow> ('n \<rightharpoonup> 'd) \<Rightarrow> 'd option list" where
  "map_answers norm [] m = []"
| "map_answers norm (Put k d # ops) m = m (norm k) # map_answers norm ops (m(norm k := d))"
| "map_answers norm (Get k # ops) m = m (norm k) # map_answers norm ops m"

locale map_contract =
  fixes invar :: "nat \<Rightarrow> 's \<Rightarrow> bool" and lookup :: "'s \<Rightarrow> 'n \<Rightarrow> 'd option" and norm :: "'k \<Rightarrow> 'n"
    and put :: "'k \<Rightarrow> 'd option \<Rightarrow> 's \<Rightarrow> ('d option \<times> 's) option" and get :: "'s \<Rightarrow> 'k \<Rightarrow> 'd option option"
    and cap :: nat
  assumes put: "invar n s \<Longrightarrow> n < cap \<Longrightarrow>
      \<exists>s'. put k d s = Some (lookup s (norm k), s') \<and> invar (Suc n) s' \<and> lookup s' = (lookup s)(norm k := d)"
    and get: "invar n s \<Longrightarrow> get s k = Some (lookup s (norm k))"
begin

lemma run_answers:
  "invar n s \<Longrightarrow> n + length ops \<le> cap \<Longrightarrow> map_run put get ops s = Some (map_answers norm ops (lookup s))"
proof (induction ops arbitrary: n s)
  case (Cons a ops)
  show ?case
  proof (cases a)
    case (Put k d)
    then obtain s' where "put k d s = Some (lookup s (norm k), s')" "invar (Suc n) s'" "lookup s' = (lookup s)(norm k := d)"
      using put [OF Cons.prems(1), of k d] Cons.prems(2) by auto
    then show ?thesis using Cons.IH [of "Suc n" s'] Cons.prems(2) Put by (simp add: fun_upd_def)
  next
    case (Get k)
    then show ?thesis using Cons.IH [of n s] Cons.prems get [OF Cons.prems(1), of k] by simp
  qed
qed simp

end

end
