(* ===== verification/Bitvec.thy ===== *)
theory Bitvec
  imports Containers
begin

text \<open>
  The bitmap of bitvec.c: which of the bits 1 to \<open>iSize\<close> are set. A small bitmap is an array of
  bytes, a larger one starts as an open-addressing hash table and, when that fills, divides into
  62 sub-bitmaps. \<open>BITVEC_SZ\<close> is 512 and pointers have eight bytes, which gives the constants
  below; the hash function is the identity modulo \<open>BITVEC_NINT\<close>.

  The union \<open>u\<close> is a datatype; reading a member the union does not hold, reading outside an
  array and a loop that does not end are \<open>None\<close>. The functions descend by loops in C, by recursion
  here (\<open>test_loop\<close>, \<open>set_loop\<close>, \<open>clear_loop\<close>, with the index already decremented).
  \<open>set_loop\<close> has fuel: nine steps are enough for every bitmap of fewer than \<open>2 ^ 32\<close> bits
  (\<open>fuel_9\<close>), since each division leaves a 62nd of the bits. Freeing memory is not modelled.
\<close>

section \<open>The structure\<close>

abbreviation BITVEC_NELEM :: nat where "BITVEC_NELEM \<equiv> 496"
abbreviation BITVEC_NBIT :: nat where "BITVEC_NBIT \<equiv> 3968"
abbreviation BITVEC_NINT :: nat where "BITVEC_NINT \<equiv> 124"
abbreviation BITVEC_MXHASH :: nat where "BITVEC_MXHASH \<equiv> 62"
abbreviation BITVEC_NPTR :: nat where "BITVEC_NPTR \<equiv> 62"

definition BITVEC_HASH :: "nat \<Rightarrow> nat" where
  "BITVEC_HASH x = x mod BITVEC_NINT"

datatype 'b bitvec_u = ABitmap "u8 list" | AHash "nat list" | ApSub "'b option list"

datatype bitvec = Bitvec (iSize: nat) (nSet: nat) (iDivisor: nat) (bv_u: "bitvec bitvec_u")

fun as_bitmap :: "'b bitvec_u \<Rightarrow> u8 list option" where
  "as_bitmap (ABitmap b) = Some b" | "as_bitmap _ = None"

fun as_hash :: "'b bitvec_u \<Rightarrow> nat list option" where
  "as_hash (AHash h) = Some h" | "as_hash _ = None"

fun as_sub :: "'b bitvec_u \<Rightarrow> 'b option list option" where
  "as_sub (ApSub s) = Some s" | "as_sub _ = None"

lemma as_Some [simp]:
  "as_bitmap w = Some b \<longleftrightarrow> w = ABitmap b"
  "as_hash w = Some h \<longleftrightarrow> w = AHash h"
  "as_sub w = Some s \<longleftrightarrow> w = ApSub s"
  by (cases w; simp)+

definition bitvec_zero :: "nat \<Rightarrow> bitvec" where
  "bitvec_zero sz = Bitvec sz 0 0
     (if sz \<le> BITVEC_NBIT then ABitmap (replicate BITVEC_NELEM 0) else AHash (replicate BITVEC_NINT 0))"

definition sqlite3BitvecCreate :: "bool list \<Rightarrow> nat \<Rightarrow> bitvec option \<times> bool list" where
  "sqlite3BitvecCreate mem sz =
     (case malloc mem of (ok, mem) \<Rightarrow> (if ok then Some (bitvec_zero sz) else None, mem))"

text \<open>The search for a value: whether it is there, and the slot where the search ends.\<close>

fun probe :: "nat \<Rightarrow> nat list \<Rightarrow> nat \<Rightarrow> nat \<Rightarrow> (bool \<times> nat) option" where
  "probe 0 aHash h i = None"
| "probe (Suc n) aHash h i = do {
     v \<leftarrow> rda aHash h;
     if v = 0 then Some (False, h)
     else if v = i then Some (True, h)
     else probe n aHash ((h + 1) mod BITVEC_NINT) i
   }"

lemma size_apSub: "rda apSub k = Some (Some p) \<Longrightarrow> size p < Suc (size_list (size_option size) apSub)"
proof -
  assume "rda apSub k = Some (Some p)"
  then have "Some p \<in> set apSub" by (auto simp: rda_eq_Some)
  then have "size_option size (Some p) \<le> size_list (size_option size) apSub"
    by (induction apSub) auto
  then show ?thesis by simp
qed

function test_loop :: "bitvec \<Rightarrow> nat \<Rightarrow> bool option" where
  "test_loop (Bitvec sz n d w) i =
     (if d \<noteq> 0 then do {
        apSub \<leftarrow> as_sub w;
        sub \<leftarrow> rda apSub (i div d);
        case sub of None \<Rightarrow> Some False | Some p \<Rightarrow> test_loop p (i mod d)
      }
      else if sz \<le> BITVEC_NBIT then do {
        aBitmap \<leftarrow> as_bitmap w;
        b \<leftarrow> rda aBitmap (i div 8);
        Some (b AND push_bit (i mod 8) 1 \<noteq> 0)
      }
      else do {
        aHash \<leftarrow> as_hash w;
        (found, _) \<leftarrow> probe BITVEC_NINT aHash (BITVEC_HASH i) (i + 1);
        Some found
      })"
  by pat_completeness auto
termination
  by (relation "measure (size \<circ> fst)") (auto dest: size_apSub)

definition sqlite3BitvecTestNotNull :: "bitvec \<Rightarrow> nat \<Rightarrow> bool option" where
  "sqlite3BitvecTestNotNull p i =
     (let i = (i + 2 ^ 32 - 1) mod 2 ^ 32
      in if i \<ge> iSize p then Some False else test_loop p i)"

definition sqlite3BitvecTest :: "bitvec option \<Rightarrow> nat \<Rightarrow> bool option" where
  "sqlite3BitvecTest p i = (case p of None \<Rightarrow> Some False | Some p \<Rightarrow> sqlite3BitvecTestNotNull p i)"

section \<open>Setting, clearing\<close>

text \<open>The loop that puts the values of a full hash table into the sub-bitmaps.\<close>

fun set_values :: "(bool list \<Rightarrow> bitvec \<Rightarrow> nat \<Rightarrow> (nat \<times> bitvec \<times> bool list) option) \<Rightarrow>
    nat list \<Rightarrow> bool list \<Rightarrow> nat \<Rightarrow> bitvec \<Rightarrow> (nat \<times> bitvec \<times> bool list) option" where
  "set_values bvset [] mem rc p = Some (rc, p, mem)"
| "set_values bvset (v # vs) mem rc p =
     (if v = 0 then set_values bvset vs mem rc p
      else do {
        (rc', p, mem) \<leftarrow> bvset mem p (v - 1);
        set_values bvset vs mem (rc OR rc') p
      })"

text \<open>From the hash table case of \<open>sqlite3BitvecSet\<close> to its end.\<close>

definition hash_insert :: "(bool list \<Rightarrow> bitvec \<Rightarrow> nat \<Rightarrow> (nat \<times> bitvec \<times> bool list) option) \<Rightarrow>
    bool list \<Rightarrow> nat \<Rightarrow> nat \<Rightarrow> nat \<Rightarrow> nat list \<Rightarrow> nat \<Rightarrow> (nat \<times> bitvec \<times> bool list) option" where
  "hash_insert bvset mem sz n d aHash i = do {
     v0 \<leftarrow> rda aHash (BITVEC_HASH i);
     (found, h) \<leftarrow> probe BITVEC_NINT aHash (BITVEC_HASH i) (i + 1);
     let done = Some (SQLITE_OK, Bitvec sz (n + 1) d (AHash (aHash[h := i + 1])), mem);
     if v0 = 0 \<and> n < BITVEC_NINT - 1 then done
     else if v0 \<noteq> 0 \<and> found then Some (SQLITE_OK, Bitvec sz n d (AHash aHash), mem)
     else if n \<ge> BITVEC_MXHASH then
       (case malloc mem of
          (False, mem) \<Rightarrow> Some (SQLITE_NOMEM, Bitvec sz n d (AHash aHash), mem)
        | (True, mem) \<Rightarrow> do {
            let d = (sz + BITVEC_NPTR - 1) div BITVEC_NPTR;
            (rc, p, mem) \<leftarrow> bvset mem (Bitvec sz n d (ApSub (replicate BITVEC_NPTR None))) i;
            set_values bvset aHash mem rc p
          })
     else done
   }"

primrec set_loop :: "nat \<Rightarrow> bool list \<Rightarrow> bitvec \<Rightarrow> nat \<Rightarrow> (nat \<times> bitvec \<times> bool list) option" where
  "set_loop 0 mem p i = None"
| "set_loop (Suc k) mem p i =
     (case p of Bitvec sz n d w \<Rightarrow>
        if sz > BITVEC_NBIT \<and> d \<noteq> 0 then do {
          apSub \<leftarrow> as_sub w;
          sub \<leftarrow> rda apSub (i div d);
          case (case sub of Some q \<Rightarrow> (Some q, mem) | None \<Rightarrow> sqlite3BitvecCreate mem d) of
            (None, mem) \<Rightarrow> Some (SQLITE_NOMEM, p, mem)
          | (Some q, mem) \<Rightarrow> do {
              (rc, q, mem) \<leftarrow> set_loop k mem q (i mod d);
              Some (rc, Bitvec sz n d (ApSub (apSub[i div d := Some q])), mem)
            }
        }
        else if sz \<le> BITVEC_NBIT then do {
          aBitmap \<leftarrow> as_bitmap w;
          b \<leftarrow> rda aBitmap (i div 8);
          Some (SQLITE_OK, Bitvec sz n d (ABitmap (aBitmap[i div 8 := b OR push_bit (i mod 8) 1])), mem)
        }
        else do {
          aHash \<leftarrow> as_hash w;
          hash_insert (set_loop k) mem sz n d aHash i
        })"

definition sqlite3BitvecSet :: "bool list \<Rightarrow> bitvec option \<Rightarrow> nat \<Rightarrow> (nat \<times> bitvec option \<times> bool list) option" where
  "sqlite3BitvecSet mem p i =
     (case p of
        None \<Rightarrow> Some (SQLITE_OK, None, mem)
      | Some p \<Rightarrow> map_option (\<lambda>(rc, p, mem). (rc, Some p, mem)) (set_loop 9 mem p ((i + 2 ^ 32 - 1) mod 2 ^ 32)))"

fun reinsert :: "nat \<Rightarrow> nat list \<Rightarrow> nat \<Rightarrow> nat list \<Rightarrow> (nat \<times> nat list) option" where
  "reinsert i [] n aHash = Some (n, aHash)"
| "reinsert i (v # vs) n aHash =
     (if v \<noteq> 0 \<and> v \<noteq> i + 1 then do {
        (_, h) \<leftarrow> probe BITVEC_NINT aHash (BITVEC_HASH (v - 1)) 0;
        reinsert i vs (n + 1) (aHash[h := v])
      }
      else reinsert i vs n aHash)"

function clear_loop :: "bitvec \<Rightarrow> nat \<Rightarrow> bitvec option" where
  "clear_loop (Bitvec sz n d w) i =
     (if d \<noteq> 0 then do {
        apSub \<leftarrow> as_sub w;
        sub \<leftarrow> rda apSub (i div d);
        case sub of
          None \<Rightarrow> Some (Bitvec sz n d w)
        | Some p \<Rightarrow> do {
            q \<leftarrow> clear_loop p (i mod d);
            Some (Bitvec sz n d (ApSub (apSub[i div d := Some q])))
          }
      }
      else if sz \<le> BITVEC_NBIT then do {
        aBitmap \<leftarrow> as_bitmap w;
        b \<leftarrow> rda aBitmap (i div 8);
        Some (Bitvec sz n d (ABitmap (aBitmap[i div 8 := b AND NOT (push_bit (i mod 8) 1)])))
      }
      else do {
        aHash \<leftarrow> as_hash w;
        (n, aHash) \<leftarrow> reinsert i aHash 0 (replicate BITVEC_NINT 0);
        Some (Bitvec sz n d (AHash aHash))
      })"
  by pat_completeness auto
termination
  by (relation "measure (size \<circ> fst)") (auto dest: size_apSub)

definition sqlite3BitvecClear :: "bitvec option \<Rightarrow> nat \<Rightarrow> bitvec option option" where
  "sqlite3BitvecClear p i =
     (case p of None \<Rightarrow> Some None
      | Some p \<Rightarrow> map_option Some (clear_loop p ((i + 2 ^ 32 - 1) mod 2 ^ 32)))"

section \<open>The set a bitmap stands for, and its invariant\<close>

lemma size_apSub': "k < length apSub \<Longrightarrow> apSub ! k = Some p \<Longrightarrow> size p < Suc (Suc (size_list (size_option size) apSub))"
  using size_apSub [of apSub k p] by (simp add: rda_def)

function elems :: "bitvec \<Rightarrow> nat set" where
  "elems (Bitvec sz n d (ApSub apSub)) =
     (\<Union>k\<in>{..<length apSub}. case apSub ! k of Some p \<Rightarrow> (\<lambda>e. k * d + e) ` elems p | None \<Rightarrow> {})"
| "elems (Bitvec sz n d (ABitmap aBitmap)) = {e. e < 8 * length aBitmap \<and> bit (aBitmap ! (e div 8)) (e mod 8)}"
| "elems (Bitvec sz n d (AHash aHash)) = {e. e + 1 \<in> set aHash}"
  by pat_completeness auto
termination
  by (relation "measure size") (auto dest: size_apSub')

definition chained :: "nat list \<Rightarrow> nat \<Rightarrow> bool" where
  "chained aHash v \<longleftrightarrow>
     (\<exists>k<BITVEC_NINT. aHash ! (((v - 1) + k) mod BITVEC_NINT) = v \<and>
        (\<forall>j<k. aHash ! (((v - 1) + j) mod BITVEC_NINT) \<noteq> 0))"

definition hash_ok :: "nat \<Rightarrow> nat \<Rightarrow> nat list \<Rightarrow> bool" where
  "hash_ok sz n aHash \<longleftrightarrow> length aHash = BITVEC_NINT \<and>
     n = length (filter (\<lambda>v. v \<noteq> 0) aHash) \<and> n < BITVEC_NINT \<and>
     distinct (filter (\<lambda>v. v \<noteq> 0) aHash) \<and>
     (\<forall>v\<in>set aHash. v \<le> sz \<and> (v \<noteq> 0 \<longrightarrow> chained aHash v))"

function bv_inv :: "bitvec \<Rightarrow> bool" where
  "bv_inv (Bitvec sz n d (ApSub apSub)) \<longleftrightarrow>
     sz > BITVEC_NBIT \<and> d = (sz + BITVEC_NPTR - 1) div BITVEC_NPTR \<and> length apSub = BITVEC_NPTR \<and>
     elems (Bitvec sz n d (ApSub apSub)) \<subseteq> {..<sz} \<and>
     (\<forall>k\<in>{..<length apSub}. case apSub ! k of Some p \<Rightarrow> iSize p = d \<and> bv_inv p | None \<Rightarrow> True)"
| "bv_inv (Bitvec sz n d (ABitmap aBitmap)) \<longleftrightarrow> sz \<le> BITVEC_NBIT \<and> d = 0 \<and> length aBitmap = BITVEC_NELEM \<and>
     elems (Bitvec sz n d (ABitmap aBitmap)) \<subseteq> {..<sz}"
| "bv_inv (Bitvec sz n d (AHash aHash)) \<longleftrightarrow> sz > BITVEC_NBIT \<and> d = 0 \<and> hash_ok sz n aHash"
  by pat_completeness auto
termination
  by (relation "measure size") (auto dest: size_apSub')

section \<open>The hash table\<close>

definition free_slot :: "nat list \<Rightarrow> nat \<Rightarrow> nat \<Rightarrow> bool" where
  "free_slot aHash v h \<longleftrightarrow>
     (\<exists>k<BITVEC_NINT. h = ((v - 1) + k) mod BITVEC_NINT \<and> aHash ! h = 0 \<and>
        (\<forall>j<k. aHash ! (((v - 1) + j) mod BITVEC_NINT) \<noteq> 0))"

lemma probe_spec:
  assumes "probe n aHash (s mod BITVEC_NINT) v = Some (found, h)"
  shows "\<exists>k<n. h = (s + k) mod BITVEC_NINT \<and> (\<forall>j<k. aHash ! ((s + j) mod BITVEC_NINT) \<notin> {0, v}) \<and>
    (if found then aHash ! h = v \<and> v \<noteq> 0 else aHash ! h = 0)"
  using assms
proof (induction n arbitrary: s)
  case (Suc n)
  let ?s = "s mod BITVEC_NINT"
  show ?case
  proof (cases "aHash ! ?s \<in> {0, v}")
    case True
    then show ?thesis using Suc.prems
      by (intro exI [of _ 0]) (auto simp: rda_eq_Some bind_eq_Some_conv split: if_splits)
  next
    case False
    then have "probe n aHash (Suc s mod BITVEC_NINT) v = Some (found, h)"
      using Suc.prems by (auto simp: rda_eq_Some bind_eq_Some_conv mod_Suc_eq split: if_splits)
    from Suc.IH [OF this] obtain k where k: "k < n" "h = (Suc s + k) mod BITVEC_NINT"
      "\<forall>j<k. aHash ! ((Suc s + j) mod BITVEC_NINT) \<notin> {0, v}" "if found then aHash ! h = v \<and> v \<noteq> 0 else aHash ! h = 0"
      by blast
    have "aHash ! ((s + j) mod BITVEC_NINT) \<notin> {0, v}" if "j < Suc k" for j
      using that k(3) False by (cases j) auto
    then show ?thesis using k by (intro exI [of _ "Suc k"]) auto
  qed
qed simp

lemma probe_total:
  assumes "length aHash = BITVEC_NINT" "k < n" "aHash ! ((s + k) mod BITVEC_NINT) = 0"
  shows "\<exists>found h. probe n aHash (s mod BITVEC_NINT) v = Some (found, h)"
  using assms(2,3)
proof (induction n arbitrary: s k)
  case (Suc n)
  have rd: "rda aHash (s mod BITVEC_NINT) = Some (aHash ! (s mod BITVEC_NINT))" using assms(1) by simp
  show ?case
  proof (cases k)
    case 0
    then show ?thesis using Suc.prems rd by auto
  next
    case (Suc k')
    then have "\<exists>found h. probe n aHash (Suc s mod BITVEC_NINT) v = Some (found, h)"
      using Suc.IH [of k' "Suc s"] Suc.prems by simp
    then show ?thesis using rd by (auto simp: mod_Suc_eq)
  qed
qed simp

lemma empty_slot:
  assumes "hash_ok sz n aHash"
  shows "\<exists>k<BITVEC_NINT. aHash ! ((s + k) mod BITVEC_NINT) = 0"
proof -
  have "\<exists>v\<in>set aHash. v = 0"
  proof (rule ccontr)
    assume "\<not> ?thesis"
    then have "filter (\<lambda>v. v \<noteq> 0) aHash = aHash" by (intro filter_True) (metis)
    then show False using assms by (auto simp: hash_ok_def)
  qed
  then obtain m where m: "m < BITVEC_NINT" "aHash ! m = 0"
    using assms by (metis hash_ok_def in_set_conv_nth)
  define r where "r = s mod BITVEC_NINT"
  let ?k = "(m + BITVEC_NINT - r) mod BITVEC_NINT"
  have r: "r < BITVEC_NINT" by (simp add: r_def)
  have "(s + ?k) mod BITVEC_NINT = (r + (m + BITVEC_NINT - r)) mod BITVEC_NINT"
    unfolding r_def by (simp only: mod_add_left_eq mod_add_right_eq)
  also have "\<dots> = m" using m r by simp
  finally show ?thesis using m by (intro exI [of _ ?k]) simp
qed

lemma probe_hash:
  assumes "hash_ok sz n aHash" "0 < v"
  obtains found h where "probe BITVEC_NINT aHash (BITVEC_HASH (v - 1)) v = Some (found, h)"
    "found \<longleftrightarrow> v \<in> set aHash" "\<not> found \<Longrightarrow> free_slot aHash v h" "h < BITVEC_NINT"
proof -
  obtain found h where p: "probe BITVEC_NINT aHash (BITVEC_HASH (v - 1)) v = Some (found, h)"
    using empty_slot [OF assms(1), of "v - 1"] probe_total [of aHash _ BITVEC_NINT "v - 1" v] assms(1)
    unfolding BITVEC_HASH_def hash_ok_def by blast
  obtain k where k: "k < BITVEC_NINT" "h = (v - 1 + k) mod BITVEC_NINT" "\<forall>j<k. aHash ! ((v - 1 + j) mod BITVEC_NINT) \<notin> {0, v}"
    "if found then aHash ! h = v \<and> v \<noteq> 0 else aHash ! h = 0"
    using probe_spec [OF p [unfolded BITVEC_HASH_def]] by blast
  have h: "h < BITVEC_NINT" using k by simp
  have len: "length aHash = BITVEC_NINT" using assms(1) by (simp add: hash_ok_def)
  have "found \<longleftrightarrow> v \<in> set aHash"
  proof
    assume found
    then show "v \<in> set aHash" using k(4) h len nth_mem [of h aHash] by simp
  next
    assume "v \<in> set aHash"
    then have "chained aHash v" using assms by (auto simp: hash_ok_def)
    then obtain k0 where k0: "aHash ! ((v - 1 + k0) mod BITVEC_NINT) = v" "\<forall>j<k0. aHash ! ((v - 1 + j) mod BITVEC_NINT) \<noteq> 0"
      unfolding chained_def by blast
    show found
    proof (rule ccontr)
      assume "\<not> found"
      then have "aHash ! ((v - 1 + k) mod BITVEC_NINT) = 0" using k by simp
      then show False using k0 k(3) assms(2) by (metis insertCI linorder_neqE_nat not_less_zero)
    qed
  qed
  moreover have "free_slot aHash v h" if "\<not> found"
    unfolding free_slot_def using k that by (intro exI [of _ k]) auto
  ultimately show thesis using p h that by blast
qed

lemma probe_free:
  assumes "hash_ok sz n aHash"
  obtains h where "probe BITVEC_NINT aHash (BITVEC_HASH (v - 1)) 0 = Some (False, h)" "free_slot aHash v h" "h < BITVEC_NINT"
proof -
  obtain found h where p: "probe BITVEC_NINT aHash (BITVEC_HASH (v - 1)) 0 = Some (found, h)"
    using empty_slot [OF assms(1), of "v - 1"] probe_total [of aHash _ BITVEC_NINT "v - 1" 0] assms(1)
    unfolding BITVEC_HASH_def hash_ok_def by blast
  obtain k where k: "k < BITVEC_NINT" "h = (v - 1 + k) mod BITVEC_NINT" "\<forall>j<k. aHash ! ((v - 1 + j) mod BITVEC_NINT) \<notin> {0, 0}"
    "if found then aHash ! h = 0 \<and> (0::nat) \<noteq> 0 else aHash ! h = 0"
    using probe_spec [OF p [unfolded BITVEC_HASH_def]] by blast
  then have "\<not> found" "h < BITVEC_NINT" by (auto split: if_splits)
  moreover have "free_slot aHash v h" unfolding free_slot_def using k \<open>\<not> found\<close> by (intro exI [of _ k]) auto
  ultimately show thesis using p that by auto
qed

lemma hash_ok_insert:
  assumes ok: "hash_ok sz n aHash" and v: "0 < v" "v \<le> sz" "v \<notin> set aHash" and n: "n + 1 < BITVEC_NINT"
    and f: "free_slot aHash v h" "h < BITVEC_NINT"
  shows "hash_ok sz (n + 1) (aHash[h := v])" "\<And>x. x \<noteq> 0 \<Longrightarrow> x \<in> set (aHash[h := v]) \<longleftrightarrow> x = v \<or> x \<in> set aHash"
proof -
  have len: "length aHash = BITVEC_NINT" using ok by (simp add: hash_ok_def)
  have h0: "aHash ! h = 0" using f by (auto simp: free_slot_def)
  have split: "aHash = take h aHash @ 0 # drop (Suc h) aHash" using id_take_nth_drop [of h aHash] f(2) len h0 by simp
  have split': "aHash[h := v] = take h aHash @ v # drop (Suc h) aHash" using upd_conv_take_nth_drop [of h aHash v] f(2) len by simp
  define a b where "a = take h aHash" and "b = drop (Suc h) aHash"
  have ab: "aHash = a @ 0 # b" "aHash[h := v] = a @ v # b" using split split' by (simp_all add: a_def b_def)
  show "x \<in> set (aHash[h := v]) \<longleftrightarrow> x = v \<or> x \<in> set aHash" if "x \<noteq> 0" for x
    using that unfolding ab(2) unfolding ab(1) using v(1) by auto
  have ch: "chained (aHash[h := v]) w" if "w \<in> set aHash" "w \<noteq> 0" for w
  proof -
    have "chained aHash w" using ok that by (simp add: hash_ok_def)
    obtain k where "k < BITVEC_NINT" "aHash ! ((w - 1 + k) mod BITVEC_NINT) = w" "\<forall>j<k. aHash ! ((w - 1 + j) mod BITVEC_NINT) \<noteq> 0"
      using \<open>chained aHash w\<close> unfolding chained_def by blast
    then show ?thesis unfolding chained_def using h0 that(2) v(1) f(2) len
      by (intro exI [of _ k]) (auto simp: nth_list_update)
  qed
  have "chained (aHash[h := v]) v"
  proof -
    obtain k where "k < BITVEC_NINT" "h = (v - 1 + k) mod BITVEC_NINT" "\<forall>j<k. aHash ! ((v - 1 + j) mod BITVEC_NINT) \<noteq> 0"
      using f by (auto simp: free_slot_def)
    then show ?thesis unfolding chained_def using v(1) f(2) len
      by (intro exI [of _ k]) (auto simp: nth_list_update)
  qed
  moreover have "w \<in> set aHash \<or> w = v" if "w \<in> set (aHash[h := v])" for w
    using that by (meson set_update_subset_insert subsetD insertE)
  ultimately have "\<forall>w\<in>set (aHash[h := v]). w \<le> sz \<and> (w \<noteq> 0 \<longrightarrow> chained (aHash[h := v]) w)"
    using ch ok v(2) by (auto simp: hash_ok_def)
  moreover have "n + 1 = length (filter (\<lambda>v. v \<noteq> 0) (aHash[h := v]))" "distinct (filter (\<lambda>v. v \<noteq> 0) (aHash[h := v]))"
    using ok v unfolding hash_ok_def ab(2) unfolding ab(1) by auto
  ultimately show "hash_ok sz (n + 1) (aHash[h := v])" using n len by (simp add: hash_ok_def)
qed

lemma reinsert_ok:
  assumes "hash_ok sz n aHash" "\<forall>v\<in>set vs. v \<le> sz" "distinct (filter (\<lambda>v. v \<noteq> 0) vs)" "\<forall>x\<in>set vs. x \<noteq> 0 \<longrightarrow> x \<notin> set aHash"
    and "n + length (filter (\<lambda>v. v \<noteq> 0) vs) < BITVEC_NINT"
  shows "\<exists>n' aHash'. reinsert i vs n aHash = Some (n', aHash') \<and> hash_ok sz n' aHash' \<and>
    (\<forall>x. x \<noteq> 0 \<longrightarrow> x \<in> set aHash' \<longleftrightarrow> x \<in> set aHash \<or> x \<in> set vs \<and> x \<noteq> i + 1)"
  using assms
proof (induction vs arbitrary: n aHash)
  case (Cons v vs)
  show ?case
  proof (cases "v \<noteq> 0 \<and> v \<noteq> i + 1")
    case True
    obtain h where h: "probe BITVEC_NINT aHash (BITVEC_HASH (v - 1)) 0 = Some (False, h)" "free_slot aHash v h" "h < BITVEC_NINT"
      using probe_free [OF Cons.prems(1)] by blast
    have v: "v \<notin> set aHash" using Cons.prems(4) True by simp
    have n: "n + 1 < BITVEC_NINT" "0 < v" "v \<le> sz" using Cons.prems(2,5) True by simp_all
    note ok = hash_ok_insert [OF Cons.prems(1) n(2,3) v n(1) h(2,3)]
    have "\<forall>x\<in>set vs. x \<noteq> 0 \<longrightarrow> x \<notin> set (aHash[h := v])"
      using ok(2) Cons.prems(3,4) True by simp (metis)
    then obtain n' aHash' where r: "reinsert i vs (n + 1) (aHash[h := v]) = Some (n', aHash')" "hash_ok sz n' aHash'"
      "\<forall>x. x \<noteq> 0 \<longrightarrow> x \<in> set aHash' \<longleftrightarrow> x \<in> set (aHash[h := v]) \<or> x \<in> set vs \<and> x \<noteq> i + 1"
      using Cons.IH [OF ok(1)] Cons.prems True by auto
    then have "\<forall>x. x \<noteq> 0 \<longrightarrow> x \<in> set aHash' \<longleftrightarrow> x \<in> set aHash \<or> x \<in> set (v # vs) \<and> x \<noteq> i + 1"
      using ok(2) True by (metis set_ConsD list.set_intros)
    then show ?thesis using r(1,2) True h by simp
  next
    case False
    then have "reinsert i (v # vs) n aHash = reinsert i vs n aHash" by auto
    moreover have "\<exists>n' aHash'. reinsert i vs n aHash = Some (n', aHash') \<and> hash_ok sz n' aHash' \<and>
       (\<forall>x. x \<noteq> 0 \<longrightarrow> x \<in> set aHash' \<longleftrightarrow> x \<in> set aHash \<or> x \<in> set vs \<and> x \<noteq> i + 1)"
      by (rule Cons.IH) (use Cons.prems in \<open>auto split: if_splits\<close>)
    ultimately show ?thesis using False by (metis set_ConsD list.set_intros(2))
  qed
qed simp

lemma hash_ok_empty: "hash_ok sz 0 (replicate BITVEC_NINT 0)"
  by (simp add: hash_ok_def filter_replicate)

section \<open>Membership\<close>

lemma elems_bound: "bv_inv p \<Longrightarrow> elems p \<subseteq> {..<iSize p}"
proof (induction p rule: bv_inv.induct)
  case (3 sz n d aHash)
  then show ?case by (auto simp: hash_ok_def)
qed (simp_all del: elems.simps)

lemma sub_pos: "(sz::nat) > BITVEC_NBIT \<Longrightarrow> 0 < (sz + BITVEC_NPTR - 1) div BITVEC_NPTR"
  by (simp add: div_greater_zero_iff)

lemma sub_range: "i < sz \<Longrightarrow> (sz::nat) > BITVEC_NBIT \<Longrightarrow> i div ((sz + BITVEC_NPTR - 1) div BITVEC_NPTR) < BITVEC_NPTR"
proof -
  assume i: "i < sz" "sz > BITVEC_NBIT"
  define d where "d = (sz + 61) div 62"
  have "sz \<le> 62 * d" unfolding d_def by linarith
  then have "i < 62 * d" using i by linarith
  then have "i div d < 62" by (metis less_mult_imp_div_less mult.commute)
  then show ?thesis by (simp add: d_def add.commute)
qed

lemma elems_sub_iff:
  assumes "bv_inv (Bitvec sz n d (ApSub apSub))"
  shows "e \<in> elems (Bitvec sz n d (ApSub apSub)) \<longleftrightarrow>
    e div d < length apSub \<and> (\<exists>p. apSub ! (e div d) = Some p \<and> e mod d \<in> elems p)"
proof -
  have d: "0 < d" using assms sub_pos by auto
  have b: "elems p \<subseteq> {..<d}" if "k < length apSub" "apSub ! k = Some p" for k p
    using assms elems_bound [of p] that by (auto split: option.splits)
  show ?thesis
  proof
    assume "e \<in> elems (Bitvec sz n d (ApSub apSub))"
    then obtain k p x where k: "k < length apSub" "apSub ! k = Some p" "x \<in> elems p" "e = k * d + x"
      by (auto split: option.splits)
    then have "x < d" using b by blast
    then have "e div d = k" "e mod d = x" using k(4) by simp_all
    then show "e div d < length apSub \<and> (\<exists>p. apSub ! (e div d) = Some p \<and> e mod d \<in> elems p)" using k by simp
  next
    assume "e div d < length apSub \<and> (\<exists>p. apSub ! (e div d) = Some p \<and> e mod d \<in> elems p)"
    then obtain p where p: "e div d < length apSub" "apSub ! (e div d) = Some p" "e mod d \<in> elems p" by blast
    then have "e \<in> (\<lambda>x. e div d * d + x) ` elems p" by (intro image_eqI [of _ _ "e mod d"]) simp_all
    then show "e \<in> elems (Bitvec sz n d (ApSub apSub))" using p by (auto intro!: bexI [of _ "e div d"])
  qed
qed

lemma test_loop_ok: "bv_inv p \<Longrightarrow> i < iSize p \<Longrightarrow> test_loop p i = Some (i \<in> elems p)"
proof (induction p i rule: test_loop.induct)
  case (1 sz n d w i)
  show ?case
  proof (cases w)
    case (ABitmap b)
    then show ?thesis using 1 by (auto simp: and_exp_eq_0_iff_not_bit)
  next
    case (AHash h)
    then have ok: "hash_ok sz n h" "sz > BITVEC_NBIT" "d = 0" using 1 by simp_all
    obtain found k where "probe BITVEC_NINT h (BITVEC_HASH (i + 1 - 1)) (i + 1) = Some (found, k)" "found \<longleftrightarrow> i + 1 \<in> set h"
      by (rule probe_hash [OF ok(1), of "i + 1"]) simp_all
    then show ?thesis using AHash ok by simp
  next
    case (ApSub apSub)
    have "bv_inv (Bitvec sz n d (ApSub apSub))" using "1.prems"(1) unfolding ApSub .
    note e = elems_sub_iff [OF this]
    have d: "0 < d" "i div d < length apSub" using "1.prems" ApSub sub_pos [of sz] sub_range [of i sz] by auto
    show ?thesis
    proof (cases "apSub ! (i div d)")
      case None
      then show ?thesis using d e [of i] ApSub by (simp del: elems.simps)
    next
      case (Some p)
      then have "iSize p = d" "bv_inv p" using "1.prems"(1) ApSub d(2) by (auto split: option.splits)
      then have "test_loop p (i mod d) = Some (i mod d \<in> elems p)" using 1(1) [of apSub "Some p" p] ApSub d Some by simp
      then show ?thesis using d e [of i] ApSub Some by (simp del: elems.simps)
    qed
  qed
qed

section \<open>Updating one sub-bitmap or one byte\<close>

lemma sub_update:
  assumes inv: "bv_inv (Bitvec sz n d (ApSub apSub))" and i: "i < sz"
    and q: "bv_inv q" "iSize q = d"
  defines "p' \<equiv> Bitvec sz n d (ApSub (apSub[i div d := Some q]))"
  assumes b: "\<forall>e. e div d = i div d \<and> e mod d \<in> elems q \<longrightarrow> e < sz"
  shows "bv_inv p'" and "e \<in> elems p' \<longleftrightarrow> (if e div d = i div d then e mod d \<in> elems q else e \<in> elems (Bitvec sz n d (ApSub apSub)))"
proof -
  have d: "0 < d" "i div d < length apSub" using inv i sub_pos [of sz] sub_range [of i sz] by auto
  have sz: "sz > BITVEC_NBIT" "d = (sz + BITVEC_NPTR - 1) div BITVEC_NPTR" "length apSub = BITVEC_NPTR" using inv by simp_all
  have subs: "\<forall>k\<in>{..<length (apSub[i div d := Some q])}. case apSub[i div d := Some q] ! k of Some p \<Rightarrow> iSize p = d \<and> bv_inv p | None \<Rightarrow> True"
  proof
    fix k assume "k \<in> {..<length (apSub[i div d := Some q])}"
    then show "case apSub[i div d := Some q] ! k of Some p \<Rightarrow> iSize p = d \<and> bv_inv p | None \<Rightarrow> True"
      using inv q by (cases "k = i div d") (auto simp: nth_list_update)
  qed
  have eq: "e \<in> elems p' \<longleftrightarrow> e div d < length apSub \<and> (\<exists>p. apSub[i div d := Some q] ! (e div d) = Some p \<and> e mod d \<in> elems p)" for e
  proof -
    have bd: "elems p \<subseteq> {..<d}" if "k < length apSub" "apSub[i div d := Some q] ! k = Some p" for k p
      using subs elems_bound [of p] that by (auto split: option.splits)
    show ?thesis
    proof
      assume "e \<in> elems p'"
      then obtain k p x where k: "k < length apSub" "apSub[i div d := Some q] ! k = Some p" "x \<in> elems p" "e = k * d + x"
        by (auto simp: p'_def split: option.splits)
      then have "x < d" using bd by blast
      then have "e div d = k" "e mod d = x" using k(4) by simp_all
      then show "e div d < length apSub \<and> (\<exists>p. apSub[i div d := Some q] ! (e div d) = Some p \<and> e mod d \<in> elems p)" using k by simp
    next
      assume "e div d < length apSub \<and> (\<exists>p. apSub[i div d := Some q] ! (e div d) = Some p \<and> e mod d \<in> elems p)"
      then obtain p where p: "e div d < length apSub" "apSub[i div d := Some q] ! (e div d) = Some p" "e mod d \<in> elems p" by blast
      then have "e \<in> (\<lambda>x. e div d * d + x) ` elems p" by (intro image_eqI [of _ _ "e mod d"]) simp_all
      then show "e \<in> elems p'" using p by (auto simp: p'_def intro!: bexI [of _ "e div d"])
    qed
  qed
  show e: "e \<in> elems p' \<longleftrightarrow> (if e div d = i div d then e mod d \<in> elems q else e \<in> elems (Bitvec sz n d (ApSub apSub)))" for e
    unfolding eq elems_sub_iff [OF inv] using d by (auto simp: nth_list_update)
  have "elems p' \<subseteq> {..<sz}"
    using e b elems_bound [OF inv] by (metis bitvec.sel(1) lessThan_iff subsetD subsetI)
  then show "bv_inv p'" using sz subs unfolding p'_def bv_inv.simps by (metis length_list_update)
qed

lemma bitmap_update:
  assumes "length aBitmap = BITVEC_NELEM" "i < BITVEC_NBIT" "\<forall>k<8. bit b k = (if k = i mod 8 then v else bit (aBitmap ! (i div 8)) k)"
  shows "e \<in> elems (Bitvec sz n d (ABitmap (aBitmap[i div 8 := b]))) \<longleftrightarrow> (if e = i then v else e \<in> elems (Bitvec sz n d (ABitmap aBitmap)))"
proof (cases "e div 8 = i div 8")
  case True
  then have "e = i \<longleftrightarrow> e mod 8 = i mod 8" by (metis div_mult_mod_eq)
  then show ?thesis using True assms by (auto simp: nth_list_update)
next
  case False
  then show ?thesis using assms by (auto simp: nth_list_update)
qed

section \<open>Clearing a bit\<close>

lemma clear_loop_ok:
  "bv_inv p \<Longrightarrow> i < iSize p \<Longrightarrow> \<exists>p'. clear_loop p i = Some p' \<and> bv_inv p' \<and> iSize p' = iSize p \<and> elems p' = elems p - {i}"
proof (induction p i rule: clear_loop.induct)
  case (1 sz n d w i)
  show ?case
  proof (cases w)
    case (ABitmap b)
    let ?b = "b ! (i div 8) AND NOT (push_bit (i mod 8) 1)"
    have b: "sz \<le> BITVEC_NBIT" "d = 0" "length b = BITVEC_NELEM" "i < BITVEC_NBIT" using 1 ABitmap by auto
    have "\<forall>k<8. bit ?b k = (if k = i mod 8 then False else bit (b ! (i div 8)) k)"
      by (auto simp: bit_simps)
    note e = bitmap_update [OF b(3,4) this]
    have "elems (Bitvec sz n d (ABitmap (b[i div 8 := ?b]))) = elems (Bitvec sz n d w) - {i}"
      unfolding ABitmap by (rule set_eqI) (simp only: e, simp del: elems.simps)
    moreover have "elems (Bitvec sz n d w) - {i} \<subseteq> {..<sz}" using elems_bound [OF "1.prems"(1)] by auto
    ultimately show ?thesis using b ABitmap by (simp del: elems.simps)
  next
    case (AHash h)
    then have ok: "hash_ok sz n h" "sz > BITVEC_NBIT" "d = 0" using 1 by simp_all
    have "\<exists>n' h'. reinsert i h 0 (replicate BITVEC_NINT 0) = Some (n', h') \<and> hash_ok sz n' h' \<and>
      (\<forall>x. x \<noteq> 0 \<longrightarrow> x \<in> set h' \<longleftrightarrow> x \<in> set (replicate BITVEC_NINT 0) \<or> x \<in> set h \<and> x \<noteq> i + 1)"
      by (rule reinsert_ok [OF hash_ok_empty]) (use ok(1) in \<open>auto simp: hash_ok_def\<close>)
    then obtain n' h' where r: "reinsert i h 0 (replicate BITVEC_NINT 0) = Some (n', h')" "hash_ok sz n' h'"
      "\<forall>x. x \<noteq> 0 \<longrightarrow> x \<in> set h' \<longleftrightarrow> x \<in> set h \<and> x \<noteq> i + 1" by auto
    have "elems (Bitvec sz n' d (AHash h')) = elems (Bitvec sz n d w) - {i}"
      using r(3) by (auto simp: AHash)
    then show ?thesis using r(1,2) ok AHash elems_bound [OF "1.prems"(1)] by (simp del: elems.simps)
  next
    case (ApSub apSub)
    have inv: "bv_inv (Bitvec sz n d (ApSub apSub))" using "1.prems"(1) unfolding ApSub .
    note e = elems_sub_iff [OF inv]
    have d: "0 < d" "i div d < length apSub" using "1.prems" ApSub sub_pos [of sz] sub_range [of i sz] by auto
    show ?thesis
    proof (cases "apSub ! (i div d)")
      case None
      then have "i \<notin> elems (Bitvec sz n d w)" using d e [of i] ApSub by (simp del: elems.simps)
      then show ?thesis using d None ApSub inv by (simp del: elems.simps bv_inv.simps)
    next
      case (Some p)
      then have p: "iSize p = d" "bv_inv p" using "1.prems"(1) ApSub d(2) by (auto split: option.splits)
      then obtain q where q: "clear_loop p (i mod d) = Some q" "bv_inv q" "iSize q = d" "elems q = elems p - {i mod d}"
        using 1(1) [of apSub "Some p" p] ApSub d Some by auto
      have sub: "e \<in> elems (Bitvec sz n d (ApSub apSub))" if "e div d = i div d" "e mod d \<in> elems q" for e
        using that q(4) Some d(2) unfolding elems_sub_iff [OF inv] by simp
      have "\<forall>e. e div d = i div d \<and> e mod d \<in> elems q \<longrightarrow> e < sz"
        using sub elems_bound [OF inv] by auto
      note u = sub_update [OF inv _ q(2,3) this]
      have i: "i < sz" using "1.prems" by simp
      have "elems (Bitvec sz n d (ApSub (apSub[i div d := Some q]))) = elems (Bitvec sz n d (ApSub apSub)) - {i}"
      proof (rule set_eqI)
        fix x
        have "x div d = i div d \<Longrightarrow> x = i \<longleftrightarrow> x mod d = i mod d" by (metis div_mult_mod_eq)
        then show "x \<in> elems (Bitvec sz n d (ApSub (apSub[i div d := Some q]))) \<longleftrightarrow> x \<in> elems (Bitvec sz n d (ApSub apSub)) - {i}"
          unfolding u(2) [OF i] using e [of x] q(4) Some d(2) by auto
      qed
      then show ?thesis using u(1) [OF i] q(1) d Some ApSub by (simp del: elems.simps bv_inv.simps)
    qed
  qed
qed

section \<open>Setting a bit\<close>

text \<open>
  What \<open>sqlite3BitvecSet\<close> leaves: a well-formed bitmap of the same size; with \<open>SQLITE_OK\<close>
  the bit is in the set and nothing else changed; without memory bits may be missing, none is
  invented.
\<close>

definition is_sub :: "bitvec \<Rightarrow> bool" where
  "is_sub p \<longleftrightarrow> iDivisor p \<noteq> 0"

definition set_post :: "bitvec \<Rightarrow> nat set \<Rightarrow> bool list \<Rightarrow> (nat \<times> bitvec \<times> bool list) option \<Rightarrow> bool" where
  "set_post p I mem r \<longleftrightarrow>
     (\<exists>rc p' mem'. r = Some (rc, p', mem') \<and> bv_inv p' \<and> iSize p' = iSize p \<and> (is_sub p \<longrightarrow> is_sub p') \<and>
        rc \<in> {SQLITE_OK, SQLITE_NOMEM} \<and> (rc = SQLITE_OK \<longrightarrow> elems p' = elems p \<union> I) \<and>
        elems p' \<subseteq> elems p \<union> I \<and> (mem = [] \<longrightarrow> rc = SQLITE_OK \<and> mem' = []))"

lemma set_values_ok:
  assumes f: "\<forall>mem p i. bv_inv p \<and> is_sub p \<and> iSize p = sz \<and> i < sz \<longrightarrow> set_post p {i} mem (f mem p i)"
    and "bv_inv p" "is_sub p" "iSize p = sz" "\<forall>v\<in>set vs. v \<le> sz" "rc \<in> {SQLITE_OK, SQLITE_NOMEM}"
  shows "\<exists>rc' p' mem'. set_values f vs mem rc p = Some (rc', p', mem') \<and> bv_inv p' \<and> iSize p' = sz \<and> is_sub p' \<and>
    rc' \<in> {SQLITE_OK, SQLITE_NOMEM} \<and> (rc' = SQLITE_OK \<longrightarrow> rc = SQLITE_OK \<and> elems p' = elems p \<union> {e. e + 1 \<in> set vs}) \<and>
    elems p' \<subseteq> elems p \<union> {e. e + 1 \<in> set vs} \<and> (mem = [] \<longrightarrow> rc' = rc \<and> mem' = [])"
  using assms(2-)
proof (induction vs arbitrary: mem rc p)
  case (Cons v vs)
  show ?case
  proof (cases "v = 0")
    case True
    then show ?thesis using Cons.IH [of p rc mem] Cons.prems by simp
  next
    case False
    then have "v - 1 < sz" using Cons.prems(4) by (cases v) auto
    with f Cons.prems(1-3) have "set_post p {v - 1} mem (f mem p (v - 1))" by blast
    then obtain rc1 p1 mem1 where
      r: "f mem p (v - 1) = Some (rc1, p1, mem1)" "bv_inv p1" "iSize p1 = sz" "is_sub p1" "rc1 \<in> {0, 7}"
        "rc1 = 0 \<longrightarrow> elems p1 = elems p \<union> {v - 1}" "elems p1 \<subseteq> elems p \<union> {v - 1}" "mem = [] \<longrightarrow> rc1 = 0 \<and> mem1 = []"
      using Cons.prems by (auto simp: set_post_def)
    have rc: "rc OR rc1 \<in> {0, 7}" "rc OR rc1 = 0 \<longleftrightarrow> rc = 0 \<and> rc1 = 0" using r(5) Cons.prems(5) by (auto simp: or_numerals)
    have es: "{e. e + 1 \<in> set (v # vs)} = {v - 1} \<union> {e. e + 1 \<in> set vs}" using False by auto
    obtain rc' p' mem' where s: "set_values f vs mem1 (rc OR rc1) p1 = Some (rc', p', mem')" "bv_inv p'" "iSize p' = sz" "is_sub p'"
      "rc' \<in> {0, 7}" "rc' = 0 \<longrightarrow> rc OR rc1 = 0 \<and> elems p' = elems p1 \<union> {e. e + 1 \<in> set vs}"
      "elems p' \<subseteq> elems p1 \<union> {e. e + 1 \<in> set vs}" "mem1 = [] \<longrightarrow> rc' = rc OR rc1 \<and> mem' = []"
      using Cons.IH [OF r(2,4,3) _ rc(1), of mem1] Cons.prems(4) by auto
    have "set_values f (v # vs) mem rc p = Some (rc', p', mem')" using False r(1) s(1) by simp
    moreover have "rc' = 0 \<longrightarrow> rc = 0 \<and> elems p' = elems p \<union> {e. e + 1 \<in> set (v # vs)}"
      unfolding es using s(6) r(6) rc(2) by auto
    moreover have "elems p' \<subseteq> elems p \<union> {e. e + 1 \<in> set (v # vs)}"
      unfolding es using s(7) r(7) by blast
    moreover have "mem = [] \<longrightarrow> rc' = rc \<and> mem' = []" using s(8) r(8) by auto
    ultimately show ?thesis using s(2-5)
      by (intro exI [of _ rc'] exI [of _ p'] exI [of _ mem'] conjI)
  qed
qed simp

lemma bv_inv_zero: "bv_inv (bitvec_zero sz)" "elems (bitvec_zero sz) = {}" "iSize (bitvec_zero sz) = sz" "\<not> is_sub (bitvec_zero sz)"
  using hash_ok_empty by (auto simp: bitvec_zero_def is_sub_def)

lemma bv_inv_new_sub:
  fixes sz n :: nat
  assumes "sz > BITVEC_NBIT"
  defines "p \<equiv> Bitvec sz n ((sz + BITVEC_NPTR - 1) div BITVEC_NPTR) (ApSub (replicate BITVEC_NPTR None))"
  shows "bv_inv p" "elems p = {}" "iSize p = sz" "is_sub p"
proof -
  show e: "elems p = {}" by (auto simp: p_def split: option.splits)
  show "bv_inv p" using e assms(1) unfolding p_def bv_inv.simps by simp
  show "iSize p = sz" "is_sub p" using sub_pos [OF assms(1)] by (simp_all add: p_def is_sub_def)
qed

text \<open>How deep the recursion goes: a table of \<open>3968 * 62 ^ j\<close> bits needs two steps a level.\<close>

definition fuel_ok :: "nat \<Rightarrow> bitvec \<Rightarrow> bool" where
  "fuel_ok k p \<longleftrightarrow> (\<exists>j. iSize p \<le> BITVEC_NBIT * BITVEC_NPTR ^ j \<and> (if is_sub p then 2 * j else 2 * j + 1) \<le> k)"

lemma fuel_sub:
  assumes "fuel_ok (Suc k) p" "is_sub p" "iSize p > BITVEC_NBIT"
    and q: "iSize q = (iSize p + BITVEC_NPTR - 1) div BITVEC_NPTR"
  shows "fuel_ok k q"
proof -
  obtain j where j: "iSize p \<le> BITVEC_NBIT * BITVEC_NPTR ^ j" "2 * j \<le> Suc k" using assms(1,2) by (auto simp: fuel_ok_def)
  obtain j' where j': "j = Suc j'" using j(1) assms(3) by (cases j) auto
  have "iSize p \<le> BITVEC_NPTR * (BITVEC_NBIT * BITVEC_NPTR ^ j')" using j(1) j' by simp
  then have "iSize q \<le> BITVEC_NBIT * BITVEC_NPTR ^ j'" unfolding q by linarith
  then show ?thesis unfolding fuel_ok_def using j(2) j' by (intro exI [of _ j']) auto
qed

lemma fuel_hash:
  assumes "fuel_ok (Suc k) p" "\<not> is_sub p" "iSize p > BITVEC_NBIT" "iSize q = iSize p" "is_sub q"
  shows "fuel_ok k q"
  using assms unfolding fuel_ok_def by (auto intro!: exI)

lemma set_loop_ok:
  "fuel_ok k p \<Longrightarrow> bv_inv p \<Longrightarrow> i < iSize p \<Longrightarrow> set_post p {i} mem (set_loop k mem p i)"
proof (induction k arbitrary: p i mem)
  case 0
  then obtain j where "iSize p \<le> BITVEC_NBIT * BITVEC_NPTR ^ j" "is_sub p" "j = 0" by (auto simp: fuel_ok_def split: if_splits)
  then show ?case using 0(2) by (cases p; cases "bv_u p") (auto simp: is_sub_def)
next
  case (Suc k)
  obtain sz n d w where p: "p = Bitvec sz n d w" by (cases p)
  show ?case
  proof (cases w)
    case (ABitmap b)
    let ?b = "b ! (i div 8) OR push_bit (i mod 8) 1"
    have b: "sz \<le> BITVEC_NBIT" "d = 0" "length b = BITVEC_NELEM" "i < BITVEC_NBIT" "i < sz" using Suc.prems ABitmap p by auto
    have "\<forall>k<8. bit ?b k = (if k = i mod 8 then True else bit (b ! (i div 8)) k)" by (auto simp: bit_simps)
    note e = bitmap_update [OF b(3,4) this]
    have el: "elems (Bitvec sz n d (ABitmap (b[i div 8 := ?b]))) = elems p \<union> {i}"
      unfolding ABitmap p by (rule set_eqI) (simp only: e, simp del: elems.simps)
    moreover have "elems p \<union> {i} \<subseteq> {..<sz}" using elems_bound [OF Suc.prems(2)] b(5) p by auto
    ultimately show ?thesis using b ABitmap p by (simp add: set_post_def is_sub_def del: elems.simps)
  next
    case (AHash h)
    then have ok: "hash_ok sz n h" "sz > BITVEC_NBIT" "d = 0" "i < sz" using Suc.prems p by simp_all
    obtain found s where pr: "probe BITVEC_NINT h (BITVEC_HASH (i + 1 - 1)) (i + 1) = Some (found, s)" "found \<longleftrightarrow> i + 1 \<in> set h"
      "\<not> found \<Longrightarrow> free_slot h (i + 1) s" "s < BITVEC_NINT"
      by (rule probe_hash [OF ok(1), of "i + 1"]) simp_all
    have len: "length h = BITVEC_NINT" using ok(1) by (simp add: hash_ok_def)
    have rd: "rda h (BITVEC_HASH i) = Some (h ! BITVEC_HASH i)" using len by (simp add: BITVEC_HASH_def)
    have zero: "h ! BITVEC_HASH i = 0 \<Longrightarrow> \<not> found"
      using pr(1) rd by (auto simp: numeral_eq_Suc)
    let ?done = "Some (0, Bitvec sz (n + 1) d (AHash (h[s := i + 1])), mem)"
    have step: "set_loop (Suc k) mem p i = hash_insert (set_loop k) mem sz n d h i"
      using ok AHash p by simp
    have fin: "set_post p {i} mem ?done" if "\<not> found" "n + 1 < BITVEC_NINT"
    proof -
      have "i + 1 \<notin> set h" using that(1) pr(2) by simp
      note ins = hash_ok_insert [OF ok(1) _ _ this that(2) pr(3) [OF that(1)] pr(4)]
      have el: "elems (Bitvec sz (n + 1) d (AHash (h[s := i + 1]))) = elems p \<union> {i}"
        using ins(2) ok(4) by (auto simp: p AHash)
      have "elems p \<union> {i} \<subseteq> {..<sz}" using elems_bound [OF Suc.prems(2)] ok(4) p by auto
      then show ?thesis using ins(1) el ok p by (simp add: set_post_def is_sub_def del: elems.simps)
    qed
    consider "h ! BITVEC_HASH i = 0 \<and> n < BITVEC_NINT - 1" | "h ! BITVEC_HASH i \<noteq> 0 \<and> found"
      | "\<not> (h ! BITVEC_HASH i = 0 \<and> n < BITVEC_NINT - 1)" "\<not> (h ! BITVEC_HASH i \<noteq> 0 \<and> found)" "n < BITVEC_MXHASH"
      | "\<not> (h ! BITVEC_HASH i = 0 \<and> n < BITVEC_NINT - 1)" "\<not> (h ! BITVEC_HASH i \<noteq> 0 \<and> found)" "n \<ge> BITVEC_MXHASH"
      by linarith
    then show ?thesis
    proof cases
      case 1
      then have "set_loop (Suc k) mem p i = ?done" using rd pr(1) unfolding step by (simp add: hash_insert_def Let_def)
      then show ?thesis using fin zero 1 by simp
    next
      case 2
      then have "set_loop (Suc k) mem p i = Some (0, p, mem)" using rd pr(1) p AHash unfolding step by (simp add: hash_insert_def Let_def)
      moreover have "i \<in> elems p" using 2 pr(2) by (simp add: p AHash)
      ultimately show ?thesis using Suc.prems by (auto simp: set_post_def)
    next
      case 3
      then have "set_loop (Suc k) mem p i = ?done" using rd pr(1) unfolding step by (simp add: hash_insert_def Let_def)
      moreover have "\<not> found" using 3 zero by blast
      ultimately show ?thesis using fin 3 by simp
    next
      case 4
      show ?thesis
      proof (cases "malloc mem")
        case (Pair ok' mem1)
        define q where "q = Bitvec sz n ((sz + BITVEC_NPTR - 1) div BITVEC_NPTR) (ApSub (replicate BITVEC_NPTR None))"
        have q: "bv_inv q" "elems q = {}" "iSize q = sz" "is_sub q" using bv_inv_new_sub [OF ok(2), of n] by (simp_all add: q_def)
        have fq: "fuel_ok k r" if "iSize r = sz" "is_sub r" for r
          by (rule fuel_hash [OF Suc.prems(1)]) (use ok p that in \<open>simp_all add: is_sub_def\<close>)
        have IH: "\<forall>mem r e. bv_inv r \<and> is_sub r \<and> iSize r = sz \<and> e < sz \<longrightarrow> set_post r {e} mem (set_loop k mem r e)"
          using Suc.IH fq by simp
        have memnil: "mem = [] \<longrightarrow> ok' \<and> mem1 = []" using Pair by auto
        have nf: "h ! BITVEC_HASH i = 0 \<longrightarrow> \<not> n < BITVEC_NINT - 1" using 4 by blast
        show ?thesis
        proof (cases ok')
          case False
          then have "set_loop (Suc k) mem p i = Some (7, p, mem1)"
            using rd pr(1) p AHash 4 Pair unfolding step by (simp add: hash_insert_def Let_def)
          then show ?thesis using Suc.prems memnil False by (auto simp: set_post_def)
        next
          case True
          obtain rc1 p1 mem2 where r: "set_loop k mem1 q i = Some (rc1, p1, mem2)" "bv_inv p1" "iSize p1 = sz" "is_sub p1"
            "rc1 \<in> {0, 7}" "rc1 = 0 \<longrightarrow> elems p1 = {i}" "elems p1 \<subseteq> {i}" "mem1 = [] \<longrightarrow> rc1 = 0 \<and> mem2 = []"
            using IH [rule_format, of q i mem1] q ok(4) by (auto simp: set_post_def)
          have vs: "\<forall>v\<in>set h. v \<le> sz" using ok(1) by (simp add: hash_ok_def)
          obtain rc' p' mem' where s: "set_values (set_loop k) h mem2 rc1 p1 = Some (rc', p', mem')" "bv_inv p'" "iSize p' = sz" "is_sub p'"
            "rc' \<in> {0, 7}" "rc' = 0 \<longrightarrow> rc1 = 0 \<and> elems p' = elems p1 \<union> {e. e + 1 \<in> set h}"
            "elems p' \<subseteq> elems p1 \<union> {e. e + 1 \<in> set h}" "mem2 = [] \<longrightarrow> rc' = rc1 \<and> mem' = []"
            using set_values_ok [OF IH r(2,4,3) vs r(5), of mem2] by (elim exE conjE) (rule that, assumption+)
          have "set_loop (Suc k) mem p i = Some (rc', p', mem')"
            using rd pr(1) 4 Pair True r(1) s(1) unfolding step by (auto simp: hash_insert_def Let_def q_def)
          moreover have "elems p = {e. e + 1 \<in> set h}" by (simp add: p AHash)
          moreover have "rc' = 0 \<longrightarrow> elems p' = {e. e + 1 \<in> set h} \<union> {i}" using s(6) r(6) by auto
          moreover have "elems p' \<subseteq> {e. e + 1 \<in> set h} \<union> {i}" using s(7) r(7) by blast
          moreover have "mem = [] \<longrightarrow> rc' = 0 \<and> mem' = []" using s(8) r(8) memnil by auto
          ultimately show ?thesis using s(2-5) p by (simp add: set_post_def)
        qed
      qed
    qed
  next
    case (ApSub apSub)
    have inv: "bv_inv (Bitvec sz n d (ApSub apSub))" using Suc.prems(2) unfolding p ApSub .
    note e = elems_sub_iff [OF inv]
    have i: "i < sz" "sz > BITVEC_NBIT" "d = (sz + BITVEC_NPTR - 1) div BITVEC_NPTR" using Suc.prems(3) inv p by simp_all
    have d: "0 < d" "i div d < length apSub" using inv i(1) sub_pos [of sz] sub_range [of i sz] by auto
    obtain q0 mem1 where q0: "(case apSub ! (i div d) of Some q \<Rightarrow> (Some q, mem) | None \<Rightarrow> sqlite3BitvecCreate mem d) = (q0, mem1)"
      by (cases "case apSub ! (i div d) of Some q \<Rightarrow> (Some q, mem) | None \<Rightarrow> sqlite3BitvecCreate mem d")
    have memnil: "mem = [] \<longrightarrow> q0 \<noteq> None \<and> mem1 = []"
    proof (cases "apSub ! (i div d)")
      case None
      then show ?thesis using q0 by (auto simp: sqlite3BitvecCreate_def)
    next
      case (Some a)
      then have "(Some a, mem) = (q0, mem1)" using q0 by (simp only: option.case)
      then show ?thesis by auto
    qed
    show ?thesis
    proof (cases q0)
      case None
      then have "set_loop (Suc k) mem p i = Some (7, p, mem1)" using p ApSub d i(1,2) q0 by simp
      then show ?thesis using Suc.prems memnil None by (auto simp: set_post_def)
    next
      case (Some q)
      have q: "bv_inv q" "iSize q = d" "x div d = i div d \<Longrightarrow> x mod d \<in> elems q \<longleftrightarrow> x \<in> elems p" for x
      proof -
        have "bv_inv q \<and> iSize q = d \<and> (x div d = i div d \<longrightarrow> x mod d \<in> elems q \<longleftrightarrow> x \<in> elems p)"
        proof (cases "apSub ! (i div d)")
          case None
          then have "q = bitvec_zero d" using q0 Some by (auto simp: sqlite3BitvecCreate_def split: prod.splits if_splits)
          then show ?thesis using bv_inv_zero None e [of x] by (simp add: p ApSub del: elems.simps)
        next
          case (Some q')
          then have "q = q'" using q0 \<open>q0 = Some q\<close> by simp
          then show ?thesis using Some inv d(2) e [of x] by (auto simp: p ApSub simp del: elems.simps split: option.splits)
        qed
        then show "bv_inv q" "iSize q = d" "x div d = i div d \<Longrightarrow> x mod d \<in> elems q \<longleftrightarrow> x \<in> elems p" by auto
      qed
      have "fuel_ok k q"
        by (rule fuel_sub [OF Suc.prems(1)]) (use d i p q(2) in \<open>simp_all add: is_sub_def\<close>)
      then obtain rc1 q1 mem2 where r: "set_loop k mem1 q (i mod d) = Some (rc1, q1, mem2)" "bv_inv q1" "iSize q1 = d"
        "rc1 \<in> {0, 7}" "rc1 = 0 \<longrightarrow> elems q1 = elems q \<union> {i mod d}" "elems q1 \<subseteq> elems q \<union> {i mod d}" "mem1 = [] \<longrightarrow> rc1 = 0 \<and> mem2 = []"
        using Suc.IH [of q "i mod d" mem1] q(1,2) d(1) by (auto simp: set_post_def)
      have same: "x div d = i div d \<Longrightarrow> x mod d = i mod d \<longleftrightarrow> x = i" for x by (metis div_mult_mod_eq)
      have sub: "x \<in> elems p \<or> x = i" if "x div d = i div d" "x mod d \<in> elems q1" for x
        using that r(6) q(3) same by blast
      have "\<forall>x. x div d = i div d \<and> x mod d \<in> elems q1 \<longrightarrow> x < sz"
        using sub elems_bound [OF Suc.prems(2)] i(1) p by auto
      note u = sub_update [OF inv i(1) r(2,3) this]
      define p' where "p' = Bitvec sz n d (ApSub (apSub[i div d := Some q1]))"
      have step: "set_loop (Suc k) mem p i = Some (rc1, p', mem2)"
        using p ApSub d i(1,2) q0 Some r(1) by (simp add: p'_def)
      have mem: "x \<in> elems p' \<longleftrightarrow> (if x div d = i div d then x mod d \<in> elems q1 else x \<in> elems p)" for x
        using u(2) [of x] by (simp only: p'_def p ApSub)
      have "elems p' \<subseteq> elems p \<union> {i}" by (rule subsetI) (metis UnI1 UnI2 singletonI mem sub)
      moreover have "rc1 = 0 \<longrightarrow> elems p' = elems p \<union> {i}"
      proof
        assume "rc1 = 0"
        then have "elems q1 = elems q \<union> {i mod d}" using r(5) by blast
        then have "x \<in> elems p' \<longleftrightarrow> x \<in> elems p \<or> x = i" for x
          using q(3) [of x] same [of x] by (cases "x div d = i div d") (auto simp: mem)
        then show "elems p' = elems p \<union> {i}" by auto
      qed
      moreover have "bv_inv p'" using u(1) by (simp only: p'_def)
      moreover have "is_sub p \<longrightarrow> is_sub p'" using d(1) by (simp add: p'_def is_sub_def)
      moreover have "iSize p' = iSize p" by (simp add: p'_def p)
      moreover have "mem = [] \<longrightarrow> rc1 = 0 \<and> mem2 = []" using r(7) memnil by blast
      ultimately show ?thesis unfolding step set_post_def using r(4)
        by (intro exI [of _ rc1] exI [of _ p'] exI [of _ mem2] conjI refl)
    qed
  qed
qed

lemma wrap_pred: "1 \<le> i \<Longrightarrow> i < 2 ^ 32 \<Longrightarrow> (i + 2 ^ 32 - 1) mod 2 ^ 32 = (i - 1 :: nat)"
proof -
  assume i: "1 \<le> i" "i < 2 ^ 32"
  then obtain k where k: "i = Suc k" by (cases i) auto
  have "i + 2 ^ 32 - 1 = k + 2 ^ 32" by (simp add: k)
  then show ?thesis using i(2) k by (simp only: mod_add_self2) simp
qed

definition bv_members :: "bitvec \<Rightarrow> nat set" where
  "bv_members p = {i. 1 \<le> i \<and> i - 1 \<in> elems p}"

definition bv_ok :: "nat \<Rightarrow> bitvec \<Rightarrow> bool" where
  "bv_ok sz p \<longleftrightarrow> bv_inv p \<and> iSize p = sz \<and> sz < 2 ^ 32"

lemma pred_eq: "1 \<le> (x::nat) \<Longrightarrow> 1 \<le> i \<Longrightarrow> x - 1 = i - 1 \<longleftrightarrow> x = i"
  by linarith

lemma bv_members_insert: "1 \<le> i \<Longrightarrow> elems q = elems p \<union> {i - 1} \<Longrightarrow> bv_members q = insert i (bv_members p)"
  unfolding bv_members_def set_eq_iff using pred_eq [of _ i] by blast

lemma bv_members_mono: "1 \<le> i \<Longrightarrow> elems q \<subseteq> elems p \<union> {i - 1} \<Longrightarrow> bv_members q \<subseteq> insert i (bv_members p)"
  unfolding bv_members_def subset_iff using pred_eq [of _ i] by blast

lemma bv_members_remove: "1 \<le> i \<Longrightarrow> elems q = elems p - {i - 1} \<Longrightarrow> bv_members q = bv_members p - {i}"
  unfolding bv_members_def set_eq_iff using pred_eq [of _ i] by blast

lemma fuel_9: "bv_ok sz p \<Longrightarrow> fuel_ok 9 p"
  unfolding fuel_ok_def by (intro exI [of _ 4]) (auto simp: bv_ok_def)

lemma BitvecSet_lemma:
  assumes "bv_ok sz p" "1 \<le> i" "i \<le> sz"
  shows "\<exists>rc q mem'. sqlite3BitvecSet mem (Some p) i = Some (rc, Some q, mem') \<and> bv_ok sz q \<and>
    rc \<in> {SQLITE_OK, SQLITE_NOMEM} \<and> (rc = SQLITE_OK \<longrightarrow> bv_members q = insert i (bv_members p)) \<and>
    bv_members q \<subseteq> insert i (bv_members p) \<and> (mem = [] \<longrightarrow> rc = SQLITE_OK)"
proof -
  have i: "i - 1 < iSize p" "(i + 2 ^ 32 - 1) mod 2 ^ 32 = i - 1" using assms wrap_pred by (auto simp: bv_ok_def)
  have "set_post p {i - 1} mem (set_loop 9 mem p (i - 1))"
    using assms i(1) by (intro set_loop_ok fuel_9) (auto simp: bv_ok_def)
  then obtain rc q mem' where r: "set_loop 9 mem p (i - 1) = Some (rc, q, mem')" "bv_inv q" "iSize q = iSize p" "rc \<in> {0, 7}"
    "rc = 0 \<longrightarrow> elems q = elems p \<union> {i - 1}" "elems q \<subseteq> elems p \<union> {i - 1}" "mem = [] \<longrightarrow> rc = 0"
    unfolding set_post_def by (elim exE conjE) (rule that, blast+)
  have s: "sqlite3BitvecSet mem (Some p) i = Some (rc, Some q, mem')"
    using r(1) i(2) by (simp add: sqlite3BitvecSet_def)
  have ok: "bv_ok sz q" using assms r(2,3) by (simp add: bv_ok_def)
  have m: "rc = 0 \<longrightarrow> bv_members q = insert i (bv_members p)"
    using r(5) bv_members_insert [OF assms(2), of q p] by blast
  have "bv_members q \<subseteq> insert i (bv_members p)" using r(6) by (rule bv_members_mono [OF assms(2)])
  then show ?thesis using s r(4,7) ok m
    by (intro exI [of _ rc] exI [of _ q] exI [of _ mem'] conjI)
qed

lemma BitvecClear_lemma:
  assumes "bv_ok sz p" "1 \<le> i" "i \<le> sz"
  shows "\<exists>q. sqlite3BitvecClear (Some p) i = Some (Some q) \<and> bv_ok sz q \<and> bv_members q = bv_members p - {i}"
proof -
  have i: "i - 1 < iSize p" "(i + 2 ^ 32 - 1) mod 2 ^ 32 = i - 1" using assms wrap_pred by (auto simp: bv_ok_def)
  obtain q where "clear_loop p (i - 1) = Some q" "bv_inv q" "iSize q = iSize p" "elems q = elems p - {i - 1}"
    using clear_loop_ok [OF _ i(1)] assms(1) by (auto simp: bv_ok_def)
  then show ?thesis using assms i bv_members_remove [OF assms(2), of q p] by (auto simp: sqlite3BitvecClear_def bv_ok_def)
qed

lemma BitvecTest_lemma:
  assumes "bv_ok sz p" "i < 2 ^ 32"
  shows "sqlite3BitvecTest (Some p) i = Some (i \<in> bv_members p)"
proof (cases "1 \<le> i \<and> i \<le> sz")
  case True
  then have i: "i - 1 < iSize p" "(i + 2 ^ 32 - 1) mod 2 ^ 32 = i - 1" using assms wrap_pred by (auto simp: bv_ok_def)
  then show ?thesis using True test_loop_ok [OF _ i(1)] assms(1)
    by (simp add: sqlite3BitvecTest_def sqlite3BitvecTestNotNull_def Let_def bv_ok_def bv_members_def)
next
  case False
  have "iSize p \<le> (i + 2 ^ 32 - 1) mod 2 ^ 32"
  proof (cases "i = 0")
    case True
    then show ?thesis using assms by (simp add: bv_ok_def)
  next
    case F: False
    then have "(i + 2 ^ 32 - 1) mod 2 ^ 32 = i - 1" using wrap_pred assms(2) by simp
    then show ?thesis using F False assms(1) by (simp add: bv_ok_def)
  qed
  moreover have "i \<notin> bv_members p"
    using False assms(1) elems_bound [of p] by (auto simp: bv_members_def bv_ok_def)
  ultimately show ?thesis by (simp add: sqlite3BitvecTest_def sqlite3BitvecTestNotNull_def Let_def)
qed

definition bv_set :: "nat \<Rightarrow> bitvec \<Rightarrow> bitvec option" where
  "bv_set i p = (case sqlite3BitvecSet [] (Some p) i of Some (rc, Some q, _) \<Rightarrow> if rc = SQLITE_OK then Some q else None | _ \<Rightarrow> None)"

definition bv_clear :: "nat \<Rightarrow> bitvec \<Rightarrow> bitvec option" where
  "bv_clear i p = Option.bind (sqlite3BitvecClear (Some p) i) id"

interpretation bv: set_contract "bv_ok sz" bv_members "{1..sz}" bv_set bv_clear "\<lambda>p. sqlite3BitvecTest (Some p)" for sz
proof
  fix s x assume s: "bv_ok sz s" "x \<in> {1..sz}"
  then have x: "1 \<le> x" "x \<le> sz" by simp_all
  from BitvecSet_lemma [OF s(1) x, of "[]"]
  show "\<exists>s'. bv_set x s = Some s' \<and> bv_ok sz s' \<and> bv_members s' = insert x (bv_members s)"
    by (auto simp: bv_set_def)
  from BitvecClear_lemma [OF s(1) x]
  show "\<exists>s'. bv_clear x s = Some s' \<and> bv_ok sz s' \<and> bv_members s' = bv_members s - {x}"
    by (auto simp: bv_clear_def)
  show "sqlite3BitvecTest (Some s) x = Some (x \<in> bv_members s)"
    using BitvecTest_lemma [OF s(1), of x] s by (simp add: bv_ok_def)
qed

lemma bv_ok_zero: "sz < 2 ^ 32 \<Longrightarrow> bv_ok sz (bitvec_zero sz)" "bv_members (bitvec_zero sz) = {}"
  using bv_inv_zero by (simp_all add: bv_ok_def bv_members_def)

section \<open>Properties\<close>

text \<open>
  Property C11. Setting a bit of a well-formed bitmap, whatever representation it has and
  whichever allocations fail, ends within nine levels, never reads or writes outside an
  array and leaves a well-formed bitmap; it adds that bit and nothing else, or reports
  \<open>SQLITE_NOMEM\<close>, after which no bit is set that should not be.
\<close>

theorem BitvecSet_correct:
  assumes "bv_ok sz p" and "1 \<le> i" and "i \<le> sz"
  shows "case sqlite3BitvecSet mem (Some p) i of
      Some (rc, Some q, _) \<Rightarrow> bv_ok sz q \<and>
        (rc = SQLITE_OK \<and> bv_members q = insert i (bv_members p) \<or>
         rc = SQLITE_NOMEM \<and> mem \<noteq> [] \<and> bv_members q \<subseteq> insert i (bv_members p))
    | _ \<Rightarrow> False"
  using BitvecSet_lemma [OF assms, of mem] by auto

theorem BitvecSet_correct_witness:
  "case sqlite3BitvecSet [] (Some (bitvec_zero 100000)) 70000 of
     Some (rc, Some q, _) \<Rightarrow> bv_ok 100000 q \<and>
       (rc = SQLITE_OK \<and> bv_members q = insert 70000 (bv_members (bitvec_zero 100000)) \<or>
        rc = SQLITE_NOMEM \<and> ([] :: bool list) \<noteq> [] \<and> bv_members q \<subseteq> insert 70000 (bv_members (bitvec_zero 100000)))
   | _ \<Rightarrow> False"
  by (rule BitvecSet_correct) (simp_all add: bv_ok_zero)

text \<open>
  Property C15. After any sequence of sets and clears of a new bitmap, memory permitting,
  \<open>sqlite3BitvecTest\<close> answers whether the last operation on a bit set it.
\<close>

theorem Bitvec_last_operation:
  assumes "sz < 2 ^ 32" and "op_value ` set ops \<subseteq> {1..sz}" and "i \<in> {1..sz}"
  shows "(run_ops bv_set bv_clear ops (bitvec_zero sz) \<bind> (\<lambda>p. sqlite3BitvecTest (Some p) i)) =
    Some (last_op ops i False)"
  using bv.run_isin [OF bv_ok_zero(1) [OF assms(1)] assms(2,3)] bv_ok_zero(2) [of sz] by simp

theorem Bitvec_last_operation_witness:
  "(run_ops bv_set bv_clear [Ins 5, Ins 4005, Del 5, Ins 9] (bitvec_zero 5000) \<bind> (\<lambda>p. sqlite3BitvecTest (Some p) 4005)) = Some True"
  using Bitvec_last_operation [of 5000 "[Ins 5, Ins 4005, Del 5, Ins 9]" 4005] by simp

end
