(* ===== verification/Chars.thy ===== *)
theory Chars
  imports Prelude
begin

text \<open>
  Characters as SQLite classifies them: the tables of global.c, the macros of sqliteInt.h over
  them, and what each class contains. A byte is a \<open>u8\<close>; the tables are lists indexed by it.
\<close>

section \<open>Characters\<close>

definition sqlite3UpperToLower :: "u8 list" where
  "sqlite3UpperToLower =
    [0, 1, 2, 3, 4, 5, 6, 7, 8, 9, 10, 11, 12, 13, 14, 15,
     16, 17, 18, 19, 20, 21, 22, 23, 24, 25, 26, 27, 28, 29, 30, 31,
     32, 33, 34, 35, 36, 37, 38, 39, 40, 41, 42, 43, 44, 45, 46, 47,
     48, 49, 50, 51, 52, 53, 54, 55, 56, 57, 58, 59, 60, 61, 62, 63,
     64, 97, 98, 99, 100, 101, 102, 103, 104, 105, 106, 107, 108, 109, 110, 111,
     112, 113, 114, 115, 116, 117, 118, 119, 120, 121, 122, 91, 92, 93, 94, 95,
     96, 97, 98, 99, 100, 101, 102, 103, 104, 105, 106, 107, 108, 109, 110, 111,
     112, 113, 114, 115, 116, 117, 118, 119, 120, 121, 122, 123, 124, 125, 126, 127,
     128, 129, 130, 131, 132, 133, 134, 135, 136, 137, 138, 139, 140, 141, 142, 143,
     144, 145, 146, 147, 148, 149, 150, 151, 152, 153, 154, 155, 156, 157, 158, 159,
     160, 161, 162, 163, 164, 165, 166, 167, 168, 169, 170, 171, 172, 173, 174, 175,
     176, 177, 178, 179, 180, 181, 182, 183, 184, 185, 186, 187, 188, 189, 190, 191,
     192, 193, 194, 195, 196, 197, 198, 199, 200, 201, 202, 203, 204, 205, 206, 207,
     208, 209, 210, 211, 212, 213, 214, 215, 216, 217, 218, 219, 220, 221, 222, 223,
     224, 225, 226, 227, 228, 229, 230, 231, 232, 233, 234, 235, 236, 237, 238, 239,
     240, 241, 242, 243, 244, 245, 246, 247, 248, 249, 250, 251, 252, 253, 254, 255]"

definition sqlite3CtypeMap :: "u8 list" where
  "sqlite3CtypeMap =
    [0x00, 0x00, 0x00, 0x00, 0x00, 0x00, 0x00, 0x00, 0x00, 0x01, 0x01, 0x01, 0x01, 0x01, 0x00, 0x00,
     0x00, 0x00, 0x00, 0x00, 0x00, 0x00, 0x00, 0x00, 0x00, 0x00, 0x00, 0x00, 0x00, 0x00, 0x00, 0x00,
     0x01, 0x00, 0x80, 0x00, 0x40, 0x00, 0x00, 0x80, 0x00, 0x00, 0x00, 0x00, 0x00, 0x00, 0x00, 0x00,
     0x0c, 0x0c, 0x0c, 0x0c, 0x0c, 0x0c, 0x0c, 0x0c, 0x0c, 0x0c, 0x00, 0x00, 0x00, 0x00, 0x00, 0x00,
     0x00, 0x0a, 0x0a, 0x0a, 0x0a, 0x0a, 0x0a, 0x02, 0x02, 0x02, 0x02, 0x02, 0x02, 0x02, 0x02, 0x02,
     0x02, 0x02, 0x02, 0x02, 0x02, 0x02, 0x02, 0x02, 0x02, 0x02, 0x02, 0x80, 0x00, 0x00, 0x00, 0x40,
     0x80, 0x2a, 0x2a, 0x2a, 0x2a, 0x2a, 0x2a, 0x22, 0x22, 0x22, 0x22, 0x22, 0x22, 0x22, 0x22, 0x22,
     0x22, 0x22, 0x22, 0x22, 0x22, 0x22, 0x22, 0x22, 0x22, 0x22, 0x22, 0x00, 0x00, 0x00, 0x00, 0x00,
     0x40, 0x40, 0x40, 0x40, 0x40, 0x40, 0x40, 0x40, 0x40, 0x40, 0x40, 0x40, 0x40, 0x40, 0x40, 0x40,
     0x40, 0x40, 0x40, 0x40, 0x40, 0x40, 0x40, 0x40, 0x40, 0x40, 0x40, 0x40, 0x40, 0x40, 0x40, 0x40,
     0x40, 0x40, 0x40, 0x40, 0x40, 0x40, 0x40, 0x40, 0x40, 0x40, 0x40, 0x40, 0x40, 0x40, 0x40, 0x40,
     0x40, 0x40, 0x40, 0x40, 0x40, 0x40, 0x40, 0x40, 0x40, 0x40, 0x40, 0x40, 0x40, 0x40, 0x40, 0x40,
     0x40, 0x40, 0x40, 0x40, 0x40, 0x40, 0x40, 0x40, 0x40, 0x40, 0x40, 0x40, 0x40, 0x40, 0x40, 0x40,
     0x40, 0x40, 0x40, 0x40, 0x40, 0x40, 0x40, 0x40, 0x40, 0x40, 0x40, 0x40, 0x40, 0x40, 0x40, 0x40,
     0x40, 0x40, 0x40, 0x40, 0x40, 0x40, 0x40, 0x40, 0x40, 0x40, 0x40, 0x40, 0x40, 0x40, 0x40, 0x40,
     0x40, 0x40, 0x40, 0x40, 0x40, 0x40, 0x40, 0x40, 0x40, 0x40, 0x40, 0x40, 0x40, 0x40, 0x40, 0x40]"

definition UpperToLower :: "u8 \<Rightarrow> u8" where
  "UpperToLower c = sqlite3UpperToLower ! unat c"

definition sqlite3Toupper :: "u8 \<Rightarrow> u8" where
  "sqlite3Toupper c = c AND NOT (sqlite3CtypeMap ! unat c AND 0x20)"

definition sqlite3Isspace :: "u8 \<Rightarrow> bool" where
  "sqlite3Isspace c \<longleftrightarrow> sqlite3CtypeMap ! unat c AND 0x01 \<noteq> 0"

definition sqlite3Isalnum :: "u8 \<Rightarrow> bool" where
  "sqlite3Isalnum c \<longleftrightarrow> sqlite3CtypeMap ! unat c AND 0x06 \<noteq> 0"

definition sqlite3Isalpha :: "u8 \<Rightarrow> bool" where
  "sqlite3Isalpha c \<longleftrightarrow> sqlite3CtypeMap ! unat c AND 0x02 \<noteq> 0"

definition sqlite3Isdigit :: "u8 \<Rightarrow> bool" where
  "sqlite3Isdigit c \<longleftrightarrow> sqlite3CtypeMap ! unat c AND 0x04 \<noteq> 0"

definition sqlite3Isxdigit :: "u8 \<Rightarrow> bool" where
  "sqlite3Isxdigit c \<longleftrightarrow> sqlite3CtypeMap ! unat c AND 0x08 \<noteq> 0"

definition sqlite3Isquote :: "u8 \<Rightarrow> bool" where
  "sqlite3Isquote c \<longleftrightarrow> sqlite3CtypeMap ! unat c AND 0x80 \<noteq> 0"

definition IdChar :: "u8 \<Rightarrow> bool" where
  "IdChar c \<longleftrightarrow> sqlite3CtypeMap ! unat c AND 0x46 \<noteq> 0"

text \<open>A table of 256 entries read at a byte.\<close>

lemma table_nth:
  fixes c :: u8
  assumes "map f t = map g [0..<256]" "length t = 256"
  shows "f (t ! unat c) = g (unat c)"
proof -
  have c: "unat c < 256" using unsigned_less [of c, where 'a = nat] by simp
  have "map f t ! unat c = map g [0..<256] ! unat c" using assms(1) by simp
  then show ?thesis using c assms(2) by (simp del: upt_rec_numeral)
qed

lemma length_tables: "length sqlite3UpperToLower = 256" "length sqlite3CtypeMap = 256"
  by (simp_all add: sqlite3UpperToLower_def sqlite3CtypeMap_def)

lemma UpperToLower_nat: "unat (UpperToLower c) = (if 65 \<le> unat c \<and> unat c \<le> 90 then unat c + 32 else unat c)"
  unfolding UpperToLower_def
  by (rule table_nth [where g = "\<lambda>n. if 65 \<le> n \<and> n \<le> 90 then n + 32 else n"]) (code_simp, simp add: length_tables)

lemma Isspace_nat: "sqlite3Isspace c \<longleftrightarrow> unat c \<in> {9, 10, 11, 12, 13, 32}"
  unfolding sqlite3Isspace_def
  by (rule table_nth [where f = "\<lambda>x. x AND 1 \<noteq> 0" and g = "\<lambda>n. n \<in> {9, 10, 11, 12, 13, 32}"]) (code_simp, simp add: length_tables)

lemma Isdigit_nat: "sqlite3Isdigit c \<longleftrightarrow> 48 \<le> unat c \<and> unat c \<le> 57"
  unfolding sqlite3Isdigit_def
  by (rule table_nth [where f = "\<lambda>x. x AND 4 \<noteq> 0" and g = "\<lambda>n. 48 \<le> n \<and> n \<le> 57"]) (code_simp, simp add: length_tables)

lemma Isxdigit_nat: "sqlite3Isxdigit c \<longleftrightarrow> 48 \<le> unat c \<and> unat c \<le> 57 \<or> 65 \<le> unat c \<and> unat c \<le> 70 \<or> 97 \<le> unat c \<and> unat c \<le> 102"
  unfolding sqlite3Isxdigit_def
  by (rule table_nth [where f = "\<lambda>x. x AND 8 \<noteq> 0" and g = "\<lambda>n. 48 \<le> n \<and> n \<le> 57 \<or> 65 \<le> n \<and> n \<le> 70 \<or> 97 \<le> n \<and> n \<le> 102"]) (code_simp, simp add: length_tables)

lemma Isquote_nat: "sqlite3Isquote c \<longleftrightarrow> unat c \<in> {34, 39, 91, 96}"
  unfolding sqlite3Isquote_def
  by (rule table_nth [where f = "\<lambda>x. x AND 128 \<noteq> 0" and g = "\<lambda>n. n \<in> {34, 39, 91, 96}"]) (code_simp, simp add: length_tables)

lemma Toupper_nat: "unat (sqlite3Toupper c) = (if 97 \<le> unat c \<and> unat c \<le> 122 then unat c - 32 else unat c)"
proof -
  have "map (\<lambda>n. unat ((of_nat n :: u8) AND NOT (sqlite3CtypeMap ! n AND 0x20))) [0..<256] =
    map (\<lambda>n. if 97 \<le> n \<and> n \<le> 122 then n - 32 else n) [0..<256]" by code_simp
  from arg_cong [OF this, of "\<lambda>xs. xs ! unat c"] show ?thesis
    using unsigned_less [of c, where 'a = nat] by (simp add: sqlite3Toupper_def del: upt_rec_numeral)
qed

end
