(* ===== verification/Keywords.thy ===== *)
theory Keywords
  imports Chars
begin

text \<open>
  The keyword hash of tokenize.c (generated into the file by mkkeywordhash.c): its packed tables
  and \<open>keywordCode\<close>, proved against the plain list of the keywords of SQL. The tables are checked
  once, by evaluation; the proof about a text rests on those checks.
\<close>

section \<open>Keywords\<close>

text \<open>The class of each byte, and the generated tables of the keyword hash.\<close>

definition aiClass :: "nat list" where
  "aiClass =
    [27, 27, 27, 27, 27, 27, 27, 27, 27, 7, 7, 27, 7, 7, 27, 27,
     27, 27, 27, 27, 27, 27, 27, 27, 27, 27, 27, 27, 27, 27, 27, 27,
     7, 15, 8, 5, 4, 22, 24, 8, 17, 18, 21, 20, 23, 11, 26, 16,
     3, 3, 3, 3, 3, 3, 3, 3, 3, 3, 5, 19, 12, 14, 13, 6,
     5, 1, 1, 1, 1, 1, 1, 1, 1, 1, 1, 1, 1, 1, 1, 1,
     1, 1, 1, 1, 1, 1, 1, 1, 0, 1, 1, 9, 27, 27, 27, 1,
     8, 1, 1, 1, 1, 1, 1, 1, 1, 1, 1, 1, 1, 1, 1, 1,
     1, 1, 1, 1, 1, 1, 1, 1, 0, 1, 1, 27, 10, 27, 25, 27,
     2, 2, 2, 2, 2, 2, 2, 2, 2, 2, 2, 2, 2, 2, 2, 2,
     2, 2, 2, 2, 2, 2, 2, 2, 2, 2, 2, 2, 2, 2, 2, 2,
     2, 2, 2, 2, 2, 2, 2, 2, 2, 2, 2, 2, 2, 2, 2, 2,
     2, 2, 2, 2, 2, 2, 2, 2, 2, 2, 2, 2, 2, 2, 2, 2,
     2, 2, 2, 2, 2, 2, 2, 2, 2, 2, 2, 2, 2, 2, 2, 2,
     2, 2, 2, 2, 2, 2, 2, 2, 2, 2, 2, 2, 2, 2, 2, 2,
     2, 2, 2, 2, 2, 2, 2, 2, 2, 2, 2, 2, 2, 2, 2, 2,
     2, 2, 2, 2, 2, 2, 2, 2, 2, 2, 2, 2, 2, 2, 2, 2]"

definition kw_letters :: string where
  "kw_letters =
     ''REINDEXEDESCAPEACHECKEYBEFOREIGNOREGEXPLAINSTEADDATABASELECTABLEFT'' @
     ''HENDEFERRABLELSEXCEPTRANSACTIONATURALTERAISEXCLUSIVEXISTSAVEPOINTE'' @
     ''RSECTRIGGEREFERENCESCONSTRAINTOFFSETEMPORARYUNIQUERYWITHOUTERELEAS'' @
     ''EATTACHAVINGROUPDATEBEGINNERECURSIVEBETWEENOTNULLIKECASCADELETECAS'' @
     ''ECOLLATECREATECURRENT_DATEDETACHIMMEDIATEJOINSERTMATCHPLANALYZEPRA'' @
     ''GMABORTVALUESVIRTUALIMITWHENWHERENAMEAFTEREPLACEANDEFAULTAUTOINCRE'' @
     ''MENTCASTCOLUMNCOMMITCONFLICTCROSSCURRENT_TIMESTAMPRIMARYDEFERREDIS'' @
     ''TINCTDROPFAILFROMFULLGLOBYIFISNULLORDERESTRICTRIGHTROLLBACKROWUNIO'' @
     ''NUSINGVACUUMVIEWINITIALLY''"

definition zKWText :: "u8 list" where
  "zKWText = map of_char kw_letters"

definition aKWHash :: "nat list" where
  "aKWHash =
    [76, 105, 117, 74, 0, 45, 0, 0, 82, 0, 77, 0, 0, 42, 12, 78,
     15, 0, 116, 85, 54, 112, 0, 19, 0, 0, 121, 0, 119, 115, 0, 22,
     93, 0, 9, 0, 0, 70, 71, 0, 69, 6, 0, 48, 90, 102, 0, 118,
     101, 0, 0, 44, 0, 103, 24, 0, 17, 0, 122, 53, 23, 0, 5, 110,
     25, 96, 0, 0, 124, 106, 60, 123, 57, 28, 55, 0, 91, 0, 100, 26,
     0, 99, 0, 0, 0, 95, 92, 97, 88, 109, 14, 39, 108, 0, 81, 0,
     18, 89, 111, 32, 0, 120, 80, 113, 62, 46, 84, 0, 0, 94, 40, 59,
     114, 0, 36, 0, 0, 29, 0, 86, 63, 64, 0, 20, 61, 0, 56]"

definition aKWNext :: "nat list" where
  "aKWNext =
    [0, 0, 0, 0, 4, 0, 0, 0, 0, 0, 0, 0, 0, 0, 2, 0,
     0, 0, 0, 0, 0, 13, 0, 0, 0, 0, 0, 7, 0, 0, 0, 0,
     0, 0, 0, 0, 0, 0, 0, 0, 0, 0, 0, 33, 0, 21, 0, 0,
     0, 0, 0, 50, 0, 43, 3, 47, 0, 0, 0, 0, 30, 0, 58, 0,
     38, 0, 0, 0, 1, 66, 0, 0, 67, 0, 41, 0, 0, 0, 0, 0,
     0, 49, 65, 0, 0, 0, 0, 31, 52, 16, 34, 10, 0, 0, 0, 0,
     0, 0, 0, 11, 72, 79, 0, 8, 0, 104, 98, 0, 107, 0, 87, 0,
     75, 51, 0, 27, 37, 73, 83, 0, 35, 68, 0, 0]"

definition aKWLen :: "nat list" where
  "aKWLen =
    [7, 7, 5, 4, 6, 4, 5, 3, 6, 7, 3, 6, 6, 7, 7, 3,
     8, 2, 6, 5, 4, 4, 3, 10, 4, 6, 11, 6, 2, 7, 5, 5,
     9, 6, 9, 9, 7, 10, 10, 4, 6, 2, 3, 9, 4, 2, 6, 5,
     7, 4, 5, 7, 6, 6, 5, 6, 5, 5, 9, 7, 7, 3, 2, 4,
     4, 7, 3, 6, 4, 7, 6, 12, 6, 9, 4, 6, 5, 4, 7, 6,
     5, 6, 7, 5, 4, 5, 6, 5, 7, 3, 7, 13, 2, 2, 4, 6,
     6, 8, 5, 17, 12, 7, 8, 8, 2, 4, 4, 4, 4, 4, 2, 2,
     6, 5, 8, 5, 8, 3, 5, 5, 6, 4, 9, 3]"

definition aKWOffset :: "nat list" where
  "aKWOffset =
    [0, 2, 2, 8, 9, 14, 16, 20, 23, 25, 25, 29, 33, 36, 41, 46,
     48, 53, 54, 59, 62, 65, 67, 69, 78, 81, 86, 91, 95, 96, 101, 105,
     109, 117, 122, 128, 136, 142, 152, 159, 162, 162, 165, 167, 167, 171, 176, 179,
     184, 184, 188, 192, 199, 204, 209, 212, 218, 221, 225, 234, 240, 240, 240, 243,
     246, 250, 251, 255, 261, 265, 272, 278, 290, 296, 305, 307, 313, 318, 320, 327,
     332, 337, 343, 349, 354, 358, 361, 367, 371, 378, 380, 387, 389, 391, 400, 404,
     410, 416, 424, 429, 429, 445, 452, 459, 460, 467, 471, 475, 479, 483, 486, 488,
     490, 496, 500, 508, 513, 521, 524, 529, 534, 540, 544, 549]"

definition aKWCode :: "nat list" where
  "aKWCode =
    [80, 96, 140, 39, 58, 41, 104, 66, 33, 113, 61, 62, 47, 2, 64, 142,
     38, 24, 119, 16, 98, 138, 11, 112, 139, 117, 6, 28, 107, 98, 141, 70,
     9, 20, 13, 118, 75, 105, 99, 131, 68, 67, 111, 21, 21, 43, 103, 3,
     25, 79, 98, 14, 32, 128, 127, 110, 5, 98, 71, 48, 51, 19, 65, 101,
     47, 35, 31, 109, 136, 94, 17, 82, 40, 8, 124, 108, 46, 4, 30, 69,
     27, 120, 78, 129, 137, 130, 81, 29, 72, 44, 100, 106, 15, 49, 36, 60,
     10, 37, 98, 82, 82, 102, 7, 121, 45, 114, 42, 123, 98, 47, 34, 18,
     50, 126, 73, 98, 12, 74, 115, 125, 76, 77, 63, 116]"

abbreviation (input) TK_SEMI :: nat where "TK_SEMI \<equiv> 1"
abbreviation (input) TK_LP :: nat where "TK_LP \<equiv> 22"
abbreviation (input) TK_RP :: nat where "TK_RP \<equiv> 23"
abbreviation (input) TK_COMMA :: nat where "TK_COMMA \<equiv> 26"
abbreviation (input) TK_NE :: nat where "TK_NE \<equiv> 52"
abbreviation (input) TK_EQ :: nat where "TK_EQ \<equiv> 53"
abbreviation (input) TK_GT :: nat where "TK_GT \<equiv> 54"
abbreviation (input) TK_LE :: nat where "TK_LE \<equiv> 55"
abbreviation (input) TK_LT :: nat where "TK_LT \<equiv> 56"
abbreviation (input) TK_GE :: nat where "TK_GE \<equiv> 57"
abbreviation (input) TK_ID :: nat where "TK_ID \<equiv> 59"
abbreviation (input) TK_BITAND :: nat where "TK_BITAND \<equiv> 84"
abbreviation (input) TK_BITOR :: nat where "TK_BITOR \<equiv> 85"
abbreviation (input) TK_LSHIFT :: nat where "TK_LSHIFT \<equiv> 86"
abbreviation (input) TK_RSHIFT :: nat where "TK_RSHIFT \<equiv> 87"
abbreviation (input) TK_PLUS :: nat where "TK_PLUS \<equiv> 88"
abbreviation (input) TK_MINUS :: nat where "TK_MINUS \<equiv> 89"
abbreviation (input) TK_STAR :: nat where "TK_STAR \<equiv> 90"
abbreviation (input) TK_SLASH :: nat where "TK_SLASH \<equiv> 91"
abbreviation (input) TK_REM :: nat where "TK_REM \<equiv> 92"
abbreviation (input) TK_CONCAT :: nat where "TK_CONCAT \<equiv> 93"
abbreviation (input) TK_BITNOT :: nat where "TK_BITNOT \<equiv> 95"
abbreviation (input) TK_STRING :: nat where "TK_STRING \<equiv> 97"
abbreviation (input) TK_DOT :: nat where "TK_DOT \<equiv> 122"
abbreviation (input) TK_FLOAT :: nat where "TK_FLOAT \<equiv> 132"
abbreviation (input) TK_BLOB :: nat where "TK_BLOB \<equiv> 133"
abbreviation (input) TK_INTEGER :: nat where "TK_INTEGER \<equiv> 134"
abbreviation (input) TK_VARIABLE :: nat where "TK_VARIABLE \<equiv> 135"
abbreviation (input) TK_SPACE :: nat where "TK_SPACE \<equiv> 160"
abbreviation (input) TK_ILLEGAL :: nat where "TK_ILLEGAL \<equiv> 161"

definition charMap :: "u8 \<Rightarrow> u8" where
  "charMap c = sqlite3UpperToLower ! unat c"

text \<open>A letter in upper case, as the comparison with a keyword makes it.\<close>

definition kw_upper :: "u8 \<Rightarrow> u8" where
  "kw_upper c = c AND NOT 0x20"

text \<open>The comparison of \<open>n\<close> characters with a keyword, without regard to case.\<close>

fun kw_same :: "u8 list \<Rightarrow> u8 list \<Rightarrow> nat \<Rightarrow> bool option" where
  "kw_same z w 0 = Some True"
| "kw_same (a # z) (b # w) (Suc n) = (if kw_upper a = b then kw_same z w n else Some False)"
| "kw_same z w (Suc n) = None"

text \<open>The chain of keywords that starts at the entry \<open>k\<close> of the hash table; 0 ends it.\<close>

lemma aKWNext_less: "k \<noteq> 0 \<Longrightarrow> rda aKWNext (k - 1) = Some m \<Longrightarrow> m < k"
proof -
  assume "k \<noteq> 0" "rda aKWNext (k - 1) = Some m"
  then have "k - 1 < length aKWNext" "m = aKWNext ! (k - 1)" by (simp_all add: rda_eq_Some)
  moreover have "length aKWNext = 124" by (simp add: aKWNext_def)
  moreover have "\<forall>i\<in>set [0..<124]. aKWNext ! i \<le> i" by code_simp
  ultimately have "m \<le> k - 1" by (simp del: upt_rec_numeral)
  then show ?thesis using \<open>k \<noteq> 0\<close> by simp
qed

function kw_loop :: "nat \<Rightarrow> u8 list \<Rightarrow> nat \<Rightarrow> nat option" where
  "kw_loop k z n =
     (if k = 0 then Some TK_ID
      else do {
        len \<leftarrow> rda aKWLen (k - 1);
        off \<leftarrow> rda aKWOffset (k - 1);
        same \<leftarrow> (if len \<noteq> n then Some False else kw_same z (drop off zKWText) n);
        if same then rda aKWCode (k - 1)
        else do { m \<leftarrow> rda aKWNext (k - 1); kw_loop m z n }
      })"
  by pat_completeness auto
termination
  by (relation "measure (\<lambda>(k, z, n). k)") (auto dest: aKWNext_less [unfolded One_nat_def neq0_conv])

declare kw_loop.simps [simp del]

definition keywordCode :: "u8 list \<Rightarrow> nat \<Rightarrow> nat option" where
  "keywordCode z n =
     (if n \<ge> 2 then do {
        a \<leftarrow> rd8 z 0;
        b \<leftarrow> rd8 z (n - 1);
        k \<leftarrow> rda aKWHash (nat ((((uint (charMap a) * 4) XOR (uint (charMap b) * 3)) XOR int n) mod 127));
        kw_loop k z n
      }
      else Some TK_ID)"

definition sqlite3KeywordCode :: "u8 list \<Rightarrow> nat \<Rightarrow> nat option" where
  "sqlite3KeywordCode z n = keywordCode z n"

section \<open>The keywords of SQL\<close>

definition sql_keywords :: "(string \<times> nat) list" where
  "sql_keywords =
    [(''REINDEX'', 80), (''INDEXED'', 96), (''INDEX'', 140), (''DESC'', 39), (''ESCAPE'', 58),
     (''EACH'', 41), (''CHECK'', 104), (''KEY'', 66), (''BEFORE'', 33), (''FOREIGN'', 113),
     (''FOR'', 61), (''IGNORE'', 62), (''REGEXP'', 47), (''EXPLAIN'', 2), (''INSTEAD'', 64),
     (''ADD'', 142), (''DATABASE'', 38), (''AS'', 24), (''SELECT'', 119), (''TABLE'', 16),
     (''LEFT'', 98), (''THEN'', 138), (''END'', 11), (''DEFERRABLE'', 112), (''ELSE'', 139),
     (''EXCEPT'', 117), (''TRANSACTION'', 6), (''ACTION'', 28), (''ON'', 107), (''NATURAL'', 98),
     (''ALTER'', 141), (''RAISE'', 70), (''EXCLUSIVE'', 9), (''EXISTS'', 20), (''SAVEPOINT'', 13),
     (''INTERSECT'', 118), (''TRIGGER'', 75), (''REFERENCES'', 105), (''CONSTRAINT'', 99),
     (''INTO'', 131), (''OFFSET'', 68), (''OF'', 67), (''SET'', 111), (''TEMPORARY'', 21),
     (''TEMP'', 21), (''OR'', 43), (''UNIQUE'', 103), (''QUERY'', 3), (''WITHOUT'', 25),
     (''WITH'', 79), (''OUTER'', 98), (''RELEASE'', 14), (''ATTACH'', 32), (''HAVING'', 128),
     (''GROUP'', 127), (''UPDATE'', 110), (''BEGIN'', 5), (''INNER'', 98), (''RECURSIVE'', 71),
     (''BETWEEN'', 48), (''NOTNULL'', 51), (''NOT'', 19), (''NO'', 65), (''NULL'', 101),
     (''LIKE'', 47), (''CASCADE'', 35), (''ASC'', 31), (''DELETE'', 109), (''CASE'', 136),
     (''COLLATE'', 94), (''CREATE'', 17), (''CURRENT_DATE'', 82), (''DETACH'', 40),
     (''IMMEDIATE'', 8), (''JOIN'', 124), (''INSERT'', 108), (''MATCH'', 46), (''PLAN'', 4),
     (''ANALYZE'', 30), (''PRAGMA'', 69), (''ABORT'', 27), (''VALUES'', 120), (''VIRTUAL'', 78),
     (''LIMIT'', 129), (''WHEN'', 137), (''WHERE'', 130), (''RENAME'', 81), (''AFTER'', 29),
     (''REPLACE'', 72), (''AND'', 44), (''DEFAULT'', 100), (''AUTOINCREMENT'', 106), (''TO'', 15),
     (''IN'', 49), (''CAST'', 36), (''COLUMN'', 60), (''COMMIT'', 10), (''CONFLICT'', 37),
     (''CROSS'', 98), (''CURRENT_TIMESTAMP'', 82), (''CURRENT_TIME'', 82), (''PRIMARY'', 102),
     (''DEFERRED'', 7), (''DISTINCT'', 121), (''IS'', 45), (''DROP'', 114), (''FAIL'', 42),
     (''FROM'', 123), (''FULL'', 98), (''GLOB'', 47), (''BY'', 34), (''IF'', 18), (''ISNULL'', 50),
     (''ORDER'', 126), (''RESTRICT'', 73), (''RIGHT'', 98), (''ROLLBACK'', 12), (''ROW'', 74),
     (''UNION'', 115), (''USING'', 125), (''VACUUM'', 76), (''VIEW'', 77), (''INITIALLY'', 63),
     (''ALL'', 116)]"

definition kw_text :: "nat \<Rightarrow> u8 list" where
  "kw_text i = take (aKWLen ! i) (drop (aKWOffset ! i) zKWText)"

definition upper :: "u8 list \<Rightarrow> u8 list" where
  "upper z = map kw_upper z"

fun kw_chain :: "nat \<Rightarrow> nat \<Rightarrow> nat list" where
  "kw_chain 0 k = []"
| "kw_chain (Suc f) k = (if k = 0 then [] else (k - 1) # kw_chain f (aKWNext ! (k - 1)))"

definition kw_hash :: "u8 \<Rightarrow> u8 \<Rightarrow> nat \<Rightarrow> nat" where
  "kw_hash a b n = nat ((((uint (charMap a) * 4) XOR (uint (charMap b) * 3)) XOR int n) mod 127)"

lemma length_kw: "length zKWText = 553" "length aKWHash = 127" "length aKWNext = 124" "length aKWLen = 124"
    "length aKWOffset = 124" "length aKWCode = 124"
  by (simp_all add: zKWText_def kw_letters_def aKWHash_def aKWNext_def aKWLen_def aKWOffset_def aKWCode_def)

lemma kw_bounds: "i < 124 \<Longrightarrow> aKWOffset ! i + aKWLen ! i \<le> 553 \<and> 2 \<le> aKWLen ! i"
proof -
  have "list_all2 (\<lambda>off l. off + l \<le> 553 \<and> 2 \<le> l) aKWOffset aKWLen" by code_simp
  then show "i < 124 \<Longrightarrow> ?thesis" by (simp add: list_all2_conv_all_nth length_kw)
qed

text \<open>The texts of the keywords in one pass over the letters, as their offsets do not decrease.\<close>

fun kw_pass :: "'a list \<Rightarrow> nat \<Rightarrow> nat list \<Rightarrow> nat list \<Rightarrow> 'a list list" and kw_step :: "'a list \<Rightarrow> nat \<Rightarrow> nat \<Rightarrow> nat list \<Rightarrow> nat list \<Rightarrow> 'a list list" where
  "kw_pass t pos (off # offs) (l # ls) = kw_step (drop (off - pos) t) off l offs ls"
| "kw_pass t pos offs ls = []"
| "kw_step t off l offs ls = take l t # kw_pass t off offs ls"

lemma kw_pass_eq: "sorted (pos # offs) \<Longrightarrow> kw_pass (drop pos t) pos offs ls = map (\<lambda>(off, l). take l (drop off t)) (zip offs ls)"
proof (induction offs arbitrary: pos ls)
  case (Cons off offs)
  then show ?case by (cases ls) auto
qed simp

lemma kw_pass_all: "map fst sql_keywords = kw_pass kw_letters 0 aKWOffset aKWLen"
  by code_simp

lemma kw_codes: "map snd sql_keywords = aKWCode" "successively (\<le>) aKWOffset"
  by code_simp+

lemma kw_sorted: "sorted aKWOffset"
  using kw_codes(2) by (simp add: successively_conv_sorted_wrt transp_on_le)

lemma kw_table: "i < 124 \<Longrightarrow> kw_text i = map of_char (fst (sql_keywords ! i)) \<and> aKWCode ! i = snd (sql_keywords ! i)"
proof -
  assume i: "i < 124"
  have len: "length sql_keywords = 124" by (simp add: sql_keywords_def)
  have "map fst sql_keywords = map (\<lambda>(off, l). take l (drop off kw_letters)) (zip aKWOffset aKWLen)"
    using kw_pass_all kw_pass_eq [of 0 aKWOffset kw_letters aKWLen] kw_sorted by simp
  then have "map fst sql_keywords ! i = take (aKWLen ! i) (drop (aKWOffset ! i) kw_letters)"
    using i by (simp add: length_kw)
  moreover have "map snd sql_keywords ! i = aKWCode ! i" using kw_codes by simp
  ultimately show ?thesis using i len by (simp add: kw_text_def zKWText_def take_map drop_map)
qed

lemma kw_distinct: "distinct (map fst sql_keywords)"
  by code_simp

text \<open>Each keyword is on the chain of its own hash.\<close>

definition kw_hash_upper :: "nat \<Rightarrow> nat \<Rightarrow> nat \<Rightarrow> nat" where
  "kw_hash_upper a b n = nat ((((int (a + 32) * 4) XOR (int (b + 32) * 3)) XOR int n) mod 127)"

definition kw_hashes :: "nat list" where
  "kw_hashes =
    [40, 16, 74, 62, 62, 41, 73, 69, 34, 86, 78, 14, 31, 90, 16, 44, 56, 96, 23, 123, 105, 31, 60, 54,
     64, 79, 18, 73, 117, 124, 88, 99, 51, 76, 26, 114, 2, 28, 91, 110, 103, 13, 20, 51, 5, 105, 126, 43,
     8, 97, 112, 97, 59, 20, 74, 126, 72, 120, 111, 70, 124, 104, 120, 121, 28, 37, 47, 58, 40, 37, 38, 48,
     47, 3, 103, 0, 10, 15, 45, 102, 94, 8, 28, 106, 19, 119, 98, 88, 97, 44, 76, 86, 32, 109, 85, 65,
     87, 89, 81, 78, 48, 45, 53, 69, 1, 69, 89, 92, 89, 63, 98, 21, 103, 112, 29, 18, 2, 47, 28, 101,
     26, 58, 71, 68]"

lemma kw_hashes_eq: "map (\<lambda>(w, _). kw_hash_upper (of_char (hd w)) (of_char (last w)) (length w)) sql_keywords = kw_hashes"
  by (simp add: sql_keywords_def kw_hash_upper_def kw_hashes_def)

lemma kw_chains: "list_all2 (\<lambda>i h. i \<in> set (kw_chain 124 (aKWHash ! h))) [0..<124] kw_hashes"
  by code_simp

lemma kw_same_eq: "n \<le> length z \<Longrightarrow> n \<le> length w \<Longrightarrow> kw_same z w n = Some (upper (take n z) = take n w)"
  by (induction z w n rule: kw_same.induct) (auto simp: upper_def)

definition kw_match :: "u8 list \<Rightarrow> nat \<Rightarrow> nat \<Rightarrow> bool" where
  "kw_match z n i \<longleftrightarrow> aKWLen ! i = n \<and> upper (take n z) = kw_text i"

lemma kw_loop_eq:
  "n \<le> length z \<Longrightarrow> k \<le> 124 \<Longrightarrow> k \<le> f \<Longrightarrow>
   kw_loop k z n = Some (case List.find (kw_match z n) (kw_chain f k) of None \<Rightarrow> TK_ID | Some i \<Rightarrow> aKWCode ! i)"
proof (induction f arbitrary: k)
  case 0
  then show ?case by (simp add: kw_loop.simps)
next
  case (Suc f)
  show ?case
  proof (cases "k = 0")
    case True
    then show ?thesis by (simp add: kw_loop.simps)
  next
    case k: False
    define i where "i = k - 1"
    have i: "i < 124" "k = Suc i" using Suc.prems k by (auto simp: i_def)
    have m: "aKWNext ! i < k" using aKWNext_less [OF k, of "aKWNext ! i"] i by (simp add: rda_def length_kw)
    have same: "(if aKWLen ! i \<noteq> n then Some False else kw_same z (drop (aKWOffset ! i) zKWText) n) = Some (kw_match z n i)"
      using kw_same_eq [of n z "drop (aKWOffset ! i) zKWText"] kw_bounds [OF i(1)] Suc.prems(1)
      by (auto simp: kw_match_def kw_text_def length_kw)
    have "kw_loop k z n = (if kw_match z n i then Some (aKWCode ! i) else kw_loop (aKWNext ! i) z n)"
      using i same by (subst kw_loop.simps) (simp add: rda_def length_kw)
    moreover have "kw_loop (aKWNext ! i) z n =
        Some (case List.find (kw_match z n) (kw_chain f (aKWNext ! i)) of None \<Rightarrow> TK_ID | Some i \<Rightarrow> aKWCode ! i)"
      using Suc.prems m by (intro Suc.IH) auto
    ultimately show ?thesis using i by simp
  qed
qed

lemma kw_chain_less: "k \<le> 124 \<Longrightarrow> i \<in> set (kw_chain f k) \<Longrightarrow> i < 124"
proof (induction f arbitrary: k)
  case (Suc f)
  show ?case
  proof (cases "k = 0")
    case False
    then have "aKWNext ! (k - 1) < k"
      using aKWNext_less [OF False, of "aKWNext ! (k - 1)"] Suc.prems(1) by (simp add: rda_def length_kw)
    then show ?thesis using Suc.IH [of "aKWNext ! (k - 1)"] Suc.prems False by auto
  qed (use Suc in simp)
qed simp

text \<open>A letter or an underscore in upper case, and the hash of a word from its text.\<close>

lemma letter_cases: "aiClass ! unat (c :: u8) \<le> 1 \<longleftrightarrow> 65 \<le> unat c \<and> unat c \<le> 90 \<or> unat c = 95 \<or> 97 \<le> unat c \<and> unat c \<le> 122"
proof -
  have "map (\<lambda>k. k \<le> 1) aiClass = map (\<lambda>n. 65 \<le> n \<and> n \<le> 90 \<or> n = 95 \<or> 97 \<le> n \<and> n \<le> 122) [0..<256]"
    by code_simp
  moreover have "length aiClass = 256" by (simp add: aiClass_def)
  ultimately show ?thesis
    using table_nth [of "\<lambda>k. k \<le> 1" aiClass "\<lambda>n. 65 \<le> n \<and> n \<le> 90 \<or> n = 95 \<or> 97 \<le> n \<and> n \<le> 122" c] by blast
qed

lemma upper_nat: "unat (kw_upper c) = (if odd (unat c div 32) then unat c - 32 else unat c)"
proof -
  have "map (\<lambda>n. unat ((of_nat n :: u8) AND NOT 0x20)) [0..<256] = map (\<lambda>n. if odd (n div 32) then n - 32 else n) [0..<256]"
    by code_simp
  from arg_cong [OF this, of "\<lambda>xs. xs ! unat c"] show ?thesis
    using unsigned_less [of c, where 'a = nat] by (simp add: kw_upper_def del: upt_rec_numeral)
qed

lemma charMap_nat: "unat (charMap c) = (if 65 \<le> unat c \<and> unat c \<le> 90 then unat c + 32 else unat c)"
  using UpperToLower_nat [of c] by (simp add: charMap_def UpperToLower_def)

lemma letter_upper:
  assumes "aiClass ! unat c \<le> 1"
  shows "unat (kw_upper c) = (if 97 \<le> unat c then unat c - 32 else unat c)"
proof -
  consider "65 \<le> unat c" "unat c \<le> 90" | "unat c = 95" | "97 \<le> unat c" "unat c \<le> 122" using assms letter_cases by blast
  then show ?thesis
  proof cases
    case 1
    then have "unat c div 32 = 2" by simp
    then show ?thesis using 1 by (simp add: upper_nat)
  next
    case 2
    then show ?thesis by (simp add: upper_nat)
  next
    case 3
    then have "unat c div 32 = 3" by simp
    then show ?thesis using 3 by (simp add: upper_nat)
  qed
qed

lemma charMap_upper: "aiClass ! unat c \<le> 1 \<Longrightarrow> charMap (kw_upper c) = charMap c"
  using letter_cases [of c] by (auto simp: word_unat_eq_iff charMap_nat letter_upper)

lemma unat_of_char: "unat (of_char c :: u8) = of_char c"
proof -
  have "unat (of_nat (of_char c) :: u8) = of_char c" using nat_of_char_less_256 [of c] by (simp add: unat_of_nat del: of_nat_of_char)
  then show ?thesis by (simp only: of_nat_of_char)
qed

lemma inj_bytes: "inj (map of_char :: string \<Rightarrow> u8 list)"
proof (rule inj_mapI, rule injI)
  fix c d :: char
  assume "(of_char c :: u8) = of_char d"
  then have "(of_char c :: nat) = of_char d" by (metis unat_of_char)
  then show "c = d" by simp
qed

lemma kw_hash_upper_eq:
  assumes "65 \<le> unat a" "unat a \<le> 90" "65 \<le> unat b" "unat b \<le> 90"
  shows "kw_hash a b n = kw_hash_upper (unat a) (unat b) n"
proof -
  have "uint (charMap a) = int (unat a + 32)" "uint (charMap b) = int (unat b + 32)"
    using assms by (simp_all only: uint_nat charMap_nat) simp_all
  then show ?thesis unfolding kw_hash_def kw_hash_upper_def by (simp only:)
qed

lemma kw_letters_ends: "list_all (\<lambda>(w, _). of_char (hd w) \<in> {65..90 :: nat} \<and> of_char (last w) \<in> {65..90 :: nat} \<and> w \<noteq> []) sql_keywords"
  by code_simp

lemma kw_hash_ends: "\<forall>k\<in>set aKWHash. k \<le> 124"
  by code_simp

lemma length_sql_keywords: "length sql_keywords = 124"
  by (simp add: sql_keywords_def)

lemma kw_in_chain:
  assumes "i < 124"
  shows "i \<in> set (kw_chain 124 (aKWHash ! kw_hash (hd (kw_text i)) (last (kw_text i)) (length (kw_text i))))"
proof -
  obtain w c where w: "sql_keywords ! i = (w, c)" by (cases "sql_keywords ! i")
  have ends: "of_char (hd w) \<in> {65..90 :: nat}" "of_char (last w) \<in> {65..90 :: nat}" "w \<noteq> []"
    using kw_letters_ends assms w by (auto simp: list_all_length length_sql_keywords)
  have t: "kw_text i = map of_char w" using kw_table [OF assms] w by simp
  have "kw_hashes ! i = kw_hash_upper (of_char (hd w)) (of_char (last w)) (length w)"
    using arg_cong [OF kw_hashes_eq, of "\<lambda>xs. xs ! i"] assms w by (simp add: length_sql_keywords)
  moreover have "i \<in> set (kw_chain 124 (aKWHash ! (kw_hashes ! i)))"
    using kw_chains assms by (auto simp: list_all2_conv_all_nth)
  moreover have "kw_hash (hd (kw_text i)) (last (kw_text i)) (length (kw_text i)) = kw_hash_upper (of_char (hd w)) (of_char (last w)) (length w)"
    using ends t kw_hash_upper_eq [of "of_char (hd w)" "of_char (last w)" "length w"] by (simp add: unat_of_char hd_map last_map)
  ultimately show ?thesis by simp
qed

lemma KeywordCode_lemma:
  assumes "n \<le> length z" and "\<forall>c\<in>set (take n z). aiClass ! unat c \<le> 1"
  shows "sqlite3KeywordCode z n =
    Some (case map_of (map (\<lambda>(w, c). (map of_char w, c)) sql_keywords) (map kw_upper (take n z)) of None \<Rightarrow> TK_ID | Some c \<Rightarrow> c)"
proof -
  let ?m = "map_of (map (\<lambda>(w, c). (map of_char w :: u8 list, c)) sql_keywords)" and ?u = "map kw_upper (take n z)"
  have m_Some: "?m ?u = Some (aKWCode ! i)" if "i < 124" "?u = kw_text i" for i
  proof -
    have "distinct (map fst (map (\<lambda>(w, c). (map of_char w :: u8 list, c)) sql_keywords))"
      using kw_distinct distinct_map [of "map of_char :: string \<Rightarrow> u8 list" "map fst sql_keywords"] inj_on_subset [OF inj_bytes]
      by (simp add: comp_def case_prod_unfold)
    moreover have "(?u, aKWCode ! i) \<in> set (map (\<lambda>(w, c). (map of_char w :: u8 list, c)) sql_keywords)"
      using kw_table [OF that(1)] that by (auto simp: in_set_conv_nth length_sql_keywords case_prod_unfold intro!: exI [of _ i])
    ultimately show ?thesis by simp
  qed
  have m_None: "\<exists>i<124. ?u = kw_text i" if some: "?m ?u \<noteq> None"
  proof -
    obtain c where "(?u, c) \<in> set (map (\<lambda>(w, c). (map of_char w :: u8 list, c)) sql_keywords)"
      using some map_of_SomeD by fastforce
    then obtain i where "i < 124" "?u = map of_char (fst (sql_keywords ! i))"
      by (auto simp: in_set_conv_nth length_sql_keywords)
    then show ?thesis using kw_table by auto
  qed
  have len: "length (kw_text i) = aKWLen ! i" if "i < 124" for i
    using kw_bounds [OF that] by (auto simp: kw_text_def length_kw)
  show ?thesis
  proof (cases "2 \<le> n")
    case False
    have "?m ?u = None"
    proof (rule ccontr)
      assume "?m ?u \<noteq> None"
      then obtain i where "i < 124" "?u = kw_text i" using m_None by blast
      then show False using len [of i] kw_bounds [of i] False assms(1) by (metis length_map length_take min.absorb2)
    qed
    then show ?thesis using False by (simp add: sqlite3KeywordCode_def keywordCode_def)
  next
    case n: True
    let ?h = "kw_hash (z ! 0) (z ! (n - 1)) n"
    have h: "?h < 127" "aKWHash ! ?h \<le> 124"
    proof -
      show "?h < 127" by (simp add: kw_hash_def)
      then show "aKWHash ! ?h \<le> 124" using kw_hash_ends by (simp add: length_kw)
    qed
    have zn: "z \<noteq> []" "n - Suc 0 < length z" using n assms(1) by auto
    have code: "sqlite3KeywordCode z n =
        Some (case List.find (kw_match z n) (kw_chain 124 (aKWHash ! ?h)) of None \<Rightarrow> TK_ID | Some i \<Rightarrow> aKWCode ! i)"
      using n assms(1) h zn kw_loop_eq [OF assms(1) h(2), of 124]
      by (simp add: sqlite3KeywordCode_def keywordCode_def rd8_def rda_def length_kw flip: kw_hash_def)
    show ?thesis
    proof (cases "List.find (kw_match z n) (kw_chain 124 (aKWHash ! ?h))")
      case (Some i)
      then have "kw_match z n i" "i < 124" using kw_chain_less [OF h(2)] by (auto simp: find_Some_iff) (metis nth_mem)
      then show ?thesis using code Some m_Some [of i] by (simp add: kw_match_def upper_def)
    next
      case None
      have "?m ?u = None"
      proof (rule ccontr)
        assume "?m ?u \<noteq> None"
        then obtain i where i: "i < 124" "?u = kw_text i" using m_None by blast
        have u: "length ?u = n" "hd ?u = kw_upper (z ! 0)" "last ?u = kw_upper (z ! (n - 1))"
          using n assms(1) zn by (simp_all add: hd_map last_map hd_conv_nth last_conv_nth min_def)
        have "aiClass ! unat (z ! 0) \<le> 1" "aiClass ! unat (z ! (n - 1)) \<le> 1"
          using assms(2) n zn by (auto simp: all_set_conv_all_nth)
        then have "kw_hash (hd ?u) (last ?u) n = ?h" unfolding u kw_hash_def by (simp only: charMap_upper)
        then have "i \<in> set (kw_chain 124 (aKWHash ! ?h))" using kw_in_chain [OF i(1)] i(2) u(1) by metis
        moreover have "kw_match z n i" using i len u(1) by (simp add: kw_match_def upper_def)
        ultimately show False using None by (auto simp: find_None_iff)
      qed
      then show ?thesis using code None by simp
    qed
  qed
qed

section \<open>Properties\<close>

text \<open>
  Property C22. A word of letters and underscores is a keyword exactly if it is in the list of
  the keywords of SQL without regard to case, and then it has that keyword's code: the packed
  text, the hash and its chains find every keyword and nothing else.
\<close>

theorem KeywordCode_correct:
  assumes "n \<le> length z" and "\<forall>c\<in>set (take n z). aiClass ! unat c \<le> 1"
  shows "sqlite3KeywordCode z n =
    Some (case map_of (map (\<lambda>(w, c). (map of_char w, c)) sql_keywords) (map kw_upper (take n z)) of None \<Rightarrow> TK_ID | Some c \<Rightarrow> c)"
  using assms by (rule KeywordCode_lemma)

theorem KeywordCode_correct_witness:
  "sqlite3KeywordCode (map of_char ''SeLect * '') 6 = Some 119 \<and> sqlite3KeywordCode (map of_char ''selects'') 7 = Some TK_ID"
proof -
  have "map_of (map (\<lambda>(w, c). (map of_char w, c)) sql_keywords) (map kw_upper (take 6 (map of_char ''SeLect * ''))) = Some 119"
    "map_of (map (\<lambda>(w, c). (map of_char w, c)) sql_keywords) (map kw_upper (take 7 (map of_char ''selects''))) = None"
    by code_simp+
  moreover have "\<forall>c\<in>set (take 6 (map of_char ''SeLect * '')). aiClass ! unat (c :: u8) \<le> 1"
    "\<forall>c\<in>set (take 7 (map of_char ''selects'')). aiClass ! unat (c :: u8) \<le> 1"
    by code_simp+
  ultimately show ?thesis
    using KeywordCode_correct [of 6 "map of_char ''SeLect * ''"] KeywordCode_correct [of 7 "map of_char ''selects''"] by simp
qed

end
