(* ===== verification/Tokenizer.thy ===== *)
theory Tokenizer
  imports Keywords
begin

text \<open>
  The tokenizer of tokenize.c and the loop of \<open>sqlite3RunParser\<close>. A text is a buffer whose last
  byte is its end, so that a read after the end is \<open>None\<close>; \<open>nul z N\<close> says that \<open>z\<close> is such a
  buffer with \<open>N\<close> characters. \<open>GetToken_ok\<close> bounds every token; the interface \<open>lexer\<close> asks just that of a
  lexer and gives that its tokens make up the text. The parser is a parameter.
\<close>

section \<open>Tokens\<close>

text \<open>The characters that the tokenizer tests for.\<close>

abbreviation (input) c_TAB :: u8 where "c_TAB \<equiv> 9"
abbreviation (input) c_NL :: u8 where "c_NL \<equiv> 10"
abbreviation (input) c_FF :: u8 where "c_FF \<equiv> 12"
abbreviation (input) c_CR :: u8 where "c_CR \<equiv> 13"
abbreviation (input) c_SPACE :: u8 where "c_SPACE \<equiv> 32"
abbreviation (input) c_DQUOTE :: u8 where "c_DQUOTE \<equiv> 34"
abbreviation (input) c_QUOTE :: u8 where "c_QUOTE \<equiv> 39"
abbreviation (input) c_LP :: u8 where "c_LP \<equiv> 40"
abbreviation (input) c_RP :: u8 where "c_RP \<equiv> 41"
abbreviation (input) c_STAR :: u8 where "c_STAR \<equiv> 42"
abbreviation (input) c_PLUS :: u8 where "c_PLUS \<equiv> 43"
abbreviation (input) c_MINUS :: u8 where "c_MINUS \<equiv> 45"
abbreviation (input) c_DOT :: u8 where "c_DOT \<equiv> 46"
abbreviation (input) c_SLASH :: u8 where "c_SLASH \<equiv> 47"
abbreviation (input) c_0 :: u8 where "c_0 \<equiv> 48"
abbreviation (input) c_COLON :: u8 where "c_COLON \<equiv> 58"
abbreviation (input) c_SEMI :: u8 where "c_SEMI \<equiv> 59"
abbreviation (input) c_LT :: u8 where "c_LT \<equiv> 60"
abbreviation (input) c_EQ :: u8 where "c_EQ \<equiv> 61"
abbreviation (input) c_GT :: u8 where "c_GT \<equiv> 62"
abbreviation (input) c_E :: u8 where "c_E \<equiv> 69"
abbreviation (input) c_X :: u8 where "c_X \<equiv> 88"
abbreviation (input) c_LBRACKET :: u8 where "c_LBRACKET \<equiv> 91"
abbreviation (input) c_RBRACKET :: u8 where "c_RBRACKET \<equiv> 93"
abbreviation (input) c_GRAVE :: u8 where "c_GRAVE \<equiv> 96"
abbreviation (input) c_e :: u8 where "c_e \<equiv> 101"
abbreviation (input) c_x :: u8 where "c_x \<equiv> 120"
abbreviation (input) c_BAR :: u8 where "c_BAR \<equiv> 124"

text \<open>
  \<open>scan P z i\<close> is the loop \<open>for(; P(z[i]); i++)\<close>; \<open>None\<close> is a read past the end of the buffer.
\<close>

fun run_while :: "(u8 \<Rightarrow> bool) \<Rightarrow> u8 list \<Rightarrow> nat option" where
  "run_while P [] = None"
| "run_while P (c # z) = (if P c then map_option Suc (run_while P z) else Some 0)"

definition scan :: "(u8 \<Rightarrow> bool) \<Rightarrow> u8 list \<Rightarrow> nat \<Rightarrow> nat option" where
  "scan P z i = map_option ((+) i) (run_while P (drop i z))"

text \<open>A C-style comment, from \<open>z[i]\<close> on, after the character \<open>c\<close>.\<close>

fun comment_loop :: "u8 \<Rightarrow> u8 list \<Rightarrow> nat \<Rightarrow> (nat \<times> u8) option" where
  "comment_loop c [] i = None"
| "comment_loop c (d # z) i =
     (if c = c_STAR \<and> d = c_SLASH then Some (i, c)
      else if d = 0 then Some (i, d)
      else comment_loop d z (i + 1))"

text \<open>A quoted text, from \<open>z[i]\<close> on, in which the doubled delimiter stands for one.\<close>

fun quote_loop :: "u8 \<Rightarrow> u8 list \<Rightarrow> nat \<Rightarrow> (nat \<times> u8) option" where
  "quote_loop delim [] i = None"
| "quote_loop delim (c # z) i =
     (if c = 0 then Some (i, c)
      else if c = delim then
        (case z of [] \<Rightarrow> None
         | d # z' \<Rightarrow> if d = delim then quote_loop delim z' (i + 2) else Some (i, c))
      else quote_loop delim z (i + 1))"

text \<open>An SQL variable, from \<open>z[i]\<close> on, with \<open>n\<close> identifier characters so far.\<close>

function var_loop :: "u8 list \<Rightarrow> nat \<Rightarrow> nat \<Rightarrow> (nat \<times> nat \<times> nat) option" where
  "var_loop z i n = do {
     c \<leftarrow> rd8 z i;
     if c = 0 then Some (i, n, TK_VARIABLE)
     else if IdChar c then var_loop z (i + 1) (n + 1)
     else if c = c_LP \<and> n > 0 then do {
       j \<leftarrow> scan (\<lambda>c. c \<noteq> 0 \<and> \<not> sqlite3Isspace c \<and> c \<noteq> c_RP) z (i + 1);
       c \<leftarrow> rd8 z j;
       if c = c_RP then Some (j + 1, n, TK_VARIABLE) else Some (j, n, TK_ILLEGAL)
     }
     else if c = c_COLON then do {
       d \<leftarrow> rd8 z (i + 1);
       if d = c_COLON then var_loop z (i + 2) n else Some (i, n, TK_VARIABLE)
     }
     else Some (i, n, TK_VARIABLE)
   }"
  by pat_completeness auto
termination
  by (relation "measure (\<lambda>(z, i, n). length z - i)") (auto simp: rd8_def split: if_splits)

declare var_loop.simps [simp del]

text \<open>The fraction and the exponent of a number whose digits end at \<open>i\<close>, and what follows it.\<close>

definition exponent_at :: "u8 list \<Rightarrow> nat \<Rightarrow> bool option" where
  "exponent_at z i = do {
     c \<leftarrow> rd8 z i;
     if c = c_e \<or> c = c_E then do {
       d \<leftarrow> rd8 z (i + 1);
       if sqlite3Isdigit d then Some True
       else if d = c_PLUS \<or> d = c_MINUS then map_option sqlite3Isdigit (rd8 z (i + 2))
       else Some False
     }
     else Some False
   }"

definition number_token :: "u8 list \<Rightarrow> (nat \<times> nat) option" where
  "number_token z = do {
     i \<leftarrow> scan sqlite3Isdigit z 0;
     c \<leftarrow> rd8 z i;
     (i, t) \<leftarrow> (if c = c_DOT then map_option (\<lambda>i. (i, TK_FLOAT)) (scan sqlite3Isdigit z (i + 1)) else Some (i, TK_INTEGER));
     e \<leftarrow> exponent_at z i;
     (i, t) \<leftarrow> (if e then map_option (\<lambda>i. (i, TK_FLOAT)) (scan sqlite3Isdigit z (i + 2)) else Some (i, t));
     j \<leftarrow> scan IdChar z i;
     Some (j, if j > i then TK_ILLEGAL else t)
   }"

definition digit_token :: "u8 list \<Rightarrow> (nat \<times> nat) option" where
  "digit_token z = do {
     c \<leftarrow> rd8 z 0;
     hex \<leftarrow> (if c = c_0 then do {
         d \<leftarrow> rd8 z 1;
         if d = c_x \<or> d = c_X then map_option sqlite3Isxdigit (rd8 z 2) else Some False
       }
       else Some False);
     if hex then map_option (\<lambda>i. (i, TK_INTEGER)) (scan sqlite3Isxdigit z 3)
     else number_token z
   }"

text \<open>A blob literal \<open>x'...'\<close>.\<close>

definition blob_token :: "u8 list \<Rightarrow> (nat \<times> nat) option" where
  "blob_token z = do {
     i \<leftarrow> scan sqlite3Isxdigit z 2;
     c \<leftarrow> rd8 z i;
     (i, t) \<leftarrow> (if c \<noteq> c_QUOTE \<or> odd i
       then map_option (\<lambda>i. (i, TK_ILLEGAL)) (scan (\<lambda>c. c \<noteq> 0 \<and> c \<noteq> c_QUOTE) z i)
       else Some (i, TK_BLOB));
     c \<leftarrow> rd8 z i;
     Some (if c \<noteq> 0 then i + 1 else i, t)
   }"

definition id_token :: "u8 list \<Rightarrow> nat \<Rightarrow> (nat \<times> nat) option" where
  "id_token z i = map_option (\<lambda>i. (i, TK_ID)) (scan IdChar z i)"

definition sqlite3GetToken :: "u8 list \<Rightarrow> (nat \<times> nat) option" where
  "sqlite3GetToken z = do {
     c0 \<leftarrow> rd8 z 0;
     let cc = aiClass ! unat c0;
     if cc = 7 then map_option (\<lambda>i. (i, TK_SPACE)) (scan sqlite3Isspace z 1)
     else if cc = 11 then do {
       c \<leftarrow> rd8 z 1;
       if c = c_MINUS then map_option (\<lambda>i. (i, TK_SPACE)) (scan (\<lambda>c. c \<noteq> 0 \<and> c \<noteq> c_NL) z 2)
       else Some (1, TK_MINUS)
     }
     else if cc = 17 then Some (1, TK_LP)
     else if cc = 18 then Some (1, TK_RP)
     else if cc = 19 then Some (1, TK_SEMI)
     else if cc = 20 then Some (1, TK_PLUS)
     else if cc = 21 then Some (1, TK_STAR)
     else if cc = 16 then do {
       c \<leftarrow> rd8 z 1;
       if c \<noteq> c_STAR then Some (1, TK_SLASH)
       else do {
         d \<leftarrow> rd8 z 2;
         if d = 0 then Some (1, TK_SLASH)
         else do {
           (i, c) \<leftarrow> comment_loop d (drop 3 z) 3;
           Some (if c \<noteq> 0 then i + 1 else i, TK_SPACE)
         }
       }
     }
     else if cc = 22 then Some (1, TK_REM)
     else if cc = 14 then map_option (\<lambda>c. (if c = c_EQ then 2 else 1, TK_EQ)) (rd8 z 1)
     else if cc = 12 then map_option (\<lambda>c.
       if c = c_EQ then (2, TK_LE) else if c = c_GT then (2, TK_NE)
       else if c = c_LT then (2, TK_LSHIFT) else (1, TK_LT)) (rd8 z 1)
     else if cc = 13 then map_option (\<lambda>c.
       if c = c_EQ then (2, TK_GE) else if c = c_GT then (2, TK_RSHIFT) else (1, TK_GT)) (rd8 z 1)
     else if cc = 15 then map_option (\<lambda>c. if c \<noteq> c_EQ then (1, TK_ILLEGAL) else (2, TK_NE)) (rd8 z 1)
     else if cc = 10 then map_option (\<lambda>c. if c \<noteq> c_BAR then (1, TK_BITOR) else (2, TK_CONCAT)) (rd8 z 1)
     else if cc = 23 then Some (1, TK_COMMA)
     else if cc = 24 then Some (1, TK_BITAND)
     else if cc = 25 then Some (1, TK_BITNOT)
     else if cc = 8 then map_option (\<lambda>(i, c).
       if c = c_QUOTE then (i + 1, TK_STRING) else if c \<noteq> 0 then (i + 1, TK_ID) else (i, TK_ILLEGAL))
       (quote_loop c0 (drop 1 z) 1)
     else if cc = 26 then do {
       c \<leftarrow> rd8 z 1;
       if \<not> sqlite3Isdigit c then Some (1, TK_DOT) else digit_token z
     }
     else if cc = 3 then digit_token z
     else if cc = 9 then do {
       i \<leftarrow> scan (\<lambda>c. c \<noteq> 0 \<and> c \<noteq> c_RBRACKET) z 1;
       c \<leftarrow> rd8 z i;
       Some (if c = c_RBRACKET then (i + 1, TK_ID) else (i, TK_ILLEGAL))
     }
     else if cc = 6 then map_option (\<lambda>i. (i, TK_VARIABLE)) (scan sqlite3Isdigit z 1)
     else if cc = 4 \<or> cc = 5 then do {
       (i, n, t) \<leftarrow> var_loop z 1 0;
       Some (i, if n = 0 then TK_ILLEGAL else t)
     }
     else if cc = 1 then do {
       i \<leftarrow> scan (\<lambda>c. aiClass ! unat c \<le> 1) z 1;
       c \<leftarrow> rd8 z i;
       if IdChar c then id_token z (i + 1)
       else map_option (\<lambda>t. (i, t)) (sqlite3KeywordCode z i)
     }
     else if cc = 0 then do {
       c \<leftarrow> rd8 z 1;
       if c = c_QUOTE then blob_token z else id_token z 1
     }
     else if cc = 2 then id_token z 1
     else Some (1, TK_ILLEGAL)
   }"

section \<open>Every token is within its text\<close>

lemma run_while_ok: "\<not> P 0 \<Longrightarrow> nul z N \<Longrightarrow> \<exists>k\<le>N. run_while P z = Some k"
proof (induction z arbitrary: N)
  case (Cons c z)
  show ?case
  proof (cases "P c")
    case True
    then have "c \<noteq> 0" using Cons.prems(1) by metis
    then have "N \<noteq> 0" using Cons.prems(2) by (auto simp: nul_def)
    then have "nul z (N - 1)" using nul_drop [OF Cons.prems(2), of 1] by simp
    from Cons.IH [OF Cons.prems(1) this] show ?thesis using True \<open>N \<noteq> 0\<close> by auto
  qed simp
qed (simp add: nul_def)

lemma scan_ok:
  assumes "nul z N" "i \<le> N" "\<not> P 0"
  obtains j where "scan P z i = Some j" "i \<le> j" "j \<le> N"
  using run_while_ok [where P = P, OF assms(3) nul_drop [OF assms(1,2)]] assms(2) by (auto simp: scan_def)

lemma not_at_end: "\<not> sqlite3Isspace 0" "\<not> sqlite3Isdigit 0" "\<not> sqlite3Isxdigit 0" "\<not> IdChar 0" "aiClass ! 0 = 27"
  by (simp_all add: Isspace_nat Isdigit_nat Isxdigit_nat) (code_simp, code_simp)

lemma comment_ok:
  "nul z M \<Longrightarrow> \<exists>k c. comment_loop d z i = Some (i + k, c) \<and> k \<le> M \<and> (c \<noteq> 0 \<longrightarrow> k < M)"
proof (induction z arbitrary: d i M)
  case (Cons e z)
  show ?case
  proof (cases "e = 0")
    case True
    then show ?thesis by auto
  next
    case e: False
    then have M: "M \<noteq> 0" using Cons.prems by (auto simp: nul_def)
    then have "nul z (M - 1)" using nul_drop [OF Cons.prems, of 1] by simp
    from Cons.IH [OF this, of e "i + 1"] obtain k c where
      "comment_loop e z (i + 1) = Some (i + 1 + k, c)" "k \<le> M - 1" "c \<noteq> 0 \<longrightarrow> k < M - 1" by auto
    then show ?thesis using e M by (auto intro!: exI [of _ "k + 1"])
  qed
qed (simp add: nul_def)

lemma quote_ok: "delim \<noteq> 0 \<Longrightarrow> nul z M \<Longrightarrow> \<exists>k c. quote_loop delim z i = Some (i + k, c) \<and> k \<le> M \<and> (c \<noteq> 0 \<longrightarrow> k < M)"
proof (induction delim z i arbitrary: M rule: quote_loop.induct)
  case (2 delim c z i)
  show ?case
  proof (cases "c = 0")
    case c: False
    then have M: "M \<noteq> 0" using 2 by (auto simp: nul_def)
    then have z: "nul z (M - 1)" using nul_drop [OF 2(4), of 1] by simp
    then obtain d z' where d: "z = d # z'" by (cases z) (auto simp: nul_def)
    show ?thesis
    proof (cases "c = delim")
      case True
      show ?thesis
      proof (cases "d = delim")
        case dd: True
        then have "M - 1 \<noteq> 0" using z d 2(3) by (auto simp: nul_def)
        then have "nul z' (M - 2)" using nul_drop [OF z, of 1] d by (simp add: numeral_2_eq_2)
        from 2(1) [OF c True d dd 2(3) this] obtain k e where
          "quote_loop delim z' (i + 2) = Some (i + 2 + k, e)" "k \<le> M - 2" "e \<noteq> 0 \<longrightarrow> k < M - 2" by auto
        then show ?thesis using c True d dd \<open>M - 1 \<noteq> 0\<close> by (auto intro!: exI [of _ "k + 2"])
      qed (use c True d M in auto)
    next
      case False
      from 2(2) [OF c False 2(3) z] obtain k e where
        "quote_loop delim z (i + 1) = Some (i + 1 + k, e)" "k \<le> M - 1" "e \<noteq> 0 \<longrightarrow> k < M - 1" by auto
      then show ?thesis using c False M by (auto intro!: exI [of _ "k + 1"])
    qed
  qed auto
qed (simp add: nul_def)

definition tk_legal :: "nat \<Rightarrow> bool" where
  "tk_legal t \<longleftrightarrow> t < TK_SPACE \<and> t \<noteq> 0 \<or> t = TK_SPACE \<or> t = TK_ILLEGAL"

definition tok_ok :: "nat \<Rightarrow> nat \<Rightarrow> (nat \<times> nat) option \<Rightarrow> bool" where
  "tok_ok i N r \<longleftrightarrow> (\<exists>n t. r = Some (n, t) \<and> i \<le> n \<and> n \<le> N \<and> tk_legal t)"

lemma tok_okI: "i \<le> n \<Longrightarrow> n \<le> N \<Longrightarrow> tk_legal t \<Longrightarrow> tok_ok i N (Some (n, t))"
  by (simp add: tok_ok_def)

lemma tok_scan: "nul z N \<Longrightarrow> i \<le> N \<Longrightarrow> \<not> P 0 \<Longrightarrow> tk_legal t \<Longrightarrow> tok_ok i N (map_option (\<lambda>i. (i, t)) (scan P z i))"
  by (erule (2) scan_ok) (simp add: tok_ok_def)

lemma var_ok: "nul z N \<Longrightarrow> i \<le> N \<Longrightarrow> \<exists>j m t. var_loop z i n = Some (j, m, t) \<and> i \<le> j \<and> j \<le> N \<and> tk_legal t"
proof (induction z i n rule: var_loop.induct)
  case (1 z i n)
  note rd = nul_rd [OF 1(3,4)]
  consider "z ! i = 0" | "z ! i \<noteq> 0" "IdChar (z ! i)" | "z ! i \<noteq> 0" "\<not> IdChar (z ! i)" "z ! i = c_LP" "n > 0"
    | "z ! i \<noteq> 0" "\<not> IdChar (z ! i)" "\<not> (z ! i = c_LP \<and> n > 0)" "z ! i = c_COLON"
    | "z ! i \<noteq> 0" "\<not> IdChar (z ! i)" "\<not> (z ! i = c_LP \<and> n > 0)" "z ! i \<noteq> c_COLON" by blast
  then show ?case
  proof cases
    case 1
    then show ?thesis using rd \<open>i \<le> N\<close> by (simp add: var_loop.simps [of z i n] tk_legal_def)
  next
    case 2
    have "i + 1 \<le> N" using nul_step [OF 1(3,4)] 2(1) by simp
    from "1.IH"(1) [OF rd 2 1(3) this] show ?thesis using rd 2 by (subst var_loop.simps) auto
  next
    case 3
    have i1: "i + 1 \<le> N" using nul_step [OF 1(3,4)] 3(1) by simp
    obtain j where j: "scan (\<lambda>c. c \<noteq> 0 \<and> \<not> sqlite3Isspace c \<and> c \<noteq> c_RP) z (i + 1) = Some j" "i + 1 \<le> j" "j \<le> N"
      using scan_ok [OF 1(3) i1, of "\<lambda>c. c \<noteq> 0 \<and> \<not> sqlite3Isspace c \<and> c \<noteq> c_RP"] by auto
    have "z ! j = c_RP \<Longrightarrow> j + 1 \<le> N" using nul_step [OF 1(3) j(3)] by simp
    then show ?thesis using rd nul_rd [OF 1(3) j(3)] 3 j by (subst var_loop.simps) (auto simp: tk_legal_def)
  next
    case 4
    have i1: "i + 1 \<le> N" using nul_step [OF 1(3,4)] 4(1) by simp
    note rd1 = nul_rd [OF 1(3) i1]
    show ?thesis
    proof (cases "z ! (i + 1) = c_COLON")
      case True
      then have "i + 2 \<le> N" using nul_step [OF 1(3) i1] by simp
      from "1.IH"(2) [OF rd 4(1,2,3,4) rd1 True 1(3) this] show ?thesis using rd rd1 4 True by (subst var_loop.simps) auto
    next
      case False
      then show ?thesis using rd rd1 4 1(4) by (subst var_loop.simps) (simp add: tk_legal_def)
    qed
  next
    case 5
    then show ?thesis using rd 1(4) by (subst var_loop.simps) (auto simp: tk_legal_def)
  qed
qed

lemma legal_tokens [simp]: "tk_legal TK_INTEGER" "tk_legal TK_FLOAT" "tk_legal TK_ILLEGAL" "tk_legal TK_SPACE" "tk_legal TK_ID" "tk_legal TK_BLOB"
    "tk_legal TK_VARIABLE" "tk_legal TK_STRING"
  by (simp_all add: tk_legal_def)

lemma exponent_ok:
  assumes "nul z N" "i \<le> N"
  shows "\<exists>e. exponent_at z i = Some e \<and> (e \<longrightarrow> i + 2 \<le> N)"
proof (cases "z ! i = c_e \<or> z ! i = c_E")
  case e: True
  then have i1: "i + 1 \<le> N" using nul_step [OF assms] by auto
  note rd = nul_rd [OF assms] nul_rd [OF assms(1) i1]
  have two: "i + 2 \<le> N" if "z ! (i + 1) \<noteq> 0" using nul_step [OF assms(1) i1] that by simp
  show ?thesis
  proof (cases "sqlite3Isdigit (z ! (i + 1))")
    case True
    then have "i + 2 \<le> N" using two not_at_end by metis
    then show ?thesis using e rd True by (auto simp: exponent_at_def)
  next
    case False
    show ?thesis
    proof (cases "z ! (i + 1) = c_PLUS \<or> z ! (i + 1) = c_MINUS")
      case True
      then have "i + 2 \<le> N" using two by auto
      then show ?thesis using e rd True False nul_rd [OF assms(1), of "i + 2"] by (auto simp: exponent_at_def)
    qed (use e rd False in \<open>auto simp: exponent_at_def\<close>)
  qed
qed (use nul_rd [OF assms] in \<open>auto simp: exponent_at_def\<close>)

lemma number_ok:
  assumes z: "nul z N" and "sqlite3Isdigit (z ! 0) \<or> z ! 0 = c_DOT"
  shows "tok_ok 1 N (number_token z)"
proof -
  obtain i where i: "scan sqlite3Isdigit z 0 = Some i" "i \<le> N" using scan_ok [OF z, of 0] not_at_end by blast
  obtain i1 t1 where t1: "(if z ! i = c_DOT then map_option (\<lambda>i. (i, TK_FLOAT)) (scan sqlite3Isdigit z (i + 1)) else Some (i, TK_INTEGER)) = Some (i1, t1)"
    "i \<le> i1" "i1 \<le> N" "tk_legal t1" "z ! i = c_DOT \<Longrightarrow> i < i1"
  proof (cases "z ! i = c_DOT")
    case True
    then have "i + 1 \<le> N" using nul_step [OF z i(2)] by simp
    from scan_ok [OF z this, of sqlite3Isdigit] not_at_end obtain j where "scan sqlite3Isdigit z (i + 1) = Some j" "i + 1 \<le> j" "j \<le> N" by blast
    then show ?thesis using that [of j TK_FLOAT] True by simp
  qed (use that [of i TK_INTEGER] i in simp)
  obtain e where e: "exponent_at z i1 = Some e" "e \<longrightarrow> i1 + 2 \<le> N" using exponent_ok [OF z t1(3)] by blast
  obtain i2 t2 where t2: "(if e then map_option (\<lambda>i. (i, TK_FLOAT)) (scan sqlite3Isdigit z (i1 + 2)) else Some (i1, t1)) = Some (i2, t2)"
    "i1 \<le> i2" "i2 \<le> N" "tk_legal t2"
  proof (cases e)
    case True
    from scan_ok [OF z, of "i1 + 2" sqlite3Isdigit] not_at_end e(2) True obtain j where
      "scan sqlite3Isdigit z (i1 + 2) = Some j" "i1 + 2 \<le> j" "j \<le> N" by blast
    then show ?thesis using that [of j TK_FLOAT] True by simp
  qed (use that [of i1 t1] t1 in simp)
  obtain j where j: "scan IdChar z i2 = Some j" "i2 \<le> j" "j \<le> N" using scan_ok [OF z t2(3), of IdChar] not_at_end by blast
  have "1 \<le> i1"
  proof (cases "i = 0")
    case True
    then have "\<not> sqlite3Isdigit (z ! 0)" using i(1) z by (cases z) (auto simp: scan_def nul_def split: if_splits)
    then have "z ! i = c_DOT" using assms(2) True by simp
    then show ?thesis using t1(5) by simp
  qed (use t1(2) in simp)
  moreover have "number_token z = Some (j, if j > i2 then TK_ILLEGAL else t2)"
    unfolding number_token_def i(1) bind.bind_lunit nul_rd [OF z i(2)] t1(1) e(1) t2(1) j(1) prod.case ..
  ultimately show ?thesis using t1(2,3) t2 j by (auto simp: tok_ok_def)
qed

lemma digit_ok:
  assumes z: "nul z N" and d: "sqlite3Isdigit (z ! 0) \<or> z ! 0 = c_DOT"
  shows "tok_ok 1 N (digit_token z)"
proof -
  note rd0 = nul_rd [OF z, of 0]
  show ?thesis
  proof (cases "z ! 0 = c_0")
    case c0: True
    then have N1: "1 \<le> N" using nul_step [OF z, of 0] by simp
    note rd1 = nul_rd [OF z N1]
    show ?thesis
    proof (cases "z ! 1 = c_x \<or> z ! 1 = c_X")
      case True
      then have N2: "2 \<le> N" using nul_step [OF z N1] by auto
      note rd2 = nul_rd [OF z N2]
      show ?thesis
      proof (cases "sqlite3Isxdigit (z ! 2)")
        case x: True
        then have "3 \<le> N" using nul_step [OF z N2] not_at_end by (metis eval_nat_numeral(3) numeral_3_eq_3 numeral_2_eq_2)
        from tok_scan [OF z this, of sqlite3Isxdigit TK_INTEGER] not_at_end x True c0 rd0 rd1 rd2 show ?thesis
          by (auto simp: digit_token_def tok_ok_def)
      qed (use number_ok [OF assms] True c0 rd0 rd1 rd2 in \<open>simp add: digit_token_def\<close>)
    qed (use number_ok [OF assms] c0 rd0 rd1 in \<open>simp add: digit_token_def\<close>)
  qed (use number_ok [OF assms] rd0 in \<open>simp add: digit_token_def\<close>)
qed

lemma blob_ok:
  assumes z: "nul z N" and N: "2 \<le> N"
  shows "tok_ok 1 N (blob_token z)"
proof -
  obtain i where i: "scan sqlite3Isxdigit z 2 = Some i" "2 \<le> i" "i \<le> N" using scan_ok [OF z N, of sqlite3Isxdigit] not_at_end by blast
  obtain j where j: "scan (\<lambda>c. c \<noteq> 0 \<and> c \<noteq> c_QUOTE) z i = Some j" "i \<le> j" "j \<le> N"
    using scan_ok [OF z i(3), of "\<lambda>c. c \<noteq> 0 \<and> c \<noteq> c_QUOTE"] by blast
  have st: "z ! i \<noteq> 0 \<Longrightarrow> Suc i \<le> N" "z ! j \<noteq> 0 \<Longrightarrow> Suc j \<le> N" using nul_step [OF z] i(3) j(3) by blast+
  show ?thesis
    using i j st nul_rd [OF z i(3)] nul_rd [OF z j(3)] by (auto simp: blob_token_def tok_ok_def)
qed

lemma id_ok: "nul z N \<Longrightarrow> i \<le> N \<Longrightarrow> tok_ok i N (id_token z i)"
  unfolding id_token_def by (rule tok_scan) (simp_all add: not_at_end)

lemma tok_if: "(b \<Longrightarrow> tok_ok i N x) \<Longrightarrow> (\<not> b \<Longrightarrow> tok_ok i N y) \<Longrightarrow> tok_ok i N (if b then x else y)"
  by simp

lemma tok_second:
  "nul z N \<Longrightarrow> 1 \<le> N \<Longrightarrow> (\<And>c. tk_legal (snd (f c)) \<and> fst (f c) \<in> {1, 2} \<and> (fst (f c) = 2 \<longrightarrow> c \<noteq> 0)) \<Longrightarrow>
   tok_ok 1 N (map_option f (rd8 z 1))"
proof -
  assume z: "nul z N" "1 \<le> N" and f: "\<And>c. tk_legal (snd (f c)) \<and> fst (f c) \<in> {1, 2} \<and> (fst (f c) = 2 \<longrightarrow> c \<noteq> 0)"
  obtain n t where nt: "f (z ! 1) = (n, t)" by (cases "f (z ! 1)")
  then have "tk_legal t" "n = 1 \<or> n = 2 \<and> z ! 1 \<noteq> 0" using f [of "z ! 1"] by auto
  then show ?thesis using nul_rd [OF z] nul_step [OF z] z(2) nt by (auto simp: tok_ok_def)
qed

lemma class_at_end: "aiClass ! unat c = k \<Longrightarrow> k < 27 \<Longrightarrow> c \<noteq> 0"
  using not_at_end(5) by auto

lemma digit_class: "aiClass ! unat (c :: u8) = 3 \<longleftrightarrow> sqlite3Isdigit c" "aiClass ! unat (c :: u8) = 26 \<longleftrightarrow> c = c_DOT"
proof -
  have "map (\<lambda>k. k = 3) aiClass = map (\<lambda>n. 48 \<le> n \<and> n \<le> 57) [0..<256]" "map (\<lambda>k. k = 26) aiClass = map (\<lambda>n. n = 46) [0..<256]"
    by code_simp+
  moreover have "length aiClass = 256" by (simp add: aiClass_def)
  ultimately have "(aiClass ! unat c = 3) = (48 \<le> unat c \<and> unat c \<le> 57)" "(aiClass ! unat c = 26) = (unat c = 46)"
    using table_nth [of "\<lambda>k. k = 3" aiClass "\<lambda>n. 48 \<le> n \<and> n \<le> 57" c] table_nth [of "\<lambda>k. k = 26" aiClass "\<lambda>n. n = 46" c] by blast+
  then show "aiClass ! unat c = 3 \<longleftrightarrow> sqlite3Isdigit c" "aiClass ! unat c = 26 \<longleftrightarrow> c = c_DOT"
    by (simp_all add: Isdigit_nat word_unat_eq_iff)
qed

lemma keyword_codes: "\<forall>(w, c)\<in>set sql_keywords. tk_legal c"
proof -
  have "\<forall>(w, c)\<in>set sql_keywords. c < TK_SPACE \<and> c \<noteq> 0" by code_simp
  then show ?thesis by (auto simp: tk_legal_def)
qed

lemma scan_all: "scan P z i = Some j \<Longrightarrow> \<forall>k. i \<le> k \<and> k < j \<longrightarrow> P (z ! k)"
proof -
  have "run_while P y = Some m \<Longrightarrow> \<forall>k<m. P (y ! k)" for y m
  proof (induction y arbitrary: m)
    case (Cons c y)
    then show ?case by (auto split: if_splits simp: less_Suc_eq_0_disj)
  qed simp
  then show "scan P z i = Some j \<Longrightarrow> ?thesis"
  proof -
    assume a: "scan P z i = Some j"
    then obtain m where m: "run_while P (drop i z) = Some m" "j = i + m" by (auto simp: scan_def)
    show ?thesis
    proof (intro allI impI)
      fix k assume k: "i \<le> k \<and> k < j"
      then have "k - i < m" using m(2) by arith
      then have "P (drop i z ! (k - i))" using \<open>\<And>m y. run_while P y = Some m \<Longrightarrow> \<forall>k<m. P (y ! k)\<close> [OF m(1)] m(2) by simp
      moreover have "drop i z ! (k - i) = z ! k" if "i \<le> length z" using k that by simp
      moreover have "i \<le> length z" using m(1) by (cases "i \<le> length z") auto
      ultimately show "P (z ! k)" by simp
    qed
  qed
qed

lemma keyword_ok:
  assumes z: "nul z N" and c: "aiClass ! unat (z ! 0) \<le> 1" and N: "1 \<le> N"
  shows "tok_ok 1 N (do { i \<leftarrow> scan (\<lambda>c. aiClass ! unat c \<le> 1) z 1; c \<leftarrow> rd8 z i;
       if IdChar c then id_token z (i + 1) else map_option (\<lambda>t. (i, t)) (sqlite3KeywordCode z i) })"
proof -
  obtain i where i: "scan (\<lambda>c. aiClass ! unat c \<le> 1) z 1 = Some i" "1 \<le> i" "i \<le> N"
    using scan_ok [OF z N, of "\<lambda>c. aiClass ! unat c \<le> 1"] not_at_end(5) by auto
  show ?thesis
  proof (cases "IdChar (z ! i)")
    case True
    then have "i + 1 \<le> N" using nul_step [OF z i(3)] not_at_end by fastforce
    from id_ok [OF z this] show ?thesis using i True nul_rd [OF z i(3)] by (auto simp: tok_ok_def)
  next
    case False
    have "aiClass ! unat (z ! k) \<le> 1" if "k < i" for k
      using scan_all [OF i(1)] c that by (cases k) auto
    moreover have "i \<le> length z" using i(3) z by (simp add: nul_def)
    ultimately have "sqlite3KeywordCode z i = Some (case map_of (map (\<lambda>(w, c). (map of_char w, c)) sql_keywords) (map kw_upper (take i z)) of
        None \<Rightarrow> TK_ID | Some c \<Rightarrow> c)"
      by (intro KeywordCode_lemma) (auto simp: all_set_conv_all_nth)
    moreover have "tk_legal (case map_of (map (\<lambda>(w, c). (map of_char w :: u8 list, c)) sql_keywords) y of None \<Rightarrow> TK_ID | Some c \<Rightarrow> c)" for y
      using keyword_codes by (auto split: option.split dest!: map_of_SomeD)
    ultimately show ?thesis using i False nul_rd [OF z i(3)] by (simp add: tok_ok_def)
  qed
qed

lemma GetToken_ok:
  assumes z: "nul z N" and N: "1 \<le> N"
  shows "tok_ok 1 N (sqlite3GetToken z)"
proof -
  note rd0 = nul_rd [OF z le0] and rd1 = nul_rd [OF z N]
  have two: "z ! 1 \<noteq> 0 \<Longrightarrow> 2 \<le> N" using nul_step [OF z N] by simp
  have z0: "z ! 0 \<noteq> 0" using nul_0 [OF z, of 0] N by simp
  have comment: "tok_ok 1 N (do { (i, c) \<leftarrow> comment_loop d (drop 3 z) 3; Some (if c \<noteq> 0 then i + 1 else i, TK_SPACE) })" if "3 \<le> N" for d
  proof -
    have N3: "nul (drop 3 z) (N - 3)" by (rule nul_drop [OF z that])
    obtain k c where "comment_loop d (drop 3 z) 3 = Some (3 + k, c)" "k \<le> N - 3" "c \<noteq> 0 \<longrightarrow> k < N - 3"
      using comment_ok [OF N3, of d 3] by blast
    then show ?thesis using \<open>3 \<le> N\<close> by (auto simp: tok_ok_def)
  qed
  have quote: "tok_ok 1 N (map_option (\<lambda>(i, c). if c = c_QUOTE then (i + 1, TK_STRING) else if c \<noteq> 0 then (i + 1, TK_ID) else (i, TK_ILLEGAL))
       (quote_loop (z ! 0) (drop 1 z) 1))"
  proof -
    obtain k c where "quote_loop (z ! 0) (drop 1 z) 1 = Some (1 + k, c)" "k \<le> N - 1" "c \<noteq> 0 \<longrightarrow> k < N - 1"
      using quote_ok [OF z0 nul_drop [OF z N], of 1] by blast
    then show ?thesis using N by (auto simp: tok_ok_def)
  qed
  have bracket: "tok_ok 1 N (do { i \<leftarrow> scan (\<lambda>c. c \<noteq> 0 \<and> c \<noteq> c_RBRACKET) z 1; c \<leftarrow> rd8 z i;
       Some (if c = c_RBRACKET then (i + 1, TK_ID) else (i, TK_ILLEGAL)) })"
  proof -
    obtain i where i: "scan (\<lambda>c. c \<noteq> 0 \<and> c \<noteq> c_RBRACKET) z 1 = Some i" "1 \<le> i" "i \<le> N"
      using scan_ok [OF z N, of "\<lambda>c. c \<noteq> 0 \<and> c \<noteq> c_RBRACKET"] by blast
    then show ?thesis using nul_rd [OF z i(3)] nul_step [OF z i(3)] by (auto simp: tok_ok_def)
  qed
  have var: "tok_ok 1 N (do { (i, n, t) \<leftarrow> var_loop z 1 0; Some (i, if n = 0 then TK_ILLEGAL else t) })"
    using var_ok [OF z N, of 0] by (auto simp: tok_ok_def)
  have minus: "tok_ok 1 N (do { c \<leftarrow> rd8 z 1;
       if c = c_MINUS then map_option (\<lambda>i. (i, TK_SPACE)) (scan (\<lambda>c. c \<noteq> 0 \<and> c \<noteq> c_NL) z 2) else Some (1, TK_MINUS) })"
    using rd1 two N tok_scan [OF z, of 2 "\<lambda>c. c \<noteq> 0 \<and> c \<noteq> c_NL" TK_SPACE] by (auto simp: tok_ok_def tk_legal_def)
  have slash: "tok_ok 1 N (do { c \<leftarrow> rd8 z 1;
       if c \<noteq> c_STAR then Some (1, TK_SLASH)
       else do { d \<leftarrow> rd8 z 2;
         if d = 0 then Some (1, TK_SLASH)
         else do { (i, c) \<leftarrow> comment_loop d (drop 3 z) 3; Some (if c \<noteq> 0 then i + 1 else i, TK_SPACE) } } })"
    using rd1 two N nul_rd [OF z, of 2] comment nul_step [OF z, of 2]
    by (cases "z ! 1 = c_STAR"; cases "z ! 2 = 0") (simp_all add: tok_ok_def tk_legal_def)
  have dot: "tok_ok 1 N (do { c \<leftarrow> rd8 z 1; if \<not> sqlite3Isdigit c then Some (1, TK_DOT) else digit_token z })" if "z ! 0 = c_DOT"
    using digit_ok [OF z] that rd1 N by (auto simp: tok_ok_def tk_legal_def)
  have x: "tok_ok 1 N (do { c \<leftarrow> rd8 z 1; if c = c_QUOTE then blob_token z else id_token z 1 })"
    using rd1 two N blob_ok [OF z] id_ok [OF z N] by auto
  show ?thesis
    unfolding sqlite3GetToken_def rd0 bind.bind_lunit Let_def
    by (intro tok_if comment quote bracket var minus slash x dot digit_ok [OF z] keyword_ok [OF z _ N] id_ok [OF z N]
        tok_second [OF z N] tok_scan [OF z N] tok_okI)
      (use N in \<open>auto simp: tk_legal_def digit_class not_at_end\<close>)
qed

section \<open>Cutting a text into tokens\<close>

text \<open>
  A lexer gives the length and the type of the token at the start of a text that is followed by
  its end. \<open>chop\<close> cuts the whole text.
\<close>

function chop :: "(u8 list \<Rightarrow> (nat \<times> 't) option) \<Rightarrow> u8 list \<Rightarrow> (u8 list \<times> 't) list option" where
  "chop get z = do {
     c \<leftarrow> rd8 z 0;
     if c = 0 then Some []
     else do {
       (n, t) \<leftarrow> get z;
       if n = 0 then None else do { ts \<leftarrow> chop get (drop n z); Some ((take n z, t) # ts) }
     }
   }"
  by pat_completeness auto
termination
  by (relation "measure (\<lambda>(get, z). length z)") (auto simp: rd8_def split: if_splits)

declare chop.simps [simp del]

locale lexer =
  fixes get :: "u8 list \<Rightarrow> (nat \<times> 't) option" and legal :: "'t \<Rightarrow> bool"
  assumes get: "nul z N \<Longrightarrow> 1 \<le> N \<Longrightarrow> \<exists>n t. get z = Some (n, t) \<and> 1 \<le> n \<and> n \<le> N \<and> legal t"
begin

lemma chop_text:
  "nul z N \<Longrightarrow> \<exists>ts. chop get z = Some ts \<and> concat (map fst ts) = take N z \<and> (\<forall>(s, t)\<in>set ts. s \<noteq> [] \<and> legal t)"
proof (induction N arbitrary: z rule: less_induct)
  case (less N)
  note rd0 = nul_rd [OF less.prems le0]
  show ?case
  proof (cases "N = 0")
    case True
    then show ?thesis using rd0 nul_0 [OF less.prems le0] by (subst chop.simps) auto
  next
    case False
    then have N: "1 \<le> N" "z ! 0 \<noteq> 0" using nul_0 [OF less.prems le0] by auto
    obtain n t where nt: "get z = Some (n, t)" "1 \<le> n" "n \<le> N" "legal t" using get [OF less.prems N(1)] by blast
    have "nul (drop n z) (N - n)" by (rule nul_drop [OF less.prems nt(3)])
    then obtain ts where ts: "chop get (drop n z) = Some ts" "concat (map fst ts) = take (N - n) (drop n z)"
        "\<forall>(s, t)\<in>set ts. s \<noteq> [] \<and> legal t"
      using less.IH [of "N - n" "drop n z"] nt by fastforce
    have "take n z @ take (N - n) (drop n z) = take N z"
      using nt(3) by (metis le_add_diff_inverse take_add)
    moreover have "take n z \<noteq> []" using nt(2) less.prems by (auto simp: nul_def)
    ultimately show ?thesis using rd0 N nt ts by (subst chop.simps) auto
  qed
qed

end

interpretation tok: lexer sqlite3GetToken tk_legal
  by unfold_locales (use GetToken_ok in \<open>simp add: tok_ok_def\<close>)

section \<open>Feeding the parser\<close>

text \<open>
  The generated parser is a parameter: \<open>p_token\<close> takes a token and its text. \<open>p_rc\<close> is the result
  code it leaves in \<open>Parse\<close>, \<open>p_oom\<close> whether memory ran out. The list of booleans says what the loop sees
  when it asks whether another thread has interrupted it; at its end nothing has.
\<close>

record 'p parser =
  p_token :: "nat \<Rightarrow> u8 list \<Rightarrow> 'p \<Rightarrow> 'p"
  p_rc :: "'p \<Rightarrow> nat"
  p_oom :: "'p \<Rightarrow> bool"

datatype parse_end = At_end | Too_big | Interrupted | Unrecognized nat | Parser_stopped

definition interrupted :: "bool list \<Rightarrow> bool" where
  "interrupted intr = (case intr of b # _ \<Rightarrow> b | [] \<Rightarrow> False)"

definition next_token :: "u8 list \<Rightarrow> int \<Rightarrow> (nat \<times> nat) option" where
  "next_token z lastTokenParsed = do {
     c \<leftarrow> rd8 z 0;
     if c \<noteq> 0 then sqlite3GetToken z
     else Some (0, if lastTokenParsed = int TK_SEMI then 0 else TK_SEMI)
   }"

lemma GetToken_pos: "sqlite3GetToken z = Some (n, t) \<Longrightarrow> nul z N \<Longrightarrow> 1 \<le> N \<Longrightarrow> 1 \<le> n \<and> n \<le> N \<and> tk_legal t"
  using GetToken_ok [of z N] by (auto simp: tok_ok_def)

function parse_loop :: "'p parser \<Rightarrow> bool list \<Rightarrow> u8 list \<Rightarrow> int \<Rightarrow> int \<Rightarrow> 'p \<Rightarrow> (parse_end \<times> u8 list \<times> 'p) option" where
  "parse_loop P intr z mxSqlLen lastTokenParsed p = do {
     c \<leftarrow> rd8 z 0;
     if c = 0 \<and> lastTokenParsed = 0 then Some (At_end, z, p)
     else do {
       (n, tokenType) \<leftarrow> next_token z lastTokenParsed;
       if c \<noteq> 0 \<and> n = 0 then None
       else if c \<noteq> 0 \<and> mxSqlLen - int n < 0 then Some (Too_big, z, p)
       else if tokenType \<ge> TK_SPACE then
         if tokenType \<noteq> TK_SPACE \<and> tokenType \<noteq> TK_ILLEGAL then None
         else if interrupted intr then Some (Interrupted, z, p)
         else if tokenType = TK_ILLEGAL then Some (Unrecognized n, z, p)
         else parse_loop P (drop 1 intr) (drop n z) (mxSqlLen - int n) lastTokenParsed p
       else do {
         let p = p_token P tokenType (take n z) p;
         let z = drop n z;
         if p_rc P p \<noteq> SQLITE_OK \<or> p_oom P p then Some (Parser_stopped, z, p)
         else parse_loop P intr z (if c \<noteq> 0 then mxSqlLen - int n else mxSqlLen) (int tokenType) p
       }
     }
   }"
  by pat_completeness auto
termination
  by (relation "measures [\<lambda>(P, intr, z, mx, l, p). length z, \<lambda>(P, intr, z, mx, l, p). if l = 0 then 0 else if l = 1 then 1 else 2]")
    (auto simp: rd8_def next_token_def split: if_splits)

declare parse_loop.simps [simp del]

section \<open>What the parser is fed\<close>

text \<open>
  The tokens other than white space and comments in their order, then a semicolon unless the
  last one was, then the end marker 0.
\<close>

fun feed :: "int \<Rightarrow> (u8 list \<times> nat) list \<Rightarrow> (nat \<times> u8 list) list" where
  "feed l [] = (if l = int TK_SEMI then [] else [(TK_SEMI, [])]) @ [(0, [])]"
| "feed l ((s, t) # ts) = (if t = TK_SPACE then feed l ts else (t, s) # feed (int t) ts)"

text \<open>The parser after the tokens \<open>q\<close>, and whether it asked for more after each of them.\<close>

fun fed :: "'p parser \<Rightarrow> (nat \<times> u8 list) list \<Rightarrow> 'p \<Rightarrow> 'p" where
  "fed P [] p = p"
| "fed P ((t, s) # q) p = fed P q (p_token P t s p)"

definition goes_on :: "'p parser \<Rightarrow> 'p \<Rightarrow> bool" where
  "goes_on P p \<longleftrightarrow> p_rc P p = SQLITE_OK \<and> \<not> p_oom P p"

fun wants_more :: "'p parser \<Rightarrow> (nat \<times> u8 list) list \<Rightarrow> 'p \<Rightarrow> bool" where
  "wants_more P [] p = True"
| "wants_more P ((t, s) # q) p = (goes_on P (p_token P t s p) \<and> wants_more P q (p_token P t s p))"

text \<open>
  Why the loop ended, with \<open>q\<close> fed and \<open>rest\<close> not: everything was fed; the parser reported an error at the last
  token of \<open>q\<close>, and not before; the next token is illegal; or the text is too long, or another thread interrupted.
\<close>

definition end_reason :: "'p parser \<Rightarrow> bool list \<Rightarrow> nat \<Rightarrow> int \<Rightarrow> 'p \<Rightarrow> (nat \<times> u8 list) list \<Rightarrow> (nat \<times> u8 list) list \<Rightarrow> parse_end \<Rightarrow> bool" where
  "end_reason P intr N mx p q rest e \<longleftrightarrow> TK_ILLEGAL \<notin> set (map fst q) \<and>
     (case e of
        At_end \<Rightarrow> rest = [] \<and> wants_more P q p
      | Parser_stopped \<Rightarrow> q \<noteq> [] \<and> wants_more P (butlast q) p \<and> \<not> goes_on P (fed P q p)
      | Unrecognized n \<Rightarrow> wants_more P q p \<and> rest \<noteq> [] \<and> fst (hd rest) = TK_ILLEGAL \<and> length (snd (hd rest)) = n
      | Too_big \<Rightarrow> wants_more P q p \<and> mx < int N
      | Interrupted \<Rightarrow> wants_more P q p \<and> True \<in> set intr)"

lemma end_reason_token:
  assumes "end_reason P intr N mx (p_token P t s p) q rest e" "goes_on P (p_token P t s p)" "t \<noteq> TK_ILLEGAL"
  shows "end_reason P intr N mx p ((t, s) # q) rest e"
  using assms by (auto simp: end_reason_def split: parse_end.splits)

lemma end_reason_stop: "\<not> goes_on P (p_token P t s p) \<Longrightarrow> t \<noteq> TK_ILLEGAL \<Longrightarrow> end_reason P intr N mx p [(t, s)] rest Parser_stopped"
  by (simp add: end_reason_def)

lemma end_reason_later:
  "end_reason P intr N mx p q rest e \<Longrightarrow> N \<le> N' \<Longrightarrow> mx' = mx + int N' - int N \<Longrightarrow> set intr \<subseteq> set intr' \<Longrightarrow> end_reason P intr' N' mx' p q rest e"
  by (auto simp: end_reason_def split: parse_end.splits)

lemma parse_end_feeds:
  assumes "rd8 z 0 = Some 0" "l \<noteq> 0"
  shows "\<exists>e z' q rest. parse_loop P intr z mx l p = Some (e, z', fed P q p) \<and> feed l [] = q @ rest \<and> end_reason P intr N mx p q rest e"
proof -
  have last: "parse_loop P intr z mx 1 p = Some (if goes_on P (p_token P 0 [] p) then At_end else Parser_stopped, z, p_token P 0 [] p)" for p
    using assms(1) by (subst parse_loop.simps) (simp add: next_token_def Let_def goes_on_def parse_loop.simps [of P intr z mx 0])
  have one: "end_reason P intr N mx p [(0, [])] [] (if goes_on P (p_token P 0 [] p) then At_end else Parser_stopped)" for p
    by (simp add: end_reason_def)
  show ?thesis
  proof (cases "l = 1")
    case True
    then show ?thesis using last [of p] one [of p]
      by (intro exI [of _ "if goes_on P (p_token P 0 [] p) then At_end else Parser_stopped"] exI [of _ z] exI [of _ "[(0, [])]"] exI [of _ "[]"]) simp
  next
    case False
    then have run: "parse_loop P intr z mx l p = (let p = p_token P 1 [] p in if goes_on P p then parse_loop P intr z mx 1 p else Some (Parser_stopped, z, p))"
      using assms by (subst parse_loop.simps) (simp add: next_token_def Let_def goes_on_def)
    show ?thesis
    proof (cases "goes_on P (p_token P 1 [] p)")
      case True
      let ?p = "p_token P 1 [] p"
      have "end_reason P intr N mx p [(1, []), (0, [])] [] (if goes_on P (p_token P 0 [] ?p) then At_end else Parser_stopped)"
        by (rule end_reason_token [OF one True]) simp
      then show ?thesis using True False run last [of ?p]
        by (intro exI [of _ "if goes_on P (p_token P 0 [] ?p) then At_end else Parser_stopped"] exI [of _ z] exI [of _ "[(1, []), (0, [])]"] exI [of _ "[]"])
          (simp add: Let_def)
    next
      case stop: False
      have "end_reason P intr N mx p [(1, [])] [(0, [])] Parser_stopped" by (rule end_reason_stop [OF stop]) simp
      then show ?thesis using stop False run
        by (intro exI [of _ Parser_stopped] exI [of _ z] exI [of _ "[(1, [])]"] exI [of _ "[(0, [])]"]) (simp add: Let_def)
    qed
  qed
qed

lemma parse_loop_feeds:
  "nul z N \<Longrightarrow> l \<noteq> 0 \<Longrightarrow> chop sqlite3GetToken z = Some ts \<Longrightarrow>
   \<exists>e z' q rest. parse_loop P intr z mx l p = Some (e, z', fed P q p) \<and> feed l ts = q @ rest \<and> end_reason P intr N mx p q rest e"
proof (induction N arbitrary: z intr mx l p ts rule: less_induct)
  case (less N)
  note rd0 = nul_rd [OF less.prems(1) le0]
  show ?case
  proof (cases "N = 0")
    case True
    then have z: "rd8 z 0 = Some 0" using rd0 nul_0 [OF less.prems(1) le0] by simp
    then have "ts = []" using less.prems(3) by (subst (asm) chop.simps) auto
    then show ?thesis using parse_end_feeds [OF z less.prems(2)] by (simp only:)
  next
    case False
    have z0: "z ! 0 \<noteq> 0" using nul_0 [OF less.prems(1) le0] False by simp
    obtain n t where nt: "sqlite3GetToken z = Some (n, t)" "1 \<le> n" "n \<le> N" "tk_legal t"
      using GetToken_ok [OF less.prems(1)] False by (auto simp: tok_ok_def)
    have d: "nul (drop n z) (N - n)" by (rule nul_drop [OF less.prems(1) nt(3)])
    have len: "length (take n z) = n" using nt(3) less.prems(1) by (auto simp: nul_def)
    obtain ts' where ts: "ts = (take n z, t) # ts'" "chop sqlite3GetToken (drop n z) = Some ts'"
      using less.prems(3) rd0 z0 nt by (subst (asm) chop.simps) (auto split: bind_splits)
    have t: "t = TK_SPACE \<or> t = TK_ILLEGAL \<or> t < TK_SPACE" "t \<noteq> 0" using nt(4) by (auto simp: tk_legal_def)
    have IH: "\<exists>e z' q rest. parse_loop P intr' (drop n z) (mx - int n) l' p' = Some (e, z', fed P q p') \<and> feed l' ts' = q @ rest \<and>
        end_reason P intr N mx p' q rest e" if l': "l' \<noteq> 0" and intr': "set intr' \<subseteq> set intr" for intr' l' p'
    proof -
      obtain e z' q rest where i: "parse_loop P intr' (drop n z) (mx - int n) l' p' = Some (e, z', fed P q p')" "feed l' ts' = q @ rest"
          "end_reason P intr' (N - n) (mx - int n) p' q rest e"
        using less.IH [OF _ d l' ts(2), of intr' "mx - int n" p'] nt by auto
      moreover have "end_reason P intr N mx p' q rest e"
        by (rule end_reason_later [OF i(3) _ _ intr']) (use nt(3) in simp_all)
      ultimately show ?thesis by blast
    qed
    have now: "parse_loop P intr z mx l p = Some (e, z', p) \<Longrightarrow> end_reason P intr N mx p [] (feed l ts) e \<Longrightarrow> ?thesis" for e z'
      by (intro exI [of _ e] exI [of _ z'] exI [of _ "[]"] exI [of _ "feed l ts"]) simp
    consider (big) "mx < int n" | (interrupted) "\<not> mx < int n" "t \<ge> TK_SPACE" "interrupted intr"
      | (illegal) "\<not> mx < int n" "t = TK_ILLEGAL" "\<not> interrupted intr" | (space) "\<not> mx < int n" "t = TK_SPACE" "\<not> interrupted intr"
      | (token) "\<not> mx < int n" "t < TK_SPACE" using t by fastforce
    then show ?thesis
    proof cases
      case big
      then have "parse_loop P intr z mx l p = Some (Too_big, z, p)"
        using rd0 z0 nt(1,2) by (subst parse_loop.simps) (simp add: next_token_def)
      then show ?thesis by (rule now) (use big nt(3) in \<open>simp add: end_reason_def\<close>)
    next
      case interrupted
      then have "parse_loop P intr z mx l p = Some (Interrupted, z, p)"
        using rd0 z0 nt(1,2) t by (subst parse_loop.simps) (auto simp: next_token_def)
      then show ?thesis by (rule now) (use interrupted(3) in \<open>auto simp: end_reason_def interrupted_def split: list.splits\<close>)
    next
      case illegal
      then have "parse_loop P intr z mx l p = Some (Unrecognized n, z, p)"
        using rd0 z0 nt(1,2) by (subst parse_loop.simps) (simp add: next_token_def)
      then show ?thesis by (rule now) (use len in \<open>simp add: end_reason_def ts(1) illegal(2)\<close>)
    next
      case space
      then have "parse_loop P intr z mx l p = parse_loop P (drop 1 intr) (drop n z) (mx - int n) l p"
        using rd0 z0 nt(1,2) by (subst parse_loop.simps) (simp add: next_token_def)
      moreover have "set (drop 1 intr) \<subseteq> set intr" by (rule set_drop_subset)
      ultimately show ?thesis using IH [OF less.prems(2), of "drop 1 intr" p] space(2) ts(1) by auto
    next
      case token
      let ?p = "p_token P t (take n z) p"
      have run: "parse_loop P intr z mx l p = (if goes_on P ?p then parse_loop P intr (drop n z) (mx - int n) (int t) ?p else Some (Parser_stopped, drop n z, ?p))"
        using token rd0 z0 nt(1,2) by (subst parse_loop.simps) (simp add: next_token_def goes_on_def Let_def)
      have feed: "feed l ts = (t, take n z) # feed (int t) ts'" "t \<noteq> TK_ILLEGAL" using token(2) ts(1) by auto
      show ?thesis
      proof (cases "goes_on P ?p")
        case True
        obtain e z' q rest where i: "parse_loop P intr (drop n z) (mx - int n) (int t) ?p = Some (e, z', fed P q ?p)" "feed (int t) ts' = q @ rest"
            "end_reason P intr N mx ?p q rest e" using IH [of "int t" intr ?p] t(2) by auto
        then show ?thesis using run True feed end_reason_token [OF i(3) True feed(2)]
          by (intro exI [of _ e] exI [of _ z'] exI [of _ "(t, take n z) # q"] exI [of _ rest]) simp
      next
        case stop: False
        then show ?thesis using run feed end_reason_stop [OF stop feed(2)]
          by (intro exI [of _ Parser_stopped] exI [of _ "drop n z"] exI [of _ "[(t, take n z)]"] exI [of _ "feed (int t) ts'"]) simp
      qed
    qed
  qed
qed

lemma parse_loop_returns: "nul z N \<Longrightarrow> l \<noteq> 0 \<Longrightarrow> \<exists>e z' p'. parse_loop P intr z mx l p = Some (e, z', p')"
proof -
  assume z: "nul z N" "l \<noteq> 0"
  obtain ts where "chop sqlite3GetToken z = Some ts" using tok.chop_text [OF z(1)] by auto
  from parse_loop_feeds [OF z this, of P intr mx p] show ?thesis by auto
qed

text \<open>A parser that knows one statement and reports an error at the first token that is not of it.\<close>

definition one_statement :: "nat list parser" where
  "one_statement = \<lparr>p_token = (\<lambda>t s p. p @ [t]), p_rc = (\<lambda>p. if p = take (length p) [TK_ID, TK_LE, TK_INTEGER, TK_SEMI, 0] then 0 else 1),
     p_oom = (\<lambda>p. False)\<rparr>"

section \<open>Properties\<close>

text \<open>
  Property C9. The tokens of an SQL text are its pieces: none is empty, together they are the
  text, and each has a type that the parser or the loop around it knows. The tokenizer reads
  nothing after the end of the text.
\<close>

theorem Tokens_partition:
  assumes "0 \<notin> set sql"
  shows "\<exists>ts. chop sqlite3GetToken (sql @ [0]) = Some ts \<and> concat (map fst ts) = sql \<and> (\<forall>(s, t)\<in>set ts. s \<noteq> [] \<and> tk_legal t)"
  using tok.chop_text [of "sql @ [0]" "length sql"] assms by (simp add: nul_append)

theorem Tokens_partition_witness:
  "\<exists>ts. chop sqlite3GetToken (map of_char ''SELECT x'' @ [0]) = Some ts \<and> concat (map fst ts) = map of_char ''SELECT x''
     \<and> (\<forall>(s, t)\<in>set ts. s \<noteq> [] \<and> tk_legal t)"
  by (rule Tokens_partition) simp

text \<open>
  Property C7. The loop of \<open>sqlite3RunParser\<close> ends on every text, whatever the parser does,
  with whatever limit and whenever it is interrupted: each round takes a character or one of
  the two tokens that end the input.
\<close>

theorem RunParser_terminates:
  assumes "0 \<notin> set sql"
  shows "\<exists>e z' p'. parse_loop P intr (sql @ [0]) mxSqlLen (-1) p = Some (e, z', p')"
  using parse_loop_returns [of "sql @ [0]" "length sql" "-1"] assms by (simp add: nul_append)

theorem RunParser_terminates_witness:
  "\<exists>e z' p'. parse_loop \<lparr>p_token = (\<lambda>t s p. p @ [t]), p_rc = (\<lambda>p. length p - 3), p_oom = (\<lambda>p. False)\<rparr> [False, True]
     (map of_char ''SELECT 1 /* a'' @ [0]) 1000 (-1) [] = Some (e, z', p')"
  by (rule RunParser_terminates) simp

text \<open>
  Property C23. What the parser gets, whatever parser it is and however the loop ends: the tokens of
  the text without white space and comments, in their order, then one semicolon unless the text ended with one,
  then the end marker. The loop stops short of that only after the first token at which the
  parser reports an error, before the first illegal token, or because the text is over its limit or
  another thread interrupts.
\<close>

theorem RunParser_feeds:
  assumes "0 \<notin> set sql" and "chop sqlite3GetToken (sql @ [0]) = Some ts"
  shows "\<exists>e z' q rest. parse_loop P intr (sql @ [0]) mxSqlLen (-1) p = Some (e, z', fed P q p) \<and>
    feed (-1) ts = q @ rest \<and> end_reason P intr (length sql) mxSqlLen p q rest e"
  using parse_loop_feeds [of "sql @ [0]" "length sql" "-1" ts P intr mxSqlLen p] assms by (simp add: nul_append)

theorem RunParser_feeds_witness:
  "(\<exists>z'. parse_loop one_statement [] (map of_char ''a <= b'' @ [0]) 1000 (-1) [] = Some (Parser_stopped, z', [TK_ID, TK_LE, TK_ID])) \<and>
   (\<exists>z'. parse_loop one_statement [] (map of_char ''a<=1'' @ [0]) 1000 (-1) [] =
     Some (At_end, z', [TK_ID, TK_LE, TK_INTEGER, TK_SEMI, 0]))"
proof (rule conjI)
  let ?a = "map of_char ''a'' :: u8 list" and ?b = "map of_char ''b'' :: u8 list" and ?le = "map of_char ''<='' :: u8 list"
  have c: "chop sqlite3GetToken (map of_char ''a <= b'' @ [0]) =
    Some [(?a, TK_ID), (map of_char '' '', TK_SPACE), (?le, TK_LE), (map of_char '' '', TK_SPACE), (?b, TK_ID)]"
    by code_simp
  have f: "feed (-1) [(?a, TK_ID), (map of_char '' '', TK_SPACE), (?le, TK_LE), (map of_char '' '', TK_SPACE), (?b, TK_ID)] =
      [(TK_ID, ?a), (TK_LE, ?le), (TK_ID, ?b), (TK_SEMI, []), (0, [])]" by simp
  have "0 \<notin> set (map of_char ''a <= b'' :: u8 list)" by simp
  from RunParser_feeds [OF this c, of one_statement "[]" 1000 "[]"] obtain e z' q rest where
    r: "parse_loop one_statement [] (map of_char ''a <= b'' @ [0]) 1000 (-1) [] = Some (e, z', fed one_statement q [])"
      "[(TK_ID, ?a), (TK_LE, ?le), (TK_ID, ?b), (TK_SEMI, []), (0, [])] = q @ rest"
      "end_reason one_statement [] (length (map of_char ''a <= b'' :: u8 list)) 1000 [] q rest e" unfolding f by blast
  then have "e = Parser_stopped \<and> fed one_statement q [] = [TK_ID, TK_LE, TK_ID]"
    by (auto simp: end_reason_def one_statement_def goes_on_def Cons_eq_append_conv split: parse_end.splits)
  then show "\<exists>z'. parse_loop one_statement [] (map of_char ''a <= b'' @ [0]) 1000 (-1) [] = Some (Parser_stopped, z', [TK_ID, TK_LE, TK_ID])"
    using r(1) by auto
next
  let ?a = "map of_char ''a'' :: u8 list" and ?n = "map of_char ''1'' :: u8 list" and ?le = "map of_char ''<='' :: u8 list"
  have c: "chop sqlite3GetToken (map of_char ''a<=1'' @ [0]) = Some [(?a, TK_ID), (?le, TK_LE), (?n, TK_INTEGER)]"
    by code_simp
  have f: "feed (-1) [(?a, TK_ID), (?le, TK_LE), (?n, TK_INTEGER)] =
      [(TK_ID, ?a), (TK_LE, ?le), (TK_INTEGER, ?n), (TK_SEMI, []), (0, [])]" by simp
  have "0 \<notin> set (map of_char ''a<=1'' :: u8 list)" by simp
  from RunParser_feeds [OF this c, of one_statement "[]" 1000 "[]"] obtain e z' q rest where
    r: "parse_loop one_statement [] (map of_char ''a<=1'' @ [0]) 1000 (-1) [] = Some (e, z', fed one_statement q [])"
      "[(TK_ID, ?a), (TK_LE, ?le), (TK_INTEGER, ?n), (TK_SEMI, []), (0, [])] = q @ rest"
      "end_reason one_statement [] (length (map of_char ''a<=1'' :: u8 list)) 1000 [] q rest e" unfolding f by blast
  then have "e = At_end \<and> fed one_statement q [] = [TK_ID, TK_LE, TK_INTEGER, TK_SEMI, 0]"
    by (auto simp: end_reason_def one_statement_def goes_on_def Cons_eq_append_conv split: parse_end.splits)
  then show "\<exists>z'. parse_loop one_statement [] (map of_char ''a<=1'' @ [0]) 1000 (-1) [] =
     Some (At_end, z', [TK_ID, TK_LE, TK_INTEGER, TK_SEMI, 0])" using r(1) by auto
qed

end
