(* ===== verification/Text.thy ===== *)
theory Text
  imports Chars
begin

text \<open>
  Text routines of util.c and the quoting of func.c: comparison without case, quoting and
  dequoting, hexadecimal, and the reading of 64-bit and 32-bit integers. A buffer is a list of
  bytes; reading outside it gives \<open>None\<close>, so that a theorem with \<open>Some\<close> says that the code stays
  inside. A string of C is a list of non-zero bytes followed by a zero. The sections that follow
  hold the definitions, the lemmas on the loops, and the properties.
\<close>

section \<open>Comparing without case\<close>

fun sqlite3StrICmp :: "u8 list \<Rightarrow> u8 list \<Rightarrow> int option" where
  "sqlite3StrICmp (a # as) (b # bs) =
     (let c = int (unat (UpperToLower a)) - int (unat (UpperToLower b))
      in if c \<noteq> 0 \<or> a = 0 then Some c else sqlite3StrICmp as bs)"
| "sqlite3StrICmp _ _ = None"

definition sqlite3_stricmp :: "u8 list option \<Rightarrow> u8 list option \<Rightarrow> int option" where
  "sqlite3_stricmp zLeft zRight =
     (case zLeft of
        None \<Rightarrow> Some (if zRight \<noteq> None then -1 else 0)
      | Some l \<Rightarrow> (case zRight of None \<Rightarrow> Some 1 | Some r \<Rightarrow> sqlite3StrICmp l r))"

fun strnicmp_loop :: "u8 list \<Rightarrow> u8 list \<Rightarrow> nat \<Rightarrow> int option" where
  "strnicmp_loop as bs 0 = Some 0"
| "strnicmp_loop (a # as) (b # bs) (Suc N) =
     (if a \<noteq> 0 \<and> UpperToLower a = UpperToLower b then strnicmp_loop as bs N
      else Some (int (unat (UpperToLower a)) - int (unat (UpperToLower b))))"
| "strnicmp_loop _ _ (Suc N) = None"

definition sqlite3_strnicmp :: "u8 list option \<Rightarrow> u8 list option \<Rightarrow> int \<Rightarrow> int option" where
  "sqlite3_strnicmp zLeft zRight N =
     (case zLeft of
        None \<Rightarrow> Some (if zRight \<noteq> None then -1 else 0)
      | Some l \<Rightarrow> (case zRight of None \<Rightarrow> Some 1 | Some r \<Rightarrow> strnicmp_loop l r (nat N)))"

text \<open>A string of C: the bytes before its terminator, which has no zero byte before it.\<close>

definition cstr :: "u8 list \<Rightarrow> bool" where
  "cstr s \<longleftrightarrow> 0 \<notin> set s"

fun lex_sign :: "u8 list \<Rightarrow> u8 list \<Rightarrow> int" where
  "lex_sign (a # as) (b # bs) = (if a < b then -1 else if b < a then 1 else lex_sign as bs)"
| "lex_sign [] [] = 0"
| "lex_sign [] bs = -1"
| "lex_sign as [] = 1"

lemma Lower_0 [simp]: "UpperToLower 0 = 0"
  using UpperToLower_nat [of 0] by (simp add: unat_eq_zero)

lemma Lower_eq_0: "UpperToLower c = 0 \<longleftrightarrow> c = 0"
  using UpperToLower_nat [of c] by (simp add: unat_eq_zero [symmetric] split: if_splits)

lemma Lower_pos: "c \<noteq> 0 \<Longrightarrow> 0 < unat (UpperToLower c)"
  using Lower_eq_0 [of c] by (simp add: unat_eq_zero [symmetric] del: unat_eq_zero)

lemma StrICmp_lemma:
  "cstr s \<Longrightarrow> cstr t \<Longrightarrow> map_option sgn (sqlite3StrICmp (s @ 0 # x) (t @ 0 # y)) =
     Some (lex_sign (map UpperToLower s) (map UpperToLower t))"
proof (induction s arbitrary: t)
  case Nil
  then show ?case using Lower_pos by (cases t) (auto simp: cstr_def Let_def Lower_eq_0)
next
  case (Cons a as)
  show ?case
  proof (cases t)
    case Nil
    then show ?thesis using Lower_eq_0 [of a] Cons.prems by (simp add: cstr_def Let_def uint_0_iff)
  next
    case t: (Cons b bs)
    show ?thesis
    proof (cases "UpperToLower a = UpperToLower b")
      case True
      have "map_option sgn (sqlite3StrICmp (as @ 0 # x) (bs @ 0 # y)) = Some (lex_sign (map UpperToLower as) (map UpperToLower bs))"
        using Cons.IH [of bs] Cons.prems t by (simp add: cstr_def)
      then show ?thesis using True Cons.prems t by (simp add: cstr_def)
    next
      case False
      then have "uint (UpperToLower a) \<noteq> uint (UpperToLower b)" by (simp add: word_uint_eq_iff)
      then show ?thesis using False t by (auto simp: Let_def word_less_def sgn_if)
    qed
  qed
qed

lemma lex_sign_eq: "lex_sign s t = 0 \<longleftrightarrow> s = t"
  by (induction s t rule: lex_sign.induct) auto

lemma StrICmp_eq:
  "cstr s \<Longrightarrow> cstr t \<Longrightarrow> \<exists>c. sqlite3StrICmp (s @ 0 # x) (t @ 0 # y) = Some c \<and> (c = 0 \<longleftrightarrow> map UpperToLower s = map UpperToLower t)"
  using StrICmp_lemma [of s t x y] lex_sign_eq [of "map UpperToLower s" "map UpperToLower t"] by (auto simp: sgn_eq_0_iff)

section \<open>Quotes\<close>

fun dequote_loop :: "u8 \<Rightarrow> u8 list \<Rightarrow> u8 list option" where
  "dequote_loop quote (c # d # z) =
     (if c = quote then
        if d = quote then map_option ((#) quote) (dequote_loop quote z) else Some []
      else map_option ((#) c) (dequote_loop quote (d # z)))"
| "dequote_loop quote _ = None"

text \<open>The string left in the buffer, without its terminator.\<close>

definition sqlite3Dequote :: "u8 list \<Rightarrow> u8 list option" where
  "sqlite3Dequote z = do {
     quote \<leftarrow> rda z 0;
     if \<not> sqlite3Isquote quote then Some (takeWhile (\<lambda>c. c \<noteq> 0) z)
     else dequote_loop (if quote = 0x5B then 0x5D else quote) (drop 1 z)
   }"

definition quote_text :: "u8 list \<Rightarrow> u8 list" where
  "quote_text zArg = 0x27 # concat (map (\<lambda>c. if c = 0x27 then [c, 0x27] else [c]) zArg) @ [0x27]"

lemma dequote_loop_ok:
  "cstr s \<Longrightarrow> q \<noteq> 0 \<Longrightarrow> d \<noteq> q \<Longrightarrow>
   dequote_loop q (concat (map (\<lambda>c. if c = q then [c, q] else [c]) s) @ q # d # x) = Some s"
proof (induction s)
  case (Cons c s)
  then have IH: "dequote_loop q (concat (map (\<lambda>c. if c = q then [c, q] else [c]) s) @ q # d # x) = Some s"
    by (simp add: cstr_def)
  show ?case
  proof (cases "c = q")
    case True
    then show ?thesis using IH by simp
  next
    case False
    obtain e r where e: "concat (map (\<lambda>c. if c = q then [c, q] else [c]) s) @ q # d # x = e # r"
      by (cases "concat (map (\<lambda>c. if c = q then [c, q] else [c]) s)") auto
    then show ?thesis using IH False by simp
  qed
qed simp

section \<open>Hexadecimal\<close>

definition hexdigits :: "u8 list" where
  "hexdigits = [0x30, 0x31, 0x32, 0x33, 0x34, 0x35, 0x36, 0x37, 0x38, 0x39, 0x41, 0x42, 0x43, 0x44, 0x45, 0x46]"

definition hexFunc :: "u8 list \<Rightarrow> u8 list" where
  "hexFunc pBlob = concat (map (\<lambda>c. [hexdigits ! unat (drop_bit 4 c AND 0xf), hexdigits ! unat (c AND 0xf)]) pBlob)"

definition quote_blob :: "u8 list \<Rightarrow> u8 list" where
  "quote_blob zBlob = [0x58, 0x27] @
     concat (map (\<lambda>c. [hexdigits ! unat (drop_bit 4 c AND 0xf), hexdigits ! unat (c AND 0xf)]) zBlob) @ [0x27]"

definition sqlite3HexToInt :: "u8 \<Rightarrow> u8" where
  "sqlite3HexToInt h = (h + 9 * (1 AND drop_bit 6 h)) AND 0xf"

fun hex_pairs :: "u8 list \<Rightarrow> u8 list" where
  "hex_pairs (a # b # z) = (push_bit 4 (sqlite3HexToInt a) OR sqlite3HexToInt b) # hex_pairs z"
| "hex_pairs _ = []"

definition sqlite3HexToBlob :: "bool list \<Rightarrow> u8 list \<Rightarrow> nat \<Rightarrow> u8 list option" where
  "sqlite3HexToBlob mem z n =
     (case malloc mem of (False, _) \<Rightarrow> None | (True, _) \<Rightarrow> Some (hex_pairs (take n z) @ [0]))"

lemma hex_digit: "n < 16 \<Longrightarrow> sqlite3HexToInt (hexdigits ! n) = of_nat n"
proof -
  assume "n < 16"
  moreover have "map (\<lambda>n. sqlite3HexToInt (hexdigits ! n)) [0..<16] = map of_nat [0..<16]" by code_simp
  from arg_cong [OF this, of "\<lambda>xs. xs ! n"] have "n < 16 \<Longrightarrow> ?thesis" by (simp del: upt_rec_numeral)
  ultimately show ?thesis by blast
qed

lemma nibble_take: "(c :: u8) AND 0xf = take_bit 4 c"
  by (simp add: take_bit_eq_mask mask_eq_exp_minus_1)

lemma nibble: "unat (take_bit 4 (c :: u8)) < 16"
  using take_bit_nat_less_exp [of 4 "unat c"] by (simp add: unsigned_take_bit_eq)

lemma hex_byte: "push_bit 4 (take_bit 4 (drop_bit 4 c)) OR take_bit 4 c = (c :: u8)"
  by (rule bit_word_eqI) (auto simp: bit_simps dest: bit_u8)

lemma hex_roundtrip_lemma: "hex_pairs (hexFunc bs) = bs"
proof (induction bs)
  case (Cons c bs)
  have "hex_pairs (hexFunc (c # bs)) = (push_bit 4 (take_bit 4 (drop_bit 4 c)) OR take_bit 4 c) # hex_pairs (hexFunc bs)"
    by (simp only: hexFunc_def nibble_take list.map concat.simps append.simps hex_pairs.simps hex_digit [OF nibble] of_nat_unat ucast_id)
  then show ?case using Cons by (simp only: hex_byte)
qed (simp add: hexFunc_def)

lemma uint_pos: "0 < uint w \<longleftrightarrow> w \<noteq> 0"
  using unsigned_greater_eq [of w, where 'a = int] by (auto simp: less_le uint_0_iff)

lemma strnicmp_lemma:
  "cstr s \<Longrightarrow> cstr t \<Longrightarrow> map_option sgn (strnicmp_loop (s @ 0 # x) (t @ 0 # y) n) =
     Some (lex_sign (map UpperToLower (take n s)) (map UpperToLower (take n t)))"
proof (induction n arbitrary: s t)
  case (Suc n)
  have U: "UpperToLower c = UpperToLower d \<or> uint (UpperToLower c) < uint (UpperToLower d) \<or> uint (UpperToLower d) < uint (UpperToLower c)" for c d
    using word_uint_eq_iff [of "UpperToLower c" "UpperToLower d"] by linarith
  show ?case
  proof (cases s)
    case Nil
    then show ?thesis using Suc.prems U [of 0 "hd t"]
      by (cases t) (auto simp: cstr_def Lower_eq_0 uint_0_iff uint_pos sgn_if)
  next
    case s: (Cons a as)
    show ?thesis
    proof (cases t)
      case Nil
      then show ?thesis using Suc.prems s by (auto simp: cstr_def Lower_eq_0 uint_0_iff uint_pos sgn_if)
    next
      case t: (Cons b bs)
      have "map_option sgn (strnicmp_loop (as @ 0 # x) (bs @ 0 # y) n) =
        Some (lex_sign (map UpperToLower (take n as)) (map UpperToLower (take n bs)))"
        using Suc.IH [of as bs] Suc.prems s t by (simp add: cstr_def)
      then show ?thesis using Suc.prems U [of a b] by (auto simp: s t cstr_def word_less_def sgn_if)
    qed
  qed
qed simp

section \<open>Decimal integers\<close>

text \<open>
  Positions in the text are indices; \<open>zEnd\<close> is the index of the end. \<open>skip_while\<close> is the
  loop that moves over the characters with a property.
\<close>

function skip_while :: "(u8 \<Rightarrow> bool) \<Rightarrow> u8 list \<Rightarrow> nat \<Rightarrow> nat \<Rightarrow> nat \<Rightarrow> nat option" where
  "skip_while P z zEnd incr p =
     (if p < zEnd \<and> 0 < incr then do {
        c \<leftarrow> rda z p;
        if P c then skip_while P z zEnd incr (p + incr) else Some p
      }
      else Some p)"
  by pat_completeness auto
termination
  by (relation "measure (\<lambda>(P, z, zEnd, incr, p). zEnd - p)") auto

function digit_loop :: "u8 list \<Rightarrow> nat \<Rightarrow> nat \<Rightarrow> nat \<Rightarrow> nat \<Rightarrow> u64 \<Rightarrow> (nat \<times> u64) option" where
  "digit_loop z zEnd incr p i u =
     (if p + i < zEnd \<and> 0 < incr then do {
        b \<leftarrow> rda z (p + i);
        let c = sint b;
        if 48 \<le> c \<and> c \<le> 57 then digit_loop z zEnd incr p (i + incr) (u * 10 + of_int c - 48)
        else Some (i, u)
      }
      else Some (i, u))"
  by pat_completeness auto
termination
  by (relation "measure (\<lambda>(z, zEnd, incr, p, i, u). zEnd - (p + i))") auto

declare skip_while.simps [simp del] digit_loop.simps [simp del]

fun pow63_loop :: "u8 list \<Rightarrow> nat \<Rightarrow> nat \<Rightarrow> int list \<Rightarrow> int option" where
  "pow63_loop z incr p (d # ds) = do {
     b \<leftarrow> rda z p;
     let c = (sint b - d) * 10;
     if c = 0 then pow63_loop z incr (p + incr) ds else Some c
   }"
| "pow63_loop z incr p [] = do { b \<leftarrow> rda z p; Some (sint b - 56) }"

abbreviation pow63 :: "int list" where
  "pow63 \<equiv> [57, 50, 50, 51, 51, 55, 50, 48, 51, 54, 56, 53, 52, 55, 55, 53, 56, 48]"

definition compare2pow63 :: "u8 list \<Rightarrow> nat \<Rightarrow> nat \<Rightarrow> int option" where
  "compare2pow63 z p incr = pow63_loop z incr p pow63"

abbreviation I64_MAX :: int where "I64_MAX \<equiv> 2 ^ 63 - 1"
abbreviation I64_MIN :: int where "I64_MIN \<equiv> - (2 ^ 63)"

abbreviation (input) SQLITE_UTF8 :: nat where "SQLITE_UTF8 \<equiv> 1"
abbreviation (input) SQLITE_UTF16LE :: nat where "SQLITE_UTF16LE \<equiv> 2"
abbreviation (input) SQLITE_UTF16BE :: nat where "SQLITE_UTF16BE \<equiv> 3"

text \<open>From the leading spaces to the end.\<close>

definition atoi64_body :: "u8 list \<Rightarrow> nat \<Rightarrow> bool \<Rightarrow> nat \<Rightarrow> nat \<Rightarrow> (nat \<times> int) option" where
  "atoi64_body z incr nonNum zEnd p = do {
     p \<leftarrow> skip_while sqlite3Isspace z zEnd incr p;
     (neg, p) \<leftarrow>
       (if p < zEnd then do {
          c \<leftarrow> rda z p;
          Some (if c = 0x2D then (True, p + incr) else if c = 0x2B then (False, p + incr) else (False, p))
        }
        else Some (False, p));
     let zStart = p;
     p \<leftarrow> skip_while (\<lambda>c. c = 0x30) z zEnd incr p;
     (i, u) \<leftarrow> digit_loop z zEnd incr p 0 0;
     let num = (if u > 0x7fffffffffffffff then if neg then I64_MIN else I64_MAX
                else if neg then - uint u else uint u);
     rc \<leftarrow>
       (if i = 0 \<and> zStart = p \<or> nonNum then Some 1
        else if p + i < zEnd then do {
          jj \<leftarrow> skip_while sqlite3Isspace z zEnd incr (p + i);
          Some (if jj < zEnd then 1 else 0)
        }
        else Some 0);
     if i < 19 * incr then Some (rc, num)
     else do {
       c \<leftarrow> (if i > 19 * incr then Some 1 else compare2pow63 z p incr);
       if c < 0 then Some (rc, num)
       else
         let num = (if neg then I64_MIN else I64_MAX)
         in if c > 0 then Some (2, num) else Some (if neg then rc else 3, num)
     }
   }"

definition sqlite3Atoi64 :: "u8 list \<Rightarrow> nat \<Rightarrow> (nat \<times> int) option" where
  "sqlite3Atoi64 z enc =
     (if enc = SQLITE_UTF8 then atoi64_body z 1 False (length z) 0
      else do {
        i \<leftarrow> skip_while (\<lambda>c. c = 0) z (length z) 2 (3 - enc);
        atoi64_body z 2 (i < length z) (i XOR 1) (enc AND 1)
      })"

definition sqlite3DecOrHexToI64 :: "u8 list \<Rightarrow> (nat \<times> int) option" where
  "sqlite3DecOrHexToI64 z = do {
     c0 \<leftarrow> rda z 0;
     hex \<leftarrow> (if c0 = 0x30 then do { c1 \<leftarrow> rda z 1; Some (c1 = 0x78 \<or> c1 = 0x58) } else Some False);
     if hex then do {
       let ds = dropWhile (\<lambda>c. c = 0x30) (drop 2 z);
       let hs = takeWhile sqlite3Isxdigit ds;
       let u = foldl (\<lambda>u h. u * 16 + ucast (sqlite3HexToInt h)) (0 :: u64) hs;
       e \<leftarrow> rda ds (length hs);
       Some (if e = 0 \<and> length hs \<le> 16 then 0 else 2, sint u)
     }
     else if 0 \<in> set z then sqlite3Atoi64 (takeWhile (\<lambda>c. c \<noteq> 0) z) SQLITE_UTF8
     else None
   }"

text \<open>The decimal loop of \<open>sqlite3GetInt32\<close>: at most eleven digits.\<close>

fun int32_digits :: "nat \<Rightarrow> u8 list \<Rightarrow> nat \<Rightarrow> int \<Rightarrow> (nat \<times> int) option" where
  "int32_digits 0 z i v = Some (i, v)"
| "int32_digits (Suc k) z i v =
     (case z of [] \<Rightarrow> None
      | b # z \<Rightarrow>
          let c = sint b - 48
          in if 0 \<le> c \<and> c \<le> 9 then int32_digits k z (i + 1) (v * 10 + c) else Some (i, v))"

fun int32_hex :: "nat \<Rightarrow> u8 list \<Rightarrow> u32 \<Rightarrow> (u8 list \<times> u32) option" where
  "int32_hex k [] u = None"
| "int32_hex k (b # z) u =
     (if sqlite3Isxdigit b \<and> 0 < k then int32_hex (k - 1) z (u * 16 + ucast (sqlite3HexToInt b))
      else Some (b # z, u))"

definition sqlite3GetInt32 :: "u8 list \<Rightarrow> int option option" where
  "sqlite3GetInt32 z = do {
     c0 \<leftarrow> rda z 0;
     let neg = (c0 = 0x2D);
     let z' = (if c0 = 0x2D \<or> c0 = 0x2B then drop 1 z else z);
     hex \<leftarrow> (if c0 = 0x30 then do {
               c1 \<leftarrow> rda z 1;
               if c1 = 0x78 \<or> c1 = 0x58 then do { c2 \<leftarrow> rda z 2; Some (sqlite3Isxdigit c2) } else Some False
             } else Some False);
     if hex then do {
       (rest, u) \<leftarrow> int32_hex 8 (dropWhile (\<lambda>c. c = 0x30) (drop 2 z)) 0;
       Some (if u AND 0x80000000 = 0 \<and> \<not> sqlite3Isxdigit (hd rest) then Some (uint u) else None)
     }
     else do {
       d \<leftarrow> rda z' 0;
       if \<not> sqlite3Isdigit d then Some None
       else do {
         (i, v) \<leftarrow> int32_digits 11 (dropWhile (\<lambda>c. c = 0x30) z') 0 0;
         Some (if i > 10 then None
               else if v - of_bool neg > 2147483647 then None
               else Some (if neg then - v else v))
       }
     }
   }"

definition sqlite3Atoi :: "u8 list option \<Rightarrow> int option" where
  "sqlite3Atoi z =
     (case z of None \<Rightarrow> Some 0
      | Some z \<Rightarrow> map_option (\<lambda>r. case r of None \<Rightarrow> 0 | Some x \<Rightarrow> x) (sqlite3GetInt32 z))"


section \<open>The value of a numeral\<close>

definition digits :: "u8 list \<Rightarrow> bool" where
  "digits ds \<longleftrightarrow> (\<forall>d\<in>set ds. sqlite3Isdigit d)"

definition dval :: "u8 list \<Rightarrow> nat" where
  "dval ds = foldl (\<lambda>v d. v * 10 + (unat d - 48)) 0 ds"

lemma digits_simps [simp]: "digits []" "digits (d # ds) = (sqlite3Isdigit d \<and> digits ds)" "digits (a @ b) = (digits a \<and> digits b)"
  by (auto simp: digits_def)

lemma dval_foldl: "foldl (\<lambda>v d. v * 10 + (unat (d::u8) - 48)) a ds = a * 10 ^ length ds + dval ds"
proof (induction ds arbitrary: a)
  case (Cons d ds)
  have "dval (d # ds) = (unat d - 48) * 10 ^ length ds + dval ds"
    using Cons.IH [of "unat d - 48"] by (simp add: dval_def)
  then show ?case using Cons.IH [of "a * 10 + (unat d - 48)"] by (simp add: algebra_simps)
qed (simp add: dval_def)

lemma dval_simps [simp]: "dval [] = 0" "dval (d # ds) = (unat d - 48) * 10 ^ length ds + dval ds"
  using dval_foldl [of "unat d - 48" ds] by (simp_all add: dval_def)

lemma dval_less: "digits ds \<Longrightarrow> dval ds < 10 ^ length ds"
proof (induction ds)
  case (Cons d ds)
  then have "unat d - 48 \<le> 9" "dval ds < 10 ^ length ds" by (auto simp: Isdigit_nat)
  then have "(unat d - 48) * 10 ^ length ds \<le> 9 * 10 ^ length ds" by (intro mult_right_mono) simp_all
  then show ?case using \<open>dval ds < _\<close> unfolding dval_simps list.size(4) add_Suc_right add_0_right power_Suc by linarith
qed simp

lemma dval_lower: "digits (d # ds) \<Longrightarrow> d \<noteq> 0x30 \<Longrightarrow> 10 ^ length ds \<le> dval (d # ds)"
proof -
  assume "digits (d # ds)" "d \<noteq> 0x30"
  then have "1 \<le> unat d - 48" by (auto simp: Isdigit_nat word_unat_eq_iff)
  then have "1 * 10 ^ length ds \<le> (unat d - 48) * 10 ^ length ds" by (intro mult_right_mono) simp_all
  then show ?thesis unfolding dval_simps by linarith
qed

lemma sint_digit: "(48 \<le> sint b \<and> sint b \<le> 57) \<longleftrightarrow> sqlite3Isdigit b" "sqlite3Isdigit b \<Longrightarrow> sint b = int (unat b)"
proof -
  have "map (\<lambda>n. 48 \<le> sint (of_nat n :: u8) \<and> sint (of_nat n :: u8) \<le> 57) [0..<256] = map (\<lambda>n. 48 \<le> n \<and> n \<le> 57) [0..<256]" by code_simp
  from arg_cong [OF this, of "\<lambda>xs. xs ! unat b"] show "(48 \<le> sint b \<and> sint b \<le> 57) \<longleftrightarrow> sqlite3Isdigit b"
    using unsigned_less [of b, where 'a = nat] by (simp add: Isdigit_nat del: upt_rec_numeral)
  have "map (\<lambda>n. n \<le> 57 \<longrightarrow> sint (of_nat n :: u8) = int n) [0..<256] = map (\<lambda>n. True) [0..<256]" by code_simp
  from arg_cong [OF this, of "\<lambda>xs. xs ! unat b"] show "sqlite3Isdigit b \<Longrightarrow> sint b = int (unat b)"
    using unsigned_less [of b, where 'a = nat] by (simp add: Isdigit_nat del: upt_rec_numeral)
qed

section \<open>The loops on a text\<close>

lemma rda_mid: "rda (pre @ c # post) (length pre) = Some c"
  by simp

lemma skip_while_run:
  assumes "\<forall>c\<in>set mid. P c" "post \<noteq> [] \<longrightarrow> \<not> P (hd post)"
  shows "skip_while P (pre @ mid @ post) (length (pre @ mid @ post)) 1 (length pre) = Some (length pre + length mid)"
  using assms(1)
proof (induction mid arbitrary: pre)
  case Nil
  then show ?case using assms(2) by (cases post) (subst skip_while.simps, simp)+
next
  case (Cons c mid)
  have "skip_while P (pre @ (c # mid) @ post) (length (pre @ (c # mid) @ post)) 1 (length pre) =
     skip_while P (pre @ (c # mid) @ post) (length (pre @ (c # mid) @ post)) 1 (length pre + 1)"
    using Cons.prems by (subst skip_while.simps) simp
  then show ?case using Cons.IH [of "pre @ [c]"] Cons.prems by simp
qed

lemma digit_loop_run:
  assumes "digits ds" "post \<noteq> [] \<longrightarrow> \<not> sqlite3Isdigit (hd post)" "length pre = p + i"
  shows "digit_loop (pre @ ds @ post) (length (pre @ ds @ post)) 1 p i u =
    Some (i + length ds, u * 10 ^ length ds + of_nat (dval ds))"
  using assms(1,3)
proof (induction ds arbitrary: pre i u)
  case Nil
  show ?case
  proof (cases post)
    case Nil
    then show ?thesis using Nil.prems by (subst digit_loop.simps) simp
  next
    case (Cons c post')
    have "rda (pre @ post) (p + i) = Some c" using Nil.prems(2) Cons by (metis rda_mid)
    then show ?thesis using Nil.prems assms(2) Cons sint_digit(1) [of c] by (subst digit_loop.simps) auto
  qed
next
  case (Cons d ds)
  have r: "rda (pre @ (d # ds) @ post) (p + i) = Some d" using Cons.prems(2) by (metis append_Cons rda_mid)
  have d: "sqlite3Isdigit d" "48 \<le> sint d" "sint d \<le> 57" using Cons.prems(1) sint_digit(1) [of d] by auto
  define n where "n = unat d"
  have n: "48 \<le> n" "sint d = int n" using d(1) sint_digit(2) [OF d(1)] by (simp_all add: n_def Isdigit_nat)
  have "(scast d :: u64) = of_int (sint d)" by simp
  also have "\<dots> = of_nat (n - 48) + 48" unfolding n(2) using n(1) by (simp add: of_nat_diff)
  finally have c: "(scast d :: u64) = of_nat (unat d - 48) + 48" by (simp only: n_def)
  have "digit_loop (pre @ (d # ds) @ post) (length (pre @ (d # ds) @ post)) 1 p i u =
    digit_loop ((pre @ [d]) @ ds @ post) (length ((pre @ [d]) @ ds @ post)) 1 p (i + 1) (u * 10 + of_nat (unat d - 48))"
    using r d(2,3) Cons.prems(2) by (subst digit_loop.simps) (simp add: Let_def c)
  also have "\<dots> = Some (i + 1 + length ds, (u * 10 + of_nat (unat d - 48)) * 10 ^ length ds + of_nat (dval ds))"
    by (rule Cons.IH) (use Cons.prems in simp_all)
  also have "(u * 10 + of_nat (unat d - 48)) * 10 ^ length ds + of_nat (dval ds) = u * 10 ^ length (d # ds) + of_nat (dval (d # ds))"
    unfolding dval_simps of_nat_add of_nat_mult of_nat_power of_nat_numeral list.size(4) by (simp add: distrib_right mult.assoc)
  finally show ?case by simp
qed

definition dvali :: "int list \<Rightarrow> int" where
  "dvali ds = foldl (\<lambda>v d. v * 10 + (d - 48)) 0 ds"

lemma dvali_foldl: "foldl (\<lambda>v d. v * 10 + (d - 48)) a ds = a * 10 ^ length ds + dvali ds"
proof (induction ds arbitrary: a)
  case (Cons d ds)
  have "dvali (d # ds) = (d - 48) * 10 ^ length ds + dvali ds"
    using Cons.IH [of "d - 48"] by (simp add: dvali_def)
  then show ?case using Cons.IH [of "a * 10 + (d - 48)"] by (simp add: algebra_simps)
qed (simp add: dvali_def)

lemma dvali_simps [simp]: "dvali [] = 0" "dvali (d # ds) = (d - 48) * 10 ^ length ds + dvali ds"
  using dvali_foldl [of "d - 48" ds] by (simp_all add: dvali_def)

lemma dvali_bound: "\<forall>d\<in>set ds. 48 \<le> d \<and> d \<le> 57 \<Longrightarrow> 0 \<le> dvali ds \<and> dvali ds < 10 ^ length ds"
proof (induction ds)
  case (Cons d ds)
  then have IH: "0 \<le> dvali ds" "dvali ds < 10 ^ length ds" and d: "0 \<le> d - 48" "d - 48 \<le> 9" by auto
  have "(d - 48) * 10 ^ length ds \<le> 9 * 10 ^ length ds" "0 \<le> (d - 48) * 10 ^ length ds"
    using d by (auto intro!: mult_right_mono)
  then show ?case using IH unfolding dvali_simps list.size(4) add_Suc_right add_0_right power_Suc by linarith
qed simp

lemma lex_scale: "\<bar>a\<bar> < b \<Longrightarrow> (c::int) \<noteq> 0 \<Longrightarrow> sgn (c * b + a) = sgn c"
proof -
  assume a: "\<bar>a\<bar> < b" and c: "c \<noteq> 0"
  show ?thesis
  proof (cases "c > 0")
    case True
    then have "1 * b \<le> c * b" using a by (intro mult_right_mono) auto
    then have "c * b + a > 0" using a by linarith
    then show ?thesis using True by simp
  next
    case False
    then have "c * b \<le> (-1) * b" using a c by (intro mult_right_mono) auto
    then have "c * b + a < 0" using a by linarith
    then show ?thesis using False c by (simp add: sgn_if)
  qed
qed

lemma abs_diff_bound: "x < n \<Longrightarrow> 0 \<le> y \<and> y < int n \<Longrightarrow> \<bar>int x - y\<bar> < int n"
  by linarith

lemma pow63_loop_run:
  assumes "digits (ds @ [e])" "length ds = length ps" "\<forall>d\<in>set ps. 48 \<le> d \<and> d \<le> 57"
  shows "map_option sgn (pow63_loop (pre @ ds @ e # post) 1 (length pre) ps) =
    Some (sgn (int (dval (ds @ [e])) - dvali (ps @ [56])))"
  using assms
proof (induction ds arbitrary: pre ps)
  case Nil
  have "sint e = int (unat e)" "48 \<le> unat e" using Nil sint_digit(2) [of e] by (simp_all add: Isdigit_nat)
  then show ?case using Nil by (simp add: of_nat_diff)
next
  case (Cons d ds)
  obtain q qs where ps: "ps = q # qs" using Cons.prems(2) by (cases ps) auto
  have d: "sqlite3Isdigit d" "sint d = int (unat d)" "48 \<le> unat d" using Cons.prems(1) sint_digit(2) [of d] by (simp_all add: Isdigit_nat)
  have len: "length (qs @ [56 :: int]) = length (ds @ [e])" using Cons.prems(2) ps by simp
  have v: "int (dval ((d # ds) @ [e])) - dvali (ps @ [56]) =
      (sint d - q) * 10 ^ length (ds @ [e]) + (int (dval (ds @ [e])) - dvali (qs @ [56]))"
  proof -
    have w: "int (unat d - 48) = sint d - 48" using d by simp
    show ?thesis unfolding ps append_Cons dvali_simps dval_simps len of_nat_add of_nat_mult w by (simp add: algebra_simps)
  qed
  show ?case
  proof (cases "sint d = q")
    case True
    then have "pow63_loop (pre @ (d # ds) @ e # post) 1 (length pre) ps = pow63_loop ((pre @ [d]) @ ds @ e # post) 1 (length (pre @ [d])) qs"
      by (simp add: ps)
    then show ?thesis using Cons.IH [of qs "pre @ [d]"] Cons.prems True by (simp only: v) (simp add: ps)
  next
    case False
    have "dval (ds @ [e]) < 10 ^ length (ds @ [e])" using dval_less [of "ds @ [e]"] Cons.prems(1) by simp
    moreover have "0 \<le> dvali (qs @ [56]) \<and> dvali (qs @ [56]) < 10 ^ length (ds @ [e])"
      using dvali_bound [of "qs @ [56]"] Cons.prems(3) len by (auto simp: ps)
    ultimately have "\<bar>int (dval (ds @ [e])) - dvali (qs @ [56])\<bar> < int (10 ^ length (ds @ [e]))"
      by (intro abs_diff_bound) simp_all
    then have "sgn (int (dval ((d # ds) @ [e])) - dvali (ps @ [56])) = sgn (sint d - q)"
      unfolding v using False by (intro lex_scale) simp_all
    moreover have "sgn ((sint d - q) * 10) = sgn (sint d - q)" by (cases "sint d" q rule: linorder_cases) (simp_all add: sgn_if)
    ultimately show ?thesis using False by (simp add: ps)
  qed
qed

section \<open>sqlite3Atoi64\<close>

text \<open>The result for a text with the given sign, digits and rest.\<close>

definition atoi64_spec :: "bool \<Rightarrow> u8 list \<Rightarrow> u8 list \<Rightarrow> nat \<times> int" where
  "atoi64_spec neg ds rest =
     (let v = int (dval ds);
          rc = (if ds = [] \<or> \<not> (\<forall>c\<in>set rest. sqlite3Isspace c) then 1 else 0)
      in if v < 2 ^ 63 then (rc, if neg then - v else v)
         else if v = 2 ^ 63 then if neg then (rc, I64_MIN) else (3, I64_MAX)
         else (2, if neg then I64_MIN else I64_MAX))"

definition number_text :: "u8 list \<Rightarrow> u8 list \<Rightarrow> u8 list \<Rightarrow> u8 list \<Rightarrow> bool" where
  "number_text sp sign ds rest \<longleftrightarrow>
     (\<forall>c\<in>set sp. sqlite3Isspace c) \<and> sign \<in> {[], [0x2D], [0x2B]} \<and> digits ds \<and>
     (rest \<noteq> [] \<longrightarrow> \<not> sqlite3Isdigit (hd rest)) \<and>
     (sign = [] \<and> ds = [] \<and> rest \<noteq> [] \<longrightarrow> \<not> sqlite3Isspace (hd rest) \<and> hd rest \<notin> {0x2D, 0x2B})"

lemma space_digit: "sqlite3Isdigit c \<Longrightarrow> \<not> sqlite3Isspace c \<and> c \<noteq> 0x2D \<and> c \<noteq> 0x2B"
  by (auto simp: Isdigit_nat Isspace_nat)

lemma dval_dropzero: "dval (dropWhile (\<lambda>c. c = 0x30) ds) = dval ds"
  by (induction ds) auto

lemma digits_dropWhile: "digits ds \<Longrightarrow> digits (dropWhile P ds)"
  by (auto simp: digits_def dest: set_dropWhileD)

lemma sig_digits:
  assumes "digits ds"
  defines "s \<equiv> dropWhile (\<lambda>c. c = 0x30) ds"
  shows "dval ds < 10 ^ length s" "s \<noteq> [] \<Longrightarrow> 10 ^ (length s - 1) \<le> dval ds"
proof -
  have s: "digits s" "dval s = dval ds" using assms by (simp_all add: digits_dropWhile dval_dropzero)
  show "dval ds < 10 ^ length s" using dval_less [OF s(1)] s(2) by simp
  show "10 ^ (length s - 1) \<le> dval ds" if "s \<noteq> []"
  proof -
    obtain d r where "s = d # r" using \<open>s \<noteq> []\<close> by (cases s) auto
    moreover have "d \<noteq> 0x30" using calculation hd_dropWhile [of "\<lambda>c. c = 0x30" ds] by (simp add: s_def)
    ultimately show ?thesis using dval_lower [of d r] s by simp
  qed
qed

lemma pow63_value: "dvali (pow63 @ [56]) = 2 ^ 63"
  by code_simp

lemma all_takeWhile: "(\<forall>c\<in>set xs. P c) \<longleftrightarrow> \<not> length (takeWhile P xs) < length xs"
  by (induction xs) auto

lemma Atoi64_lemma:
  assumes t: "number_text sp sign ds rest"
  shows "sqlite3Atoi64 (sp @ sign @ ds @ rest) SQLITE_UTF8 = Some (atoi64_spec (sign = [0x2D]) ds rest)"
proof -
  let ?z = "sp @ sign @ ds @ rest" and ?neg = "sign = [0x2D]"
  let ?n = "length ?z"
  define zs where "zs = takeWhile (\<lambda>c. c = 0x30) ds"
  define sg where "sg = dropWhile (\<lambda>c. c = 0x30) ds"
  have ds: "ds = zs @ sg" by (simp add: zs_def sg_def)
  have dg: "digits ds" "digits sg" using t by (simp_all add: number_text_def sg_def digits_dropWhile)
  have hds: "sign @ ds @ rest \<noteq> [] \<longrightarrow> \<not> sqlite3Isspace (hd (sign @ ds @ rest))"
    using t space_digit by (cases ds; auto simp: number_text_def Isspace_nat)
  have s1: "skip_while sqlite3Isspace ?z ?n 1 0 = Some (length sp)"
    using skip_while_run [of sp sqlite3Isspace "sign @ ds @ rest" "[]"] t hds by (simp add: number_text_def)
  have s2: "(if length sp < ?n then do {
          c \<leftarrow> rda ?z (length sp);
          Some (if c = 0x2D then (True, length sp + 1) else if c = 0x2B then (False, length sp + 1) else (False, length sp))
        } else Some (False, length sp)) = Some (?neg, length (sp @ sign))"
  proof (cases "sign = []")
    case True
    show ?thesis
    proof (cases "ds @ rest")
      case Nil
      then show ?thesis using True by simp
    next
      case (Cons c r)
      then have "c \<noteq> 0x2D" "c \<noteq> 0x2B"
        using t True space_digit by (cases ds; auto simp: number_text_def)+
      then show ?thesis using True Cons rda_mid [of sp c r] by simp
    qed
  next
    case False
    then consider "sign = [0x2D]" | "sign = [0x2B]" using t by (auto simp: number_text_def)
    then show ?thesis by cases simp_all
  qed
  have hsg: "sg @ rest \<noteq> [] \<longrightarrow> hd (sg @ rest) \<noteq> 0x30"
  proof (cases sg)
    case Nil
    then show ?thesis using t by (auto simp: number_text_def Isdigit_nat)
  next
    case (Cons d r)
    then show ?thesis using hd_dropWhile [of "\<lambda>c. c = 0x30" ds] by (simp add: sg_def)
  qed
  have zz: "\<forall>c\<in>set zs. c = 0x30" unfolding zs_def by (auto dest: set_takeWhileD)
  have s3: "skip_while (\<lambda>c. c = 0x30) ?z ?n 1 (length (sp @ sign)) = Some (length (sp @ sign @ zs))"
    using skip_while_run [of zs "\<lambda>c. c = 0x30" "sg @ rest" "sp @ sign"] hsg zz
    by (simp add: ds add.assoc)
  have s4: "digit_loop ?z ?n 1 (length (sp @ sign @ zs)) 0 0 = Some (length sg, of_nat (dval sg))"
    using digit_loop_run [of sg rest "sp @ sign @ zs" "length (sp @ sign @ zs)" 0 0] dg(2) t
    by (simp add: ds number_text_def)
  let ?rc = "if ds = [] \<or> \<not> (\<forall>c\<in>set rest. sqlite3Isspace c) then 1 else 0 :: nat"
  have e0: "length sg = 0 \<and> length (sp @ sign) = length (sp @ sign @ zs) \<longleftrightarrow> ds = []" by (auto simp: ds)
  have s5: "(if length sg = 0 \<and> length (sp @ sign) = length (sp @ sign @ zs) \<or> False then Some 1
      else if length (sp @ sign @ zs) + length sg < ?n then do {
          jj \<leftarrow> skip_while sqlite3Isspace ?z ?n 1 (length (sp @ sign @ zs) + length sg);
          Some (if jj < ?n then 1 else 0)
        } else Some 0) = Some ?rc"
  proof -
    have sk: "skip_while sqlite3Isspace ?z ?n 1 (length (sp @ sign @ ds)) =
       Some (length (sp @ sign @ ds) + length (takeWhile sqlite3Isspace rest))"
      using skip_while_run [of "takeWhile sqlite3Isspace rest" sqlite3Isspace "dropWhile sqlite3Isspace rest" "sp @ sign @ ds"]
      by (auto simp: hd_dropWhile dest: set_takeWhileD)
    have all: "(\<forall>c\<in>set rest. sqlite3Isspace c) \<longleftrightarrow> \<not> length (takeWhile sqlite3Isspace rest) < length rest"
      by (rule all_takeWhile)
    show ?thesis using sk all e0 by (cases "rest = []") (simp_all add: ds add.assoc)
  qed
  have sig: "dval ds < 10 ^ length sg" "sg \<noteq> [] \<Longrightarrow> 10 ^ (length sg - 1) \<le> dval ds" "dval sg = dval ds"
    using sig_digits [OF dg(1)] by (simp_all add: sg_def dval_dropzero)
  define num where "num = (if of_nat (dval sg) > (0x7fffffffffffffff :: u64) then if ?neg then I64_MIN else I64_MAX
                else if ?neg then - uint (of_nat (dval sg) :: u64) else uint (of_nat (dval sg) :: u64))"
  have num: "num = (if ?neg then - int (dval ds) else int (dval ds))" if "int (dval ds) < 2 ^ 63"
  proof -
    have "dval ds < 2 ^ 63" using that by simp
    then have "unat (of_nat (dval sg) :: u64) = dval ds" using sig(3) by (simp add: unat_of_nat)
    then show ?thesis using that by (simp add: num_def word_less_nat_alt uint_nat)
  qed
  have cmp: "map_option sgn (compare2pow63 ?z (length (sp @ sign @ zs)) 1) = Some (sgn (int (dval ds) - 2 ^ 63))" if "length sg = 19"
  proof -
    obtain a e where ae: "sg = a @ [e]" "length a = 18" using \<open>length sg = 19\<close> by (cases sg rule: rev_cases) auto
    then show ?thesis
      using pow63_loop_run [of a e pow63 "sp @ sign @ zs" rest] dg(2) sig(3) pow63_value
      by (simp add: compare2pow63_def ds)
  qed
  have eq: "sqlite3Atoi64 ?z SQLITE_UTF8 =
    (if length sg < 19 then Some (?rc, num)
     else do {
       c \<leftarrow> (if length sg > 19 then Some 1 else compare2pow63 ?z (length (sp @ sign @ zs)) 1);
       if c < 0 then Some (?rc, num)
       else
         let num = (if ?neg then I64_MIN else I64_MAX)
         in if c > 0 then Some (2, num) else Some (if ?neg then ?rc else 3, num)
     })"
    unfolding sqlite3Atoi64_def atoi64_body_def num_def
    by (simp only: refl if_True bind.bind_lunit prod.case s1 s2 s3 s4 s5 Let_def mult_1_right)
  show ?thesis
  proof (cases "length sg < 19")
    case True
    have "(10::nat) ^ length sg \<le> 10 ^ 18" using True by (intro power_increasing) simp_all
    then have "int (dval ds) < 2 ^ 63" using sig(1) by simp
    then show ?thesis unfolding eq using True num by (simp add: atoi64_spec_def)
  next
    case False
    show ?thesis
    proof (cases "length sg > 19")
      case True
      have "(10::nat) ^ 19 \<le> 10 ^ (length sg - 1)" using True by (intro power_increasing) simp_all
      moreover have "10 ^ (length sg - 1) \<le> dval ds" using sig(2) True by fastforce
      ultimately have "2 ^ 63 < int (dval ds)" by simp
      then show ?thesis unfolding eq using True by (simp add: atoi64_spec_def)
    next
      case F: False
      then have 19: "length sg = 19" using False by simp
      obtain c where c: "compare2pow63 ?z (length (sp @ sign @ zs)) 1 = Some c" "sgn c = sgn (int (dval ds) - 2 ^ 63)"
        using cmp [OF 19] by auto
      consider "c < 0" "int (dval ds) < 2 ^ 63" | "c = 0" "int (dval ds) = 2 ^ 63" | "c > 0" "int (dval ds) > 2 ^ 63"
        using c(2) by (auto simp: sgn_if split: if_splits)
      then show ?thesis
        unfolding eq by cases (use 19 c(1) num in \<open>simp_all add: atoi64_spec_def\<close>)
    qed
  qed
qed

section \<open>Sixteen-bit encodings\<close>

text \<open>ASCII text as UTF-16: each character with a zero byte after (\<open>b = 0\<close>) or before it.\<close>

definition utf16 :: "nat \<Rightarrow> u8 list \<Rightarrow> u8 list" where
  "utf16 b s = concat (map (\<lambda>c. if b = 0 then [c, 0] else [0, c]) s)"

lemma length_utf16 [simp]: "length (utf16 b s) = 2 * length s"
  by (induction s) (simp_all add: utf16_def)

lemma utf16_nth: "p < length s \<Longrightarrow> utf16 b s ! (2 * p + of_bool (b \<noteq> 0)) = s ! p"
proof (induction s arbitrary: p)
  case (Cons c s)
  then show ?case by (cases p) (auto simp: utf16_def)
qed simp

lemma utf16_rda: "b \<le> 1 \<Longrightarrow> p < length s \<Longrightarrow> rda (utf16 b s) (2 * p + b) = rda s p"
  using utf16_nth [of p s b] by (auto simp: rda_def le_Suc_eq)

lemma skip_while_utf16:
  "b \<le> 1 \<Longrightarrow> skip_while P (utf16 b s) (2 * length s + b) 2 (2 * p + b) =
     map_option (\<lambda>q. 2 * q + b) (skip_while P s (length s) 1 p)"
proof (induction "length s - p" arbitrary: p)
  case 0
  then show ?case by (simp add: skip_while.simps [of P "utf16 b s"] skip_while.simps [of P s])
next
  case (Suc k)
  then have "p < length s" by simp
  moreover have "skip_while P (utf16 b s) (2 * length s + b) 2 (2 * Suc p + b) =
     map_option (\<lambda>q. 2 * q + b) (skip_while P s (length s) 1 (Suc p))"
    using Suc.hyps(1) [of "Suc p"] Suc.hyps(2) Suc.prems by simp
  ultimately show ?case
    using utf16_rda [of b p s] Suc.prems
    by (subst skip_while.simps, subst (2) skip_while.simps) auto
qed

lemma digit_loop_utf16:
  "b \<le> 1 \<Longrightarrow> digit_loop (utf16 b s) (2 * length s + b) 2 (2 * p + b) (2 * i) u =
     map_option (\<lambda>(i, u). (2 * i, u)) (digit_loop s (length s) 1 p i u)"
proof (induction "length s - (p + i)" arbitrary: i u)
  case 0
  then show ?case by (simp add: digit_loop.simps [of "utf16 b s"] digit_loop.simps [of s])
next
  case (Suc k)
  then have "p + i < length s" by simp
  moreover have "digit_loop (utf16 b s) (2 * length s + b) 2 (2 * p + b) (2 * Suc i) u =
     map_option (\<lambda>(i, u). (2 * i, u)) (digit_loop s (length s) 1 p (Suc i) u)" for u
    using Suc.hyps(1) [of "Suc i"] Suc.hyps(2) Suc.prems by simp
  moreover have "rda (utf16 b s) (2 * p + b + 2 * i) = rda s (p + i)"
    using utf16_rda [of b "p + i" s] Suc.prems \<open>p + i < length s\<close> by (simp add: algebra_simps)
  ultimately show ?case
    using Suc.prems by (subst digit_loop.simps, subst (2) digit_loop.simps) (auto simp: Let_def)
qed

lemma pow63_loop_utf16:
  "b \<le> 1 \<Longrightarrow> p + length ps < length s \<Longrightarrow> pow63_loop (utf16 b s) 2 (2 * p + b) ps = pow63_loop s 1 p ps"
proof (induction ps arbitrary: p)
  case Nil
  then show ?case using utf16_rda [of b p s] by simp
next
  case (Cons d ps)
  have "pow63_loop (utf16 b s) 2 (2 * Suc p + b) ps = pow63_loop s 1 (Suc p) ps"
    using Cons.IH [of "Suc p"] Cons.prems by simp
  then show ?case using utf16_rda [of b p s] Cons.prems by simp
qed

lemma skip_zero_utf16:
  assumes "b \<le> 1"
  shows "skip_while (\<lambda>c. c = 0) (utf16 b s) (2 * length s) 2 (2 * p + (1 - b)) = Some (2 * max p (length s) + (1 - b))"
proof (induction "length s - p" arbitrary: p)
  case 0
  then show ?case by (subst skip_while.simps) (simp add: max_def)
next
  case (Suc k)
  then have p: "p < length s" by simp
  have "utf16 b s ! (2 * p + (1 - b)) = 0"
    using p assms
  proof (induction s arbitrary: p)
    case (Cons c s)
    then show ?case by (cases p) (auto simp: utf16_def le_Suc_eq)
  qed simp
  moreover have "skip_while (\<lambda>c. c = 0) (utf16 b s) (2 * length s) 2 (2 * Suc p + (1 - b)) = Some (2 * max (Suc p) (length s) + (1 - b))"
    by (rule Suc.hyps(1)) (use Suc.hyps(2) in simp)
  ultimately show ?case using p assms by (subst skip_while.simps) (auto simp: max_def)
qed

lemma digit_loop_le: "digit_loop z n 1 p i u = Some (j, v) \<Longrightarrow> p + i \<le> n \<Longrightarrow> p + j \<le> n"
proof (induction z n "1 :: nat" p i u rule: digit_loop.induct)
  case (1 z n p i u)
  show ?case
  proof (cases "p + i < n")
    case True
    then obtain b where b: "rda z (p + i) = Some b" using 1(2) by (subst (asm) digit_loop.simps) (auto split: bind_splits)
    show ?thesis
    proof (cases "48 \<le> sint b \<and> sint b \<le> 57")
      case d: True
      then have "digit_loop z n 1 p (i + 1) (u * 10 + of_int (sint b) - 48) = Some (j, v)"
        using 1(2) True b by (subst (asm) digit_loop.simps) simp
      then show ?thesis using 1(1) [of b "sint b"] True b d by simp
    next
      case False
      then show ?thesis using 1(2,3) True b by (subst (asm) digit_loop.simps) auto
    qed
  next
    case False
    then show ?thesis using 1(2,3) by (subst (asm) digit_loop.simps) auto
  qed
qed

lemma skip_while_some: "length z = n \<Longrightarrow> p \<le> n \<Longrightarrow> \<exists>q. skip_while P z n 1 p = Some q \<and> p \<le> q \<and> q \<le> n"
proof (induction "n - p" arbitrary: p)
  case 0
  then show ?case by (subst skip_while.simps) simp
next
  case (Suc k)
  have "\<exists>q. skip_while P z n 1 (Suc p) = Some q \<and> Suc p \<le> q \<and> q \<le> n"
    by (rule Suc.hyps(1)) (use Suc in simp_all)
  then obtain q where "skip_while P z n 1 (Suc p) = Some q" "Suc p \<le> q" "q \<le> n" by blast
  then show ?case using Suc.prems Suc.hyps(2) by (subst skip_while.simps) (auto intro: Suc_leD)
qed

lemma digit_loop_some: "length z = n \<Longrightarrow> \<exists>j v. digit_loop z n 1 p i u = Some (j, v)"
proof (induction "n - (p + i)" arbitrary: i u)
  case 0
  then show ?case by (subst digit_loop.simps) simp
next
  case (Suc k)
  then have "\<exists>j v. digit_loop z n 1 p (Suc i) u = Some (j, v)" for u by auto
  then show ?case using Suc.prems Suc.hyps(2) by (subst digit_loop.simps) (auto simp: Let_def)
qed

lemma atoi64_body_utf16:
  assumes b: "b \<le> 1" and p: "p \<le> length s"
  shows "atoi64_body (utf16 b s) 2 False (2 * length s + b) (2 * p + b) = atoi64_body s 1 False (length s) p"
proof -
  let ?u = "utf16 b s" and ?e = "2 * length s + b"
  obtain p1 where p1: "skip_while sqlite3Isspace s (length s) 1 p = Some p1" "p1 \<le> length s"
    using skip_while_some [OF refl p] by blast
  have q1: "skip_while sqlite3Isspace ?u ?e 2 (2 * p + b) = Some (2 * p1 + b)"
    using skip_while_utf16 [OF b] p1(1) by simp
  obtain neg p2 where p2: "(if p1 < length s then do {
          c \<leftarrow> rda s p1;
          Some (if c = 0x2D then (True, p1 + 1) else if c = 0x2B then (False, p1 + 1) else (False, p1))
        } else Some (False, p1)) = Some (neg, p2)" "p2 \<le> length s"
    using p1(2) that by (cases "p1 < length s"; cases "s ! p1 = 0x2D"; cases "s ! p1 = 0x2B") auto
  have q2: "(if 2 * p1 + b < ?e then do {
          c \<leftarrow> rda ?u (2 * p1 + b);
          Some (if c = 0x2D then (True, 2 * p1 + b + 2) else if c = 0x2B then (False, 2 * p1 + b + 2) else (False, 2 * p1 + b))
        } else Some (False, 2 * p1 + b)) = Some (neg, 2 * p2 + b)"
    using p2(1) utf16_rda [OF b, of p1 s] by (auto split: if_splits)
  obtain p3 where p3: "skip_while (\<lambda>c. c = 0x30) s (length s) 1 p2 = Some p3" "p3 \<le> length s"
    using skip_while_some [OF refl p2(2)] by blast
  have q3: "skip_while (\<lambda>c. c = 0x30) ?u ?e 2 (2 * p2 + b) = Some (2 * p3 + b)"
    using skip_while_utf16 [OF b] p3(1) by simp
  obtain i u where i: "digit_loop s (length s) 1 p3 0 0 = Some (i, u)" using digit_loop_some [OF refl] by blast
  have qi: "digit_loop ?u ?e 2 (2 * p3 + b) 0 0 = Some (2 * i, u)"
    using digit_loop_utf16 [OF b, of s p3 0 0] i by simp
  have ile: "p3 + i \<le> length s" using digit_loop_le [OF i] p3(2) by simp
  obtain jj where jj: "skip_while sqlite3Isspace s (length s) 1 (p3 + i) = Some jj"
    using skip_while_some [OF refl ile] by blast
  have qj: "skip_while sqlite3Isspace ?u ?e 2 (2 * p3 + b + 2 * i) = Some (2 * jj + b)"
    using skip_while_utf16 [OF b, of sqlite3Isspace s "p3 + i"] jj by (simp add: algebra_simps)
  have cmp: "i = 19 \<Longrightarrow> compare2pow63 ?u (2 * p3 + b) 2 = compare2pow63 s p3 1"
    unfolding compare2pow63_def by (rule pow63_loop_utf16 [OF b]) (use ile in simp)
  show ?thesis
    unfolding atoi64_body_def p1 q1 bind.bind_lunit p2 q2 prod.case p3 q3 Let_def i qi jj qj
    using cmp by (cases "i = 19") auto
qed

lemma Atoi64_utf16_lemma:
  assumes "b \<le> 1"
  shows "sqlite3Atoi64 (utf16 b s) (SQLITE_UTF16LE + b) = sqlite3Atoi64 s SQLITE_UTF8"
proof -
  have z: "skip_while (\<lambda>c. c = 0) (utf16 b s) (2 * length s) 2 (3 - (2 + b)) = Some (2 * length s + (1 - b))"
    using skip_zero_utf16 [OF assms, of s 0] by simp
  have x: "(2 * length s + (1 - b)) XOR 1 = 2 * length s + b" "(2 + b) AND 1 = b" "\<not> 2 * length s + (1 - b) < 2 * length s"
    using assms by (auto simp: le_Suc_eq xor_Suc_0_eq)
  have "sqlite3Atoi64 (utf16 b s) (SQLITE_UTF16LE + b) = atoi64_body (utf16 b s) 2 False (2 * length s + b) (2 * 0 + b)"
    unfolding sqlite3Atoi64_def using z x by simp
  then show ?thesis using atoi64_body_utf16 [OF assms, of 0 s] by (simp add: sqlite3Atoi64_def)
qed

section \<open>sqlite3GetInt32\<close>

lemma int32_digits_run:
  assumes "digits ds" "\<not> sqlite3Isdigit e"
  shows "int32_digits k (ds @ e # x) i v =
    (if k \<le> length ds then Some (i + k, v * 10 ^ k + int (dval (take k ds)))
     else Some (i + length ds, v * 10 ^ length ds + int (dval ds)))"
  using assms(1)
proof (induction ds arbitrary: k i v)
  case Nil
  have "\<not> (0 \<le> sint e - 48 \<and> sint e - 48 \<le> 9)" using sint_digit(1) [of e] assms(2) by auto
  then show ?case by (cases k) (auto simp: Let_def)
next
  case (Cons d ds)
  have d: "sqlite3Isdigit d" "digits ds" using Cons.prems by simp_all
  have c: "0 \<le> sint d - 48" "sint d - 48 \<le> 9" "sint d - 48 = int (unat d - 48)"
    using d(1) sint_digit [of d] by (auto simp: Isdigit_nat)
  show ?case
  proof (cases k)
    case (Suc k')
    have "int32_digits k (d # ds @ e # x) i v = int32_digits k' (ds @ e # x) (i + 1) (v * 10 + int (unat d - 48))"
      unfolding Suc using c by (simp add: Let_def)
    also have "\<dots> = (if k' \<le> length ds then Some (i + 1 + k', (v * 10 + int (unat d - 48)) * 10 ^ k' + int (dval (take k' ds)))
       else Some (i + 1 + length ds, (v * 10 + int (unat d - 48)) * 10 ^ length ds + int (dval ds)))"
      by (rule Cons.IH [OF d(2)])
    finally show ?thesis by (simp add: Suc distrib_right min_def)
  qed simp
qed

definition getint32_spec :: "bool \<Rightarrow> u8 list \<Rightarrow> int option" where
  "getint32_spec neg ds =
     (let v = (if neg then - int (dval ds) else int (dval ds))
      in if - (2 ^ 31) \<le> v \<and> v < 2 ^ 31 then Some v else None)"

lemma dropzero_append:
  "\<not> sqlite3Isdigit e \<Longrightarrow> dropWhile (\<lambda>c. c = 0x30) (ds @ e # x) = dropWhile (\<lambda>c. c = 0x30) ds @ e # x"
  by (induction ds) (auto simp: Isdigit_nat)

lemma GetInt32_lemma:
  assumes ds: "digits ds" "ds \<noteq> []" and sign: "sign \<in> {[], [0x2D], [0x2B]}" and e: "\<not> sqlite3Isdigit e"
    and hex: "\<not> (sign = [] \<and> ds = [0x30] \<and> e \<in> {0x78, 0x58})"
  shows "sqlite3GetInt32 (sign @ ds @ e # x) = Some (getint32_spec (sign = [0x2D]) ds)"
proof -
  let ?z = "sign @ ds @ e # x" and ?neg = "sign = [0x2D]"
  define sg where "sg = dropWhile (\<lambda>c. c = 0x30) ds"
  have dg: "digits sg" "dval sg = dval ds" using ds by (simp_all add: sg_def digits_dropWhile dval_dropzero)
  have sig: "dval ds < 10 ^ length sg" "sg \<noteq> [] \<Longrightarrow> 10 ^ (length sg - 1) \<le> dval ds"
    using sig_digits [OF ds(1)] by (simp_all add: sg_def)
  obtain d0 dr where d0: "ds = d0 # dr" "sqlite3Isdigit d0" using ds by (cases ds) auto
  have nd: "d0 \<noteq> 0x2D" "d0 \<noteq> 0x2B" using space_digit [OF d0(2)] by simp_all
  obtain c0 where c0: "rda ?z 0 = Some c0" "c0 = 0x2D \<longleftrightarrow> ?neg" "c0 = 0x2D \<or> c0 = 0x2B \<longleftrightarrow> sign \<noteq> []" "sign = [] \<Longrightarrow> c0 = d0"
    using sign d0 nd by auto
  have z': "(if c0 = 0x2D \<or> c0 = 0x2B then drop 1 ?z else ?z) = ds @ e # x"
    using c0(3) sign by auto
  have h: "(if c0 = 0x30 then do {
               c1 \<leftarrow> rda ?z 1;
               if c1 = 0x78 \<or> c1 = 0x58 then do { c2 \<leftarrow> rda ?z 2; Some (sqlite3Isxdigit c2) } else Some False
             } else Some False) = Some False"
  proof (cases "c0 = 0x30")
    case True
    then have "sign = []" using c0(3) by auto
    moreover have "rda ?z 1 = Some (hd (dr @ e # x))" using \<open>sign = []\<close> d0 by (cases dr) simp_all
    moreover have "hd (dr @ e # x) \<noteq> 0x78 \<and> hd (dr @ e # x) \<noteq> 0x58"
    proof (cases dr)
      case Nil
      then show ?thesis using hex True c0(4) \<open>sign = []\<close> d0 by auto
    next
      case (Cons d r)
      then have "sqlite3Isdigit d" using ds d0 by simp
      then show ?thesis using Cons by (auto simp: Isdigit_nat)
    qed
    ultimately show ?thesis using True by simp
  qed simp
  have dr: "int32_digits 11 (dropWhile (\<lambda>c. c = 0x30) (ds @ e # x)) 0 0 =
    (if 11 \<le> length sg then Some (11, int (dval (take 11 sg))) else Some (length sg, int (dval ds)))"
    unfolding dropzero_append [OF e] sg_def [symmetric]
    using int32_digits_run [OF dg(1) e, of 11 x 0 0] dg(2) by simp
  have eq: "sqlite3GetInt32 ?z =
    (if 11 \<le> length sg then Some None
     else Some (if int (dval ds) - of_bool ?neg > 2147483647 then None else Some (if ?neg then - int (dval ds) else int (dval ds))))"
    unfolding sqlite3GetInt32_def c0(1) bind.bind_lunit Let_def h z' if_False dr
    using d0 c0(2) by simp
  show ?thesis
  proof (cases "11 \<le> length sg")
    case True
    have "(10::nat) ^ 10 \<le> 10 ^ (length sg - 1)" using True by (intro power_increasing) simp_all
    then have "10 ^ 10 \<le> dval ds" using sig(2) True by fastforce
    then have "10 ^ 10 \<le> int (dval ds)" by simp
    then show ?thesis unfolding eq using True by (simp add: getint32_spec_def Let_def)
  next
    case False
    then show ?thesis unfolding eq by (cases ?neg) (auto simp: getint32_spec_def Let_def)
  qed
qed

section \<open>Properties\<close>

text \<open>
  Property C17. \<open>sqlite3Atoi64\<close> on any text, taken apart into leading spaces, sign, digits and
  rest. If the value fits in 64 bits it is stored, and the code is \<open>1\<close> when there are no digits at all or
  something other than spaces follows them, and \<open>0\<close> otherwise. If it does not fit the nearest limit is stored
  and the code is \<open>2\<close>, or \<open>3\<close> for \<open>9223372036854775808\<close> without a minus sign, whatever follows. (The comment
  above the function gives \<open>2\<close> to a malformed text; the code gives \<open>1\<close>, as for the empty text.)
\<close>

theorem Atoi64_correct:
  assumes "number_text sp sign ds rest"
  shows "sqlite3Atoi64 (sp @ sign @ ds @ rest) SQLITE_UTF8 = Some (atoi64_spec (sign = [0x2D]) ds rest)"
  using assms by (rule Atoi64_lemma)

theorem Atoi64_correct_witness:
  "sqlite3Atoi64 [0x20, 0x2D, 0x34, 0x32, 0x20] SQLITE_UTF8 = Some (0, -42) \<and>
   sqlite3Atoi64 [0x2D, 0x61] SQLITE_UTF8 = Some (1, 0)"
proof -
  have "number_text [] [0x2D] [] [0x61]" by code_simp
  moreover have "atoi64_spec ([0x2D] = [0x2D :: u8]) [] [0x61] = (1, 0)" by code_simp
  ultimately have "sqlite3Atoi64 [0x2D, 0x61] SQLITE_UTF8 = Some (1, 0)"
    using Atoi64_correct [of "[]" "[0x2D]" "[]" "[0x61]"] by simp
  moreover have "number_text [0x20] [0x2D] [0x34, 0x32] [0x20]" by code_simp
  moreover have "atoi64_spec ([0x2D] = [0x2D :: u8]) [0x34, 0x32] [0x20] = (0, -42)" by code_simp
  ultimately show ?thesis using Atoi64_correct [of "[0x20]" "[0x2D]" "[0x34, 0x32]" "[0x20]"] by simp
qed

text \<open>
  Property C36. \<open>sqlite3Atoi64\<close> gives the same answer for text in UTF-16, little-endian
  (\<open>b = 0\<close>) or big-endian (\<open>b = 1\<close>), as for the same characters in UTF-8.
\<close>

theorem Atoi64_utf16:
  assumes "b \<le> 1"
  shows "sqlite3Atoi64 (utf16 b s) (SQLITE_UTF16LE + b) = sqlite3Atoi64 s SQLITE_UTF8"
  using assms by (rule Atoi64_utf16_lemma)

theorem Atoi64_utf16_witness:
  "sqlite3Atoi64 [0, 0x34, 0, 0x32] SQLITE_UTF16BE = sqlite3Atoi64 [0x34, 0x32] SQLITE_UTF8"
proof -
  have le: "(1 :: nat) \<le> 1" and eq: "utf16 1 [0x34, 0x32] = [0, 0x34, 0, 0x32]" by code_simp+
  have enc: "SQLITE_UTF16LE + 1 = SQLITE_UTF16BE" by simp
  show ?thesis using Atoi64_utf16 [OF le, of "[0x34, 0x32]"] by (simp only: eq enc)
qed

text \<open>
  Property C31. \<open>sqlite3GetInt32\<close> on a decimal numeral, whatever follows it, gives its value
  exactly when that is a 32-bit integer, leading zeros and any length included.
\<close>

theorem GetInt32_correct:
  assumes "digits ds" and "ds \<noteq> []" and "sign \<in> {[], [0x2D], [0x2B]}" and "\<not> sqlite3Isdigit e"
    and "\<not> (sign = [] \<and> ds = [0x30] \<and> e \<in> {0x78, 0x58})"
  shows "sqlite3GetInt32 (sign @ ds @ e # x) = Some (getint32_spec (sign = [0x2D]) ds)"
  using assms by (rule GetInt32_lemma)

theorem GetInt32_correct_witness:
  "sqlite3GetInt32 [0x2D, 0x32, 0x31, 0x34, 0x37, 0x34, 0x38, 0x33, 0x36, 0x34, 0x38, 0] = Some (Some (- 2147483648))"
proof -
  let ?ds = "[0x32, 0x31, 0x34, 0x37, 0x34, 0x38, 0x33, 0x36, 0x34, 0x38]"
  have ds: "digits ?ds" by code_simp
  have e: "\<not> sqlite3Isdigit 0" by code_simp
  have "getint32_spec True ?ds = Some (- 2147483648)" by (simp add: getint32_spec_def dval_def)
  then show ?thesis using GetInt32_correct [OF ds _ _ e, of "[0x2D]" "[]"] by simp
qed

text \<open>
  Property C37. Case-insensitive comparison of two strings of C has the sign of the
  comparison of their lower-case forms, byte by byte, over the whole strings or their first
  \<open>N\<close> bytes, and never reads past either terminator.
\<close>

theorem stricmp_correct:
  assumes "cstr s" and "cstr t"
  shows "map_option sgn (sqlite3_stricmp (Some (s @ 0 # x)) (Some (t @ 0 # y))) =
      Some (lex_sign (map UpperToLower s) (map UpperToLower t)) \<and>
    map_option sgn (sqlite3_strnicmp (Some (s @ 0 # x)) (Some (t @ 0 # y)) N) =
      Some (lex_sign (map UpperToLower (take (nat N) s)) (map UpperToLower (take (nat N) t)))"
  using StrICmp_lemma [OF assms] strnicmp_lemma [OF assms] by (simp add: sqlite3_stricmp_def sqlite3_strnicmp_def)

theorem stricmp_correct_witness:
  "map_option sgn (sqlite3_stricmp (Some [0x41, 0x62, 0]) (Some [0x61, 0x42, 0])) = Some 0 \<and>
   map_option sgn (sqlite3_strnicmp (Some [0x41, 0x62, 0]) (Some [0x61, 0x42, 0]) 1) = Some 0"
proof -
  have "cstr [0x41, 0x62]" "cstr [0x61, 0x42]" by (simp_all add: cstr_def)
  moreover have "lex_sign (map UpperToLower [0x41, 0x62]) (map UpperToLower [0x61, 0x42]) = 0"
    "lex_sign (map UpperToLower (take 1 [0x41, 0x62])) (map UpperToLower (take 1 [0x61, 0x42])) = 0" by code_simp+
  ultimately show ?thesis using stricmp_correct [of "[0x41, 0x62]" "[0x61, 0x42]" "[]" "[]" 1] by simp
qed

text \<open>
  Property C30. What \<open>quote()\<close> and \<open>hex()\<close> write is read back: \<open>sqlite3Dequote\<close> undoes the
  quoting of a text, and \<open>sqlite3HexToBlob\<close> the digits of a blob, memory permitting.
\<close>

theorem quote_roundtrip:
  assumes "cstr s"
  shows "sqlite3Dequote (quote_text s @ [0]) = Some s \<and>
    sqlite3HexToBlob [] (hexFunc bs) (length (hexFunc bs)) = Some (bs @ [0]) \<and>
    sqlite3HexToBlob [] (drop 2 (quote_blob bs)) (length (quote_blob bs) - 3) = Some (bs @ [0])"
proof -
  have "sqlite3Isquote 0x27" by (simp add: Isquote_nat)
  then have "sqlite3Dequote (quote_text s @ [0]) = Some s"
    using dequote_loop_ok [OF assms, of "0x27" 0 "[]"] by (simp add: sqlite3Dequote_def quote_text_def)
  then show ?thesis
    using hex_roundtrip_lemma [of bs] by (simp add: sqlite3HexToBlob_def quote_blob_def hexFunc_def)
qed

theorem quote_roundtrip_witness:
  "sqlite3Dequote ([0x27, 0x61, 0x27, 0x27, 0x62, 0x27] @ [0]) = Some [0x61, 0x27, 0x62] \<and>
   sqlite3HexToBlob [] [0x46, 0x39] 2 = Some [0xf9, 0]"
proof -
  have "quote_text [0x61, 0x27, 0x62] = [0x27, 0x61, 0x27, 0x27, 0x62, 0x27]" "hexFunc [0xf9] = [0x46, 0x39]"
    "length [0x46 :: u8, 0x39] = 2" "cstr [0x61, 0x27, 0x62]" by code_simp+
  then show ?thesis using quote_roundtrip [of "[0x61, 0x27, 0x62]" "[0xf9]"] by (simp only: append.simps)
qed

end
