(* ===== verification/Complete.thy ===== *)
theory Complete
  imports Tokenizer Text "HOL-Library.Sublist"
begin

text \<open>
  \<open>sqlite3_complete\<close> of complete.c: a small scanner and a state machine over the kinds of its
  tokens. \<open>script\<close> says without states which sequences of kinds are complete; the machine
  accepts exactly those.
\<close>

section \<open>The scanner and the state machine\<close>

abbreviation (input) tkSEMI :: nat where "tkSEMI \<equiv> 0"
abbreviation (input) tkWS :: nat where "tkWS \<equiv> 1"
abbreviation (input) tkOTHER :: nat where "tkOTHER \<equiv> 2"
abbreviation (input) tkEXPLAIN :: nat where "tkEXPLAIN \<equiv> 3"
abbreviation (input) tkCREATE :: nat where "tkCREATE \<equiv> 4"
abbreviation (input) tkTEMP :: nat where "tkTEMP \<equiv> 5"
abbreviation (input) tkTRIGGER :: nat where "tkTRIGGER \<equiv> 6"
abbreviation (input) tkEND :: nat where "tkEND \<equiv> 7"

definition trans_table :: "nat list list" where
  "trans_table =
    [[1, 0, 2, 3, 4, 2, 2, 2],
     [1, 1, 2, 3, 4, 2, 2, 2],
     [1, 2, 2, 2, 2, 2, 2, 2],
     [1, 3, 3, 2, 4, 2, 2, 2],
     [1, 4, 2, 2, 2, 4, 5, 2],
     [6, 5, 5, 5, 5, 5, 5, 5],
     [6, 6, 5, 5, 5, 5, 5, 7],
     [1, 7, 5, 5, 5, 5, 5, 5]]"

text \<open>
  What the scanner finds at \<open>z[0]\<close>: a token with its length and kind, a text or comment that the
  input does not close, or a comment up to the end of the input.
\<close>

datatype scanned = Token nat nat | Unclosed | Line_comment

text \<open>The loop that skips a C-style comment from \<open>z[i]\<close> on; the character where it stops.\<close>

fun skip_comment :: "u8 list \<Rightarrow> nat \<Rightarrow> (nat \<times> u8) option" where
  "skip_comment [] i = None"
| "skip_comment (c # z) i =
     (if c = 0 then Some (i, c)
      else if c = c_STAR then do {
        d \<leftarrow> rd8 z 0;
        if d = c_SLASH then Some (i, c) else skip_comment z (i + 1)
      }
      else skip_comment z (i + 1))"

definition word_is :: "u8 list \<Rightarrow> nat \<Rightarrow> string \<Rightarrow> bool option" where
  "word_is z nId w =
     (if nId = length w then map_option (\<lambda>r. r = 0) (sqlite3_strnicmp (Some z) (Some (map of_char w @ [0])) (int nId)) else Some False)"

definition word_kind :: "u8 list \<Rightarrow> u8 \<Rightarrow> nat \<Rightarrow> nat option" where
  "word_kind z c nId =
     (if c = of_char (CHR ''c'') \<or> c = of_char (CHR ''C'') then
        map_option (\<lambda>b. if b then tkCREATE else tkOTHER) (word_is z nId ''create'')
      else if c = of_char (CHR ''t'') \<or> c = of_char (CHR ''T'') then do {
        b \<leftarrow> word_is z nId ''trigger'';
        if b then Some tkTRIGGER
        else do {
          b \<leftarrow> word_is z nId ''temp'';
          if b then Some tkTEMP
          else map_option (\<lambda>b. if b then tkTEMP else tkOTHER) (word_is z nId ''temporary'')
        }
      }
      else if c = of_char (CHR ''e'') \<or> c = of_char (CHR ''E'') then do {
        b \<leftarrow> word_is z nId ''end'';
        if b then Some tkEND
        else map_option (\<lambda>b. if b then tkEXPLAIN else tkOTHER) (word_is z nId ''explain'')
      }
      else Some tkOTHER)"

definition complete_token :: "u8 list \<Rightarrow> scanned option" where
  "complete_token z = do {
     c \<leftarrow> rd8 z 0;
     if c = c_SEMI then Some (Token 1 tkSEMI)
     else if c = c_SPACE \<or> c = c_CR \<or> c = c_TAB \<or> c = c_NL \<or> c = c_FF then Some (Token 1 tkWS)
     else if c = c_SLASH then do {
       d \<leftarrow> rd8 z 1;
       if d \<noteq> c_STAR then Some (Token 1 tkOTHER)
       else do {
         (i, e) \<leftarrow> skip_comment (drop 2 z) 2;
         Some (if e = 0 then Unclosed else Token (i + 2) tkWS)
       }
     }
     else if c = c_MINUS then do {
       d \<leftarrow> rd8 z 1;
       if d \<noteq> c_MINUS then Some (Token 1 tkOTHER)
       else do {
         i \<leftarrow> scan (\<lambda>c. c \<noteq> 0 \<and> c \<noteq> c_NL) z 0;
         e \<leftarrow> rd8 z i;
         Some (if e = 0 then Line_comment else Token (i + 1) tkWS)
       }
     }
     else if c = c_LBRACKET then do {
       i \<leftarrow> scan (\<lambda>c. c \<noteq> 0 \<and> c \<noteq> c_RBRACKET) z 1;
       e \<leftarrow> rd8 z i;
       Some (if e = 0 then Unclosed else Token (i + 1) tkOTHER)
     }
     else if c = c_GRAVE \<or> c = c_DQUOTE \<or> c = c_QUOTE then do {
       i \<leftarrow> scan (\<lambda>d. d \<noteq> 0 \<and> d \<noteq> c) z 1;
       e \<leftarrow> rd8 z i;
       Some (if e = 0 then Unclosed else Token (i + 1) tkOTHER)
     }
     else if IdChar c then do {
       nId \<leftarrow> scan IdChar z 1;
       map_option (Token nId) (word_kind z c nId)
     }
     else Some (Token 1 tkOTHER)
   }"

function complete_loop :: "u8 list \<Rightarrow> nat \<Rightarrow> bool option" where
  "complete_loop z state = do {
     c \<leftarrow> rd8 z 0;
     if c = 0 then Some (state = 1)
     else do {
       r \<leftarrow> complete_token z;
       (case r of
          Unclosed \<Rightarrow> Some False
        | Line_comment \<Rightarrow> Some (state = 1)
        | Token n tk \<Rightarrow> if n = 0 then None else do {
            row \<leftarrow> rda trans_table state;
            state \<leftarrow> rda row tk;
            complete_loop (drop n z) state
          })
     }
   }"
  by pat_completeness auto
termination
  by (relation "measure (\<lambda>(z, state). length z)") (auto simp: rd8_def split: if_splits)

declare complete_loop.simps [simp del]

definition sqlite3_complete :: "u8 list \<Rightarrow> bool option" where
  "sqlite3_complete zSql = complete_loop zSql 0"

section \<open>What a complete text is\<close>

text \<open>
  The kinds of the tokens of a text, and whether it leaves something open.
\<close>

function kinds :: "u8 list \<Rightarrow> (nat list \<times> bool) option" where
  "kinds z = do {
     c \<leftarrow> rd8 z 0;
     if c = 0 then Some ([], False)
     else do {
       r \<leftarrow> complete_token z;
       (case r of
          Unclosed \<Rightarrow> Some ([], True)
        | Line_comment \<Rightarrow> Some ([], False)
        | Token n tk \<Rightarrow> if n = 0 then None else map_option (\<lambda>(ks, left). (tk # ks, left)) (kinds (drop n z)))
     }
   }"
  by pat_completeness auto
termination
  by (relation "measure length") (auto simp: rd8_def split: if_splits)

declare kinds.simps [simp del]

text \<open>
  The head of a trigger definition; a statement that is none ends at its first semicolon, a
  trigger definition at the first \<open>; END ;\<close> after its head.
\<close>

definition trigger_head :: "nat list \<Rightarrow> bool" where
  "trigger_head h \<longleftrightarrow> (\<exists>a m n. (a = [] \<or> a = tkEXPLAIN # replicate m tkOTHER) \<and> h = a @ tkCREATE # replicate n tkTEMP @ [tkTRIGGER])"

definition semi_end_semi :: "nat list \<Rightarrow> bool" where
  "semi_end_semi b \<longleftrightarrow> suffix [tkSEMI, tkEND, tkSEMI] b"

definition statement :: "nat list \<Rightarrow> bool" where
  "statement s \<longleftrightarrow>
     (\<exists>b. s = b @ [tkSEMI] \<and> tkSEMI \<notin> set b \<and> (\<forall>h. prefix h b \<longrightarrow> \<not> trigger_head h)) \<or>
     (\<exists>h b. s = h @ b \<and> trigger_head h \<and> semi_end_semi b \<and> (\<forall>b'. strict_prefix b' b \<longrightarrow> \<not> semi_end_semi b'))"

definition script :: "nat list \<Rightarrow> bool" where
  "script ks \<longleftrightarrow> (\<exists>ss. ss \<noteq> [] \<and> ks = concat ss \<and> (\<forall>s\<in>set ss. statement s))"

section \<open>The state machine accepts the scripts\<close>

definition run :: "nat \<Rightarrow> nat list \<Rightarrow> nat" where
  "run q ks = foldl (\<lambda>q k. trans_table ! q ! k) q ks"

lemma run_simps [simp]: "run q [] = q" "run q (k # ks) = run (trans_table ! q ! k) ks" "run q (xs @ ys) = run (run q xs) ys"
  by (simp_all add: run_def)

definition symbols :: "nat list \<Rightarrow> bool" where
  "symbols ks \<longleftrightarrow> set ks \<subseteq> {tkSEMI, tkOTHER, tkEXPLAIN, tkCREATE, tkTEMP, tkTRIGGER, tkEND}"

lemma symbols_append [simp]: "symbols (xs @ ys) \<longleftrightarrow> symbols xs \<and> symbols ys"
  by (auto simp: symbols_def)

lemma less_8: "q < 8 \<longleftrightarrow> q = 0 \<or> q = 1 \<or> q = 2 \<or> q = 3 \<or> q = 4 \<or> q = 5 \<or> q = 6 \<or> q = (7 :: nat)"
  by auto

lemma trans_rows [simp]:
  "trans_table ! 0 = [1, 0, 2, 3, 4, 2, 2, 2]" "trans_table ! 1 = [1, 1, 2, 3, 4, 2, 2, 2]" "trans_table ! Suc 0 = [1, 1, 2, 3, 4, 2, 2, 2]" "trans_table ! 2 = [1, 2, 2, 2, 2, 2, 2, 2]"
  "trans_table ! 3 = [1, 3, 3, 2, 4, 2, 2, 2]" "trans_table ! 4 = [1, 4, 2, 2, 2, 4, 5, 2]" "trans_table ! 5 = [6, 5, 5, 5, 5, 5, 5, 5]"
  "trans_table ! 6 = [6, 6, 5, 5, 5, 5, 5, 7]" "trans_table ! 7 = [1, 7, 5, 5, 5, 5, 5, 5]"
  by (simp_all add: trans_table_def)

text \<open>Before the first semicolon of a statement.\<close>

definition before_semi :: "nat \<Rightarrow> nat \<Rightarrow> nat list \<Rightarrow> bool" where
  "before_semi q0 q b \<longleftrightarrow>
     q = q0 \<and> b = [] \<or> q = 2 \<or> q = 3 \<and> (\<exists>m. b = tkEXPLAIN # replicate m tkOTHER)
     \<or> q = 4 \<and> (\<exists>a m n. (a = [] \<or> a = tkEXPLAIN # replicate m tkOTHER) \<and> b = a @ tkCREATE # replicate n tkTEMP)
     \<or> q = 5 \<and> (\<exists>h. prefix h b \<and> trigger_head h)"

lemma run_before_semi:
  "q0 \<in> {0, 1} \<Longrightarrow> symbols b \<Longrightarrow> tkSEMI \<notin> set b \<Longrightarrow> before_semi q0 (run q0 b) b"
proof (induction b rule: rev_induct)
  case (snoc k b)
  have k: "k = 2 \<or> k = 3 \<or> k = 4 \<or> k = 5 \<or> k = 6 \<or> k = 7" using snoc.prems by (auto simp: symbols_def)
  have "before_semi q0 (run q0 b) b" using snoc by simp
  then consider "run q0 b = q0" "b = []" | "run q0 b = 2" | m where "run q0 b = 3" "b = tkEXPLAIN # replicate m tkOTHER"
    | a m n where "run q0 b = 4" "a = [] \<or> a = tkEXPLAIN # replicate m tkOTHER" "b = a @ tkCREATE # replicate n tkTEMP"
    | h where "run q0 b = 5" "prefix h b" "trigger_head h"
    unfolding before_semi_def by blast
  then show ?case
  proof cases
    case 1
    then have e: "run q0 (b @ [k]) = trans_table ! q0 ! k" "b @ [k] = [k]" by simp_all
    have "trans_table ! q0 ! 3 = 3" "trans_table ! q0 ! 4 = 4" using snoc.prems(1) by auto
    moreover have "k \<noteq> 3 \<Longrightarrow> k \<noteq> 4 \<Longrightarrow> trans_table ! q0 ! k = 2" using snoc.prems(1) k by auto
    moreover have "\<exists>m. [3::nat] = tkEXPLAIN # replicate m tkOTHER" by (rule exI [of _ 0]) simp
    moreover have "\<exists>a m n. (a = [] \<or> a = tkEXPLAIN # replicate m tkOTHER) \<and> [4::nat] = a @ tkCREATE # replicate n tkTEMP"
      by (rule exI [of _ "[]"], rule exI [of _ 0], rule exI [of _ 0]) simp
    ultimately show ?thesis unfolding e before_semi_def by (cases "k = 3"; cases "k = 4") simp_all
  next
    case 2
    then show ?thesis using k by (auto simp: before_semi_def)
  next
    case (3 m)
    have "b @ [2] = tkEXPLAIN # replicate (Suc m) tkOTHER" using 3(2) by (simp add: replicate_append_same)
    moreover have "b @ [4] = (tkEXPLAIN # replicate m tkOTHER) @ tkCREATE # replicate 0 tkTEMP" using 3(2) by simp
    moreover have "k \<noteq> 2 \<Longrightarrow> k \<noteq> 4 \<Longrightarrow> run q0 (b @ [k]) = 2" "run q0 (b @ [2]) = 3" "run q0 (b @ [4]) = 4" using 3(1) k by auto
    ultimately show ?thesis unfolding before_semi_def by metis
  next
    case (4 a m n)
    have "b @ [5] = a @ tkCREATE # replicate (Suc n) tkTEMP" using 4(3) by (simp add: replicate_append_same)
    moreover have "trigger_head (b @ [6])" using 4(2,3) unfolding trigger_head_def by auto
    moreover have "k \<noteq> 5 \<Longrightarrow> k \<noteq> 6 \<Longrightarrow> run q0 (b @ [k]) = 2" "run q0 (b @ [5]) = 4" "run q0 (b @ [6]) = 5" using 4(1) k by auto
    ultimately show ?thesis using 4(2) unfolding before_semi_def by (metis prefix_order.refl)
  next
    case (5 h)
    then have "run q0 (b @ [k]) = 5" using k by auto
    then show ?thesis using 5 by (auto simp: before_semi_def)
  qed
qed (simp add: before_semi_def)

lemma run_others: "run 3 (replicate m tkOTHER) = 3" "run 4 (replicate n tkTEMP) = 4"
  proof -
  show "run 3 (replicate m tkOTHER) = 3" by (induction m) simp_all
  show "run 4 (replicate n tkTEMP) = 4" by (induction n) simp_all
qed

lemma run_head: "q0 \<in> {0, 1} \<Longrightarrow> trigger_head h \<Longrightarrow> run q0 h = 5"
  by (auto simp: trigger_head_def run_others)

lemma head_symbols: "trigger_head h \<Longrightarrow> tkSEMI \<notin> set h"
  by (auto simp: trigger_head_def)

text \<open>After the head of a trigger definition.\<close>

lemma suffix_snoc2: "suffix [a, b] (xs @ [x]) \<longleftrightarrow> x = b \<and> suffix [a] xs" "suffix [a, b, c] (xs @ [x]) \<longleftrightarrow> x = c \<and> suffix [a, b] xs"
  "suffix [a] (xs @ [x]) \<longleftrightarrow> x = a"
  by (simp_all add: suffix_def) (auto simp: append_eq_append_conv2 Cons_eq_append_conv append_eq_Cons_conv)

lemma run_body:
  "symbols b \<Longrightarrow> (\<forall>b'. strict_prefix b' b \<longrightarrow> \<not> semi_end_semi b') \<Longrightarrow>
   run 5 b = (if semi_end_semi b then 1 else if suffix [tkSEMI, tkEND] b then 7 else if suffix [tkSEMI] b then 6 else 5)"
proof (induction b rule: rev_induct)
  case (snoc k b)
  have k: "k = 0 \<or> k = 2 \<or> k = 3 \<or> k = 4 \<or> k = 5 \<or> k = 6 \<or> k = 7" using snoc.prems by (auto simp: symbols_def)
  have "\<not> semi_end_semi b" using snoc.prems(2) by (auto simp: strict_prefix_def)
  moreover have "\<forall>b'. strict_prefix b' b \<longrightarrow> \<not> semi_end_semi b'"
  proof (intro allI impI)
    fix b' assume "strict_prefix b' b"
    then have "strict_prefix b' (b @ [k])" using prefix_order.less_le_trans [of b' b "b @ [k]"] by simp
    then show "\<not> semi_end_semi b'" using snoc.prems(2) by blast
  qed
  ultimately have IH: "run 5 b = (if suffix [tkSEMI, tkEND] b then 7 else if suffix [tkSEMI] b then 6 else 5)"
    using snoc.IH snoc.prems(1) by simp
  have not_both: "\<not> (suffix [tkSEMI, tkEND] b \<and> suffix [tkSEMI] b)"
    by (cases b rule: rev_cases) (auto simp: suffix_snoc2)
  have last: "semi_end_semi (b @ [k]) \<longleftrightarrow> k = tkSEMI \<and> suffix [tkSEMI, tkEND] b"
      "suffix [tkSEMI, tkEND] (b @ [k]) \<longleftrightarrow> k = tkEND \<and> suffix [tkSEMI] b" "suffix [tkSEMI] (b @ [k]) \<longleftrightarrow> k = tkSEMI" for k
    by (simp_all add: semi_end_semi_def suffix_snoc2)
  consider "suffix [tkSEMI, tkEND] b" "\<not> suffix [tkSEMI] b" "run 5 b = 7" | "\<not> suffix [tkSEMI, tkEND] b" "suffix [tkSEMI] b" "run 5 b = 6"
    | "\<not> suffix [tkSEMI, tkEND] b" "\<not> suffix [tkSEMI] b" "run 5 b = 5"
    using IH not_both by (metis (full_types))
  then show ?case using k by cases (auto simp: last)
qed (simp add: semi_end_semi_def)

lemma run_statement:
  assumes "q0 \<in> {0, 1}" "symbols s" "statement s"
  shows "run q0 s = 1"
  using assms(3) unfolding statement_def
proof (elim disjE exE conjE)
  fix b assume b: "s = b @ [tkSEMI]" "tkSEMI \<notin> set b" "\<forall>h. prefix h b \<longrightarrow> \<not> trigger_head h"
  then have "before_semi q0 (run q0 b) b" using run_before_semi [OF assms(1)] assms(2) by simp
  then have "run q0 b = q0 \<or> run q0 b = 2 \<or> run q0 b = 3 \<or> run q0 b = 4" using b(3) by (auto simp: before_semi_def)
  then show ?thesis using b(1) assms(1) by auto
next
  fix h b assume "s = h @ b" "trigger_head h" "semi_end_semi b" "\<forall>b'. strict_prefix b' b \<longrightarrow> \<not> semi_end_semi b'"
  then show ?thesis using run_head [OF assms(1)] run_body [of b] assms(2) by simp
qed

lemma run_scripts: "ss \<noteq> [] \<Longrightarrow> q0 \<in> {0, 1} \<Longrightarrow> symbols (concat ss) \<Longrightarrow> \<forall>s\<in>set ss. statement s \<Longrightarrow> run q0 (concat ss) = 1"
proof (induction ss arbitrary: q0)
  case (Cons s ss)
  then show ?case using run_statement [of q0 s] Cons.IH [of 1] by (cases "ss = []") auto
qed simp

lemma first_body:
  assumes "symbols b" "run 5 b = 1"
  shows "\<exists>y r. b = y @ r \<and> semi_end_semi y \<and> (\<forall>b'. strict_prefix b' y \<longrightarrow> \<not> semi_end_semi b')"
proof -
  have "\<exists>n. semi_end_semi (take n b)"
  proof (rule ccontr)
    assume no: "\<not> ?thesis"
    then have "\<forall>b'. strict_prefix b' b \<longrightarrow> \<not> semi_end_semi b'" by (metis prefix_def append_eq_conv_conj strict_prefix_def)
    moreover have "\<not> semi_end_semi b" using no by (metis order_refl take_all)
    ultimately show False using run_body [OF assms(1)] assms(2) by (auto split: if_splits)
  qed
  define n where "n = (LEAST n. semi_end_semi (take n b))"
  have n: "semi_end_semi (take n b)" unfolding n_def by (rule LeastI_ex) fact
  have "\<not> semi_end_semi b'" if "strict_prefix b' (take n b)" for b'
  proof -
    have "length b' < n" using that prefix_length_less [OF that] by simp
    moreover have "b' = take (length b') b" using that by (metis append_eq_conv_conj prefix_def prefix_order.trans strict_prefix_def take_is_prefix)
    ultimately show ?thesis unfolding n_def by (metis not_less_Least)
  qed
  then show ?thesis using n by (metis append_take_drop_id)
qed

lemma script_run: "q0 \<in> {0, 1} \<Longrightarrow> symbols ks \<Longrightarrow> ks \<noteq> [] \<Longrightarrow> run q0 ks = 1 \<Longrightarrow> script ks"
proof (induction "length ks" arbitrary: q0 ks rule: less_induct)
  case less
  have step: "script ks" if ks: "ks = s @ r" and s: "statement s" "s \<noteq> []" for s r
  proof (cases "r = []")
    case True
    then show ?thesis using ks s unfolding script_def by (intro exI [of _ "[s]"]) simp
  next
    case False
    have "run 1 r = 1" using less.prems ks run_statement [OF less.prems(1) _ s(1)] by simp
    then have "script r" using less.hyps [of r 1] ks s False less.prems by simp
    then obtain ss where "ss \<noteq> []" "r = concat ss" "\<forall>s\<in>set ss. statement s" unfolding script_def by blast
    then show ?thesis unfolding script_def using ks s by (intro exI [of _ "s # ss"]) simp
  qed
  have "tkSEMI \<in> set ks"
  proof (rule ccontr)
    assume "tkSEMI \<notin> set ks"
    then have "before_semi q0 (run q0 ks) ks" using run_before_semi less.prems by blast
    then show False using less.prems by (auto simp: before_semi_def)
  qed
  then obtain b r where b: "ks = b @ tkSEMI # r" "tkSEMI \<notin> set b" by (metis split_list_first)
  show ?case
  proof (cases "\<exists>h. prefix h b \<and> trigger_head h")
    case False
    then have "statement (b @ [tkSEMI])" unfolding statement_def using b(2) by blast
    then show ?thesis using step [of "b @ [tkSEMI]" r] b(1) by simp
  next
    case True
    then obtain h b1 where h: "b = h @ b1" "trigger_head h" by (auto simp: prefix_def)
    let ?x = "b1 @ tkSEMI # r"
    have "run 5 ?x = 1" using run_head [OF less.prems(1) h(2)] less.prems(4) b(1) h(1) by simp
    moreover have "symbols ?x" using less.prems(2) b(1) h(1) by (simp add: symbols_def)
    ultimately obtain y r' where y: "?x = y @ r'" "semi_end_semi y" "\<forall>b'. strict_prefix b' y \<longrightarrow> \<not> semi_end_semi b'"
      using first_body by blast
    then have "statement (h @ y)" unfolding statement_def using h(2) by blast
    moreover have "ks = (h @ y) @ r'" using b(1) h(1) y(1) by simp
    moreover have "h @ y \<noteq> []" using h(2) by (auto simp: trigger_head_def)
    ultimately show ?thesis using step by blast
  qed
qed

lemma script_iff: "symbols ks \<Longrightarrow> run 0 ks = 1 \<longleftrightarrow> script ks"
proof
  assume "symbols ks" "run 0 ks = 1"
  then show "script ks" using script_run [of 0 ks] by (cases "ks = []") auto
next
  assume "symbols ks" "script ks"
  then show "run 0 ks = 1" unfolding script_def using run_scripts [of _ 0] by auto
qed

section \<open>The scanner is total\<close>

lemma strnicmp_total: "n \<le> length as \<Longrightarrow> n \<le> length bs \<Longrightarrow> \<exists>r. strnicmp_loop as bs n = Some r"
  by (induction as bs n rule: strnicmp_loop.induct) auto

lemma word_is_total: "nId \<le> length z \<Longrightarrow> \<exists>b. word_is z nId w = Some b"
  using strnicmp_total [of nId z "map of_char w @ [0]"] by (auto simp: word_is_def sqlite3_strnicmp_def)

lemma word_kind_total:
  assumes "nId \<le> length z"
  shows "\<exists>k<8. word_kind z c nId = Some k \<and> k \<noteq> tkWS"
proof -
  obtain b1 b2 b3 b4 b5 b6 where "word_is z nId ''create'' = Some b1" "word_is z nId ''trigger'' = Some b2" "word_is z nId ''temp'' = Some b3"
    "word_is z nId ''temporary'' = Some b4" "word_is z nId ''end'' = Some b5" "word_is z nId ''explain'' = Some b6"
    using word_is_total [OF assms] by metis
  then show ?thesis by (cases b1; cases b2; cases b3; cases b4; cases b5; cases b6) (simp_all add: word_kind_def)
qed

lemma skip_comment_ok: "nul z M \<Longrightarrow> \<exists>k e. skip_comment z i = Some (i + k, e) \<and> k \<le> M \<and> (e \<noteq> 0 \<longrightarrow> k + 2 \<le> M)"
proof (induction z arbitrary: i M)
  case (Cons c z)
  show ?case
  proof (cases "c = 0")
    case False
    then have M: "M \<noteq> 0" using Cons.prems by (auto simp: nul_def)
    then have z: "nul z (M - 1)" using nul_drop [OF Cons.prems, of 1] by simp
    have more: "\<exists>k e. skip_comment z (i + 1) = Some (i + k, e) \<and> k \<le> M \<and> (e \<noteq> 0 \<longrightarrow> k + 2 \<le> M)"
    proof -
      obtain k e where "skip_comment z (i + 1) = Some (i + 1 + k, e)" "k \<le> M - 1" "e \<noteq> 0 \<longrightarrow> k + 2 \<le> M - 1"
        using Cons.IH [OF z, of "i + 1"] by blast
      then show ?thesis using M by (intro exI [of _ "k + 1"] exI [of _ e]) auto
    qed
    show ?thesis
    proof (cases "c = c_STAR \<and> z ! 0 = c_SLASH")
      case True
      then have "M - 1 \<noteq> 0" using nul_0 [OF z, of 0] by simp
      then show ?thesis using True nul_rd [OF z, of 0] M False by (auto intro!: exI [of _ 0])
    next
      case False
      then show ?thesis using more nul_rd [OF z, of 0] \<open>c \<noteq> 0\<close> by auto
    qed
  qed auto
qed (simp add: nul_def)

lemma complete_token_ok:
  assumes z: "nul z N" and N: "1 \<le> N"
  shows "complete_token z \<in> {Some Unclosed, Some Line_comment} \<or> (\<exists>n tk. complete_token z = Some (Token n tk) \<and> 1 \<le> n \<and> n \<le> N \<and> tk < 8)"
    (is "?ok (complete_token z)")
proof -
  note rd0 = nul_rd [OF z le0] and rd1 = nul_rd [OF z N]
  have z0: "z ! 0 \<noteq> 0" using nul_0 [OF z, of 0] N by simp
  have comment: "?ok (do { d \<leftarrow> rd8 z 1; if d \<noteq> c_STAR then Some (Token 1 tkOTHER)
      else do { (i, e) \<leftarrow> skip_comment (drop 2 z) 2; Some (if e = 0 then Unclosed else Token (i + 2) tkWS) } })"
  proof (cases "z ! 1 = c_STAR")
    case True
    then have two: "2 \<le> N" using nul_step [OF z N] by simp
    have "nul (drop 2 z) (N - 2)" by (rule nul_drop [OF z two])
    from skip_comment_ok [OF this, of 2] obtain k e where "skip_comment (drop 2 z) 2 = Some (2 + k, e)" "e \<noteq> 0 \<longrightarrow> k + 2 \<le> N - 2" by blast
    then show ?thesis using rd1 True two by auto
  qed (use rd1 N in simp)
  have until: "?ok (do { i \<leftarrow> scan P z j; e \<leftarrow> rd8 z i; Some (if e = 0 then r else Token (i + 1) k) })"
    if j: "j \<le> N" and P: "\<not> P 0" and rk: "r = Unclosed \<or> r = Line_comment" "k < 8" for P j r k
  proof -
    obtain i where i: "scan P z j = Some i" "i \<le> N" using scan_ok [OF z j, of P] P by blast
    then show ?thesis using nul_rd [OF z i(2)] nul_step [OF z i(2)] rk by auto
  qed
  have word: "?ok (do { nId \<leftarrow> scan IdChar z 1; map_option (Token nId) (word_kind z c nId) })" for c
  proof -
    obtain i where i: "scan IdChar z 1 = Some i" "1 \<le> i" "i \<le> N" using scan_ok [OF z N, of IdChar] not_at_end by blast
    then obtain k where "k < 8" "word_kind z c i = Some k" using word_kind_total [of i z c] z by (auto simp: nul_def)
    then show ?thesis using i by auto
  qed
  have dash: "?ok (do { d \<leftarrow> rd8 z 1; if d \<noteq> c_MINUS then Some (Token 1 tkOTHER)
      else do { i \<leftarrow> scan (\<lambda>c. c \<noteq> 0 \<and> c \<noteq> c_NL) z 0; e \<leftarrow> rd8 z i; Some (if e = 0 then Line_comment else Token (i + 1) tkWS) } })"
    using until [of 0 "\<lambda>c. c \<noteq> 0 \<and> c \<noteq> c_NL" Line_comment tkWS] rd1 N by (cases "z ! 1 = c_MINUS") simp_all
  have if_ok: "(b \<Longrightarrow> ?ok x) \<Longrightarrow> (\<not> b \<Longrightarrow> ?ok y) \<Longrightarrow> ?ok (if b then x else y)" for b x y by simp
  show ?thesis unfolding complete_token_def rd0 bind.bind_lunit
    by (intro if_ok comment dash word until N) (use N z0 in auto)
qed

lemma complete_run:
  "nul z N \<Longrightarrow> q < 8 \<Longrightarrow> \<exists>ks left. kinds z = Some (ks, left) \<and> set ks \<subseteq> {..<8} \<and> complete_loop z q = Some (\<not> left \<and> run q ks = 1)"
proof (induction N arbitrary: z q rule: less_induct)
  case (less N)
  note rd0 = nul_rd [OF less.prems(1) le0]
  show ?case
  proof (cases "N = 0")
    case True
    then show ?thesis using rd0 nul_0 [OF less.prems(1) le0]
      by (subst complete_loop.simps, subst kinds.simps) auto
  next
    case False
    then have N: "1 \<le> N" "z ! 0 \<noteq> 0" using nul_0 [OF less.prems(1) le0] by auto
    consider "complete_token z = Some Unclosed" | "complete_token z = Some Line_comment"
      | n tk where "complete_token z = Some (Token n tk)" "1 \<le> n" "n \<le> N" "tk < 8" using complete_token_ok [OF less.prems(1) N(1)] by blast
    then show ?thesis
    proof cases
      case (3 n tk)
      have q: "\<forall>q\<in>{..<8}. \<forall>k\<in>{..<8}. q < length trans_table \<and> k < length (trans_table ! q) \<and> trans_table ! q ! k < 8"
        by (simp add: lessThan_nat_numeral trans_table_def)
      have "trans_table ! q ! tk < 8" using q less.prems(2) 3(4) by auto
      from less.IH [OF _ nul_drop [OF less.prems(1) 3(3)] this] 3 obtain ks left where
        "kinds (drop n z) = Some (ks, left)" "set ks \<subseteq> {..<8}" "complete_loop (drop n z) (trans_table ! q ! tk) = Some (\<not> left \<and> run (trans_table ! q ! tk) ks = 1)" by auto
      then show ?thesis using rd0 N 3 q less.prems(2)
        by (subst complete_loop.simps, subst kinds.simps) (auto simp: rda_def)
    qed (use rd0 N in \<open>subst complete_loop.simps, subst kinds.simps, auto\<close>)+
  qed
qed

text \<open>White space does not change the state.\<close>

lemma run_filter: "q < 8 \<Longrightarrow> set ks \<subseteq> {..<8} \<Longrightarrow> run q ks = run q (filter (\<lambda>k. k \<noteq> tkWS) ks)"
proof (induction ks arbitrary: q)
  case (Cons k ks)
  have "\<forall>q\<in>{..<8}. \<forall>k\<in>{..<8}. trans_table ! q ! k < 8" "\<forall>q\<in>{..<8}. trans_table ! q ! 1 = q"
    by (simp_all add: lessThan_nat_numeral trans_table_def)
  then show ?case using Cons.IH [of "trans_table ! q ! k"] Cons.prems by auto
qed simp

section \<open>Properties\<close>

text \<open>
  Property C13. \<open>sqlite3_complete\<close> says that a text is complete exactly if it closes its quotes
  and comments and its tokens are a sequence of statements: each ends at its first semicolon,
  a trigger definition at the first \<open>; END ;\<close> after its head.
\<close>

theorem Complete_correct:
  assumes "0 \<notin> set sql"
  shows "\<exists>ks left. kinds (sql @ [0]) = Some (ks, left) \<and>
    sqlite3_complete (sql @ [0]) = Some (\<not> left \<and> script (filter (\<lambda>k. k \<noteq> tkWS) ks))"
proof -
  have "nul (sql @ [0]) (length sql)" using assms by (simp add: nul_append)
  from complete_run [OF this, of 0] obtain ks left where ks: "kinds (sql @ [0]) = Some (ks, left)" "set ks \<subseteq> {..<8}"
    "complete_loop (sql @ [0]) 0 = Some (\<not> left \<and> run 0 ks = 1)" by auto
  have "symbols (filter (\<lambda>k. k \<noteq> tkWS) ks)" using ks(2) by (auto simp: symbols_def less_8)
  then show ?thesis using ks run_filter [of 0 ks] script_iff by (auto simp: sqlite3_complete_def)
qed

theorem Complete_correct_witness:
  "script [tkCREATE, tkTRIGGER, tkOTHER, tkSEMI, tkEND, tkSEMI] \<and> \<not> script [tkCREATE, tkTRIGGER, tkOTHER, tkSEMI]"
proof -
  have a: "kinds (map of_char ''Create trigger x;end;'' @ [0]) = Some ([4, 1, 6, 1, 2, 0, 7, 0], False)"
    "sqlite3_complete (map of_char ''Create trigger x;end;'' @ [0]) = Some True"
    "kinds (map of_char ''Create trigger x;'' @ [0]) = Some ([4, 1, 6, 1, 2, 0], False)"
    "sqlite3_complete (map of_char ''Create trigger x;'' @ [0]) = Some False" by code_simp+
  have "script [tkCREATE, tkTRIGGER, tkOTHER, tkSEMI, tkEND, tkSEMI]"
    using Complete_correct [of "map of_char ''Create trigger x;end;''"] a(1,2) by simp
  moreover have "\<not> script [tkCREATE, tkTRIGGER, tkOTHER, tkSEMI]"
    using Complete_correct [of "map of_char ''Create trigger x;''"] a(3,4) by auto
  ultimately show ?thesis by simp
qed

end
