(* ===== verification/Hash.thy ===== *)
theory Hash
  imports Text Containers
begin

text \<open>
  The hash table of hash.c, which maps the names of a schema to its objects. All elements are on
  one doubly linked list, here the list of elements; a pointer to an element is its address
  \<open>he_addr\<close>, \<open>NULL\<close> is \<open>0\<close>, and a new element gets an address that no element has. A bucket counts
  its elements, which are together on the list, and points to the first. A key is a string of C
  without its terminator. Pointers that lead off the list, positions outside the bucket array and
  a failed \<open>assert\<close> give \<open>None\<close>.

  What \<open>sqlite3MallocSize\<close> reports for a request is up to the allocator: it is an argument, and
  the theorems assume that it is at least the size of the request. Allocations follow the script
  of the prelude. The invariant \<open>hash_inv\<close> says that addresses and keys are distinct, that the
  elements of a bucket are together (\<open>grouped\<close>) and that counts and chains agree with the list.
\<close>

section \<open>The table\<close>

record 'd HashElem =
  he_addr :: nat
  data :: 'd
  pKey :: "u8 list"

record ht_bucket =
  ht_count :: nat
  ht_chain :: nat

record 'd Hash =
  htsize :: nat
  hcount :: nat
  first :: "'d HashElem list"
  ht :: "ht_bucket list option"

definition sqlite3HashInit :: "'d Hash" where
  "sqlite3HashInit = \<lparr>htsize = 0, hcount = 0, first = [], ht = None\<rparr>"

definition sqlite3HashClear :: "'d Hash \<Rightarrow> 'd Hash" where
  "sqlite3HashClear pH = pH\<lparr>first := [], ht := None, htsize := 0, hcount := 0\<rparr>"

fun strHash_loop :: "u8 list \<Rightarrow> u32 \<Rightarrow> u32" where
  "strHash_loop [] h = h"
| "strHash_loop (c # z) h = (if c = 0 then h else strHash_loop z ((h + ucast (UpperToLower c)) * 0x9e3779b1))"

definition strHash :: "u8 list \<Rightarrow> nat" where
  "strHash z = unat (strHash_loop z 0)"

text \<open>Linking \<open>pNew\<close> into the list before the element at the address \<open>pHead\<close>.\<close>

definition link_before :: "nat \<Rightarrow> 'd HashElem \<Rightarrow> 'd HashElem list \<Rightarrow> 'd HashElem list" where
  "link_before pHead pNew l =
     takeWhile (\<lambda>e. he_addr e \<noteq> pHead) l @ pNew # dropWhile (\<lambda>e. he_addr e \<noteq> pHead) l"

definition insertElement :: "'d Hash \<Rightarrow> nat option \<Rightarrow> 'd HashElem \<Rightarrow> 'd Hash option" where
  "insertElement pH pEntry pNew =
     (case pEntry of
        Some h \<Rightarrow> do {
          t \<leftarrow> ht pH;
          b \<leftarrow> rda t h;
          let pH' = pH\<lparr>ht := Some (t[h := \<lparr>ht_count = ht_count b + 1, ht_chain = he_addr pNew\<rparr>])\<rparr>;
          Some (pH'\<lparr>first := (if ht_count b \<noteq> 0 then link_before (ht_chain b) pNew (first pH) else pNew # first pH)\<rparr>)
        }
      | None \<Rightarrow> Some (pH\<lparr>first := pNew # first pH\<rparr>))"

fun insert_list :: "'d Hash \<Rightarrow> nat \<Rightarrow> 'd HashElem list \<Rightarrow> 'd Hash option" where
  "insert_list pH n [] = Some pH"
| "insert_list pH n (e # es) = do {
     pH \<leftarrow> insertElement pH (Some (strHash (pKey e) mod n)) e;
     insert_list pH n es
   }"

abbreviation SQLITE_MALLOC_SOFT_LIMIT :: nat where "SQLITE_MALLOC_SOFT_LIMIT \<equiv> 1024"
abbreviation sizeof_ht :: nat where "sizeof_ht \<equiv> 16"

definition rehash :: "(nat \<Rightarrow> nat) \<Rightarrow> bool list \<Rightarrow> 'd Hash \<Rightarrow> nat \<Rightarrow> (bool \<times> 'd Hash \<times> bool list) option" where
  "rehash sqlite3MallocSize mem pH new_size =
     (let new_size = (if new_size * sizeof_ht > SQLITE_MALLOC_SOFT_LIMIT
                      then SQLITE_MALLOC_SOFT_LIMIT div sizeof_ht else new_size)
      in if new_size = htsize pH then Some (False, pH, mem)
      else if new_size = 0 then Some (False, pH, mem)
      else (case malloc mem of
          (False, mem) \<Rightarrow> Some (False, pH, mem)
        | (True, mem) \<Rightarrow> do {
            let new_size = sqlite3MallocSize (new_size * sizeof_ht) div sizeof_ht;
            let l = first pH;
            pH \<leftarrow> insert_list
              (pH\<lparr>ht := Some (replicate new_size \<lparr>ht_count = 0, ht_chain = 0\<rparr>), htsize := new_size, first := []\<rparr>)
              new_size l;
            Some (True, pH, mem)
          }))"

fun find_loop :: "nat \<Rightarrow> 'd HashElem list \<Rightarrow> u8 list \<Rightarrow> 'd HashElem option option" where
  "find_loop 0 elem key = Some None"
| "find_loop (Suc n) [] key = None"
| "find_loop (Suc n) (e # elem) key = do {
     c \<leftarrow> sqlite3StrICmp (pKey e @ [0]) (key @ [0]);
     if c = 0 then Some (Some e) else find_loop n elem key
   }"

definition findElementWithHash :: "'d Hash \<Rightarrow> u8 list \<Rightarrow> ('d HashElem option \<times> nat) option" where
  "findElementWithHash pH key = do {
     (h, elem, n) \<leftarrow> (case ht pH of
         Some t \<Rightarrow> do {
           let h = strHash key mod htsize pH;
           b \<leftarrow> rda t h;
           Some (h, dropWhile (\<lambda>e. he_addr e \<noteq> ht_chain b) (first pH), ht_count b)
         }
       | None \<Rightarrow> Some (0, first pH, hcount pH));
     e \<leftarrow> find_loop n elem key;
     Some (e, h)
   }"

text \<open>The address of the element after the one at \<open>a\<close>, \<open>0\<close> when there is none.\<close>

definition next_addr :: "nat \<Rightarrow> 'd HashElem list \<Rightarrow> nat" where
  "next_addr a l = (case dropWhile (\<lambda>e. he_addr e \<noteq> a) l of _ # e # _ \<Rightarrow> he_addr e | _ \<Rightarrow> 0)"

definition removeElementGivenHash :: "'d Hash \<Rightarrow> 'd HashElem \<Rightarrow> nat \<Rightarrow> 'd Hash option" where
  "removeElementGivenHash pH elem h = do {
     let l = first pH;
     let pH = pH\<lparr>first := filter (\<lambda>e. he_addr e \<noteq> he_addr elem) l\<rparr>;
     pH \<leftarrow> (case ht pH of
         Some t \<Rightarrow> do {
           b \<leftarrow> rda t h;
           let b = (if ht_chain b = he_addr elem then b\<lparr>ht_chain := next_addr (he_addr elem) l\<rparr> else b);
           if ht_count b = 0 then None
           else Some (pH\<lparr>ht := Some (t[h := b\<lparr>ht_count := ht_count b - 1\<rparr>])\<rparr>)
         }
       | None \<Rightarrow> Some pH);
     let pH = pH\<lparr>hcount := hcount pH - 1\<rparr>;
     Some (if hcount pH = 0 then sqlite3HashClear pH else pH)
   }"

definition sqlite3HashFind :: "'d Hash \<Rightarrow> u8 list \<Rightarrow> 'd option option" where
  "sqlite3HashFind pH key = map_option (\<lambda>(e, h). map_option data e) (findElementWithHash pH key)"

text \<open>An address no element of the list has.\<close>

definition new_addr :: "'d HashElem list \<Rightarrow> nat" where
  "new_addr l = Suc (sum_list (map he_addr l))"

text \<open>The table grows when it has more than two elements for each bucket.\<close>

definition hash_grow ::
  "(nat \<Rightarrow> nat) \<Rightarrow> bool list \<Rightarrow> 'd Hash \<Rightarrow> u8 list \<Rightarrow> nat \<Rightarrow> (nat \<times> 'd Hash \<times> bool list) option" where
  "hash_grow sqlite3MallocSize mem pH key h =
     (if hcount pH \<ge> 10 \<and> hcount pH > 2 * htsize pH mod 2 ^ 32 then do {
        (resized, pH, mem) \<leftarrow> rehash sqlite3MallocSize mem pH (hcount pH * 2 mod 2 ^ 32);
        Some (if resized then strHash key mod htsize pH else h, pH, mem)
      }
      else Some (h, pH, mem))"

definition sqlite3HashInsert ::
  "(nat \<Rightarrow> nat) \<Rightarrow> bool list \<Rightarrow> 'd Hash \<Rightarrow> u8 list \<Rightarrow> 'd option \<Rightarrow> ('d option \<times> 'd Hash \<times> bool list) option" where
  "sqlite3HashInsert sqlite3MallocSize mem pH key dat = do {
     (elem, h) \<leftarrow> findElementWithHash pH key;
     case elem of
       Some e \<Rightarrow> (case dat of
           None \<Rightarrow> map_option (\<lambda>pH. (Some (data e), pH, mem)) (removeElementGivenHash pH e h)
         | Some d \<Rightarrow>
             Some (Some (data e),
               pH\<lparr>first := map (\<lambda>x. if he_addr x = he_addr e then x\<lparr>data := d, pKey := key\<rparr> else x) (first pH)\<rparr>, mem))
     | None \<Rightarrow> (case dat of
           None \<Rightarrow> Some (None, pH, mem)
         | Some d \<Rightarrow> (case malloc mem of
             (False, mem) \<Rightarrow> Some (Some d, pH, mem)
           | (True, mem) \<Rightarrow> do {
               let new_elem = \<lparr>he_addr = new_addr (first pH), data = d, pKey = key\<rparr>;
               let pH = pH\<lparr>hcount := (hcount pH + 1) mod 2 ^ 32\<rparr>;
               (h, pH, mem) \<leftarrow> hash_grow sqlite3MallocSize mem pH key h;
               pH \<leftarrow> insertElement pH (if ht pH \<noteq> None then Some h else None) new_elem;
               Some (None, pH, mem)
             }))
   }"

section \<open>Keys\<close>

definition fold_key :: "u8 list \<Rightarrow> u8 list" where
  "fold_key k = map UpperToLower (takeWhile (\<lambda>c. c \<noteq> 0) k)"

lemma ICmp_key: "\<exists>c. sqlite3StrICmp (k @ [0]) (k' @ [0]) = Some c \<and> (c = 0 \<longleftrightarrow> fold_key k = fold_key k')"
proof (induction k arbitrary: k')
  case Nil
  then show ?case
    by (cases k') (auto simp: fold_key_def Let_def Lower_eq_0 uint_0_iff)
next
  case (Cons a k)
  show ?case
  proof (cases k')
    case Nil
    then show ?thesis by (auto simp: fold_key_def Let_def Lower_eq_0 uint_0_iff)
  next
    case (Cons b bs)
    then show ?thesis
      using Cons.IH [of bs] Lower_eq_0 [of a] Lower_eq_0 [of b]
      by (cases "UpperToLower a = UpperToLower b") (auto simp: fold_key_def Let_def word_uint_eq_iff)
  qed
qed

lemma strHash_loop_key: "strHash_loop z h = foldl (\<lambda>h c. (h + ucast c) * 0x9e3779b1) h (fold_key z)"
  by (induction z arbitrary: h) (simp_all add: fold_key_def)

lemma strHash_key: "fold_key k = fold_key k' \<Longrightarrow> strHash k = strHash k'"
  by (simp add: strHash_def strHash_loop_key)

lemma find_loop_takes:
  "n \<le> length l \<Longrightarrow>
   find_loop n l key = Some (List.find (\<lambda>e. fold_key (pKey e) = fold_key key) (take n l))"
proof (induction n l key rule: find_loop.induct)
  case (3 n e elem key)
  obtain c where c: "sqlite3StrICmp (pKey e @ [0]) (key @ [0]) = Some c" "c = 0 \<longleftrightarrow> fold_key (pKey e) = fold_key key"
    using ICmp_key by blast
  with 3 show ?case by (cases "c = 0") simp_all
qed simp_all

section \<open>Lists in which equal values are together\<close>

fun grouped :: "('a \<Rightarrow> nat) \<Rightarrow> 'a list \<Rightarrow> bool" where
  "grouped f [] = True"
| "grouped f (x # xs) \<longleftrightarrow> grouped f xs \<and> f x \<notin> f ` set (dropWhile (\<lambda>y. f y = f x) xs)"

lemma grouped_segment: "grouped f xs \<Longrightarrow> takeWhile (\<lambda>y. f y = h) (dropWhile (\<lambda>y. f y \<noteq> h) xs) = filter (\<lambda>y. f y = h) xs"
proof (induction xs)
  case (Cons x xs)
  have *: "h \<notin> f ` set (dropWhile (\<lambda>y. f y = h) ys) \<Longrightarrow> takeWhile (\<lambda>y. f y = h) ys = filter (\<lambda>y. f y = h) ys" for ys
    by (induction ys) (auto simp: empty_filter_conv)
  show ?case using Cons * [of xs] by auto
qed simp

lemma grouped_link:
  "grouped f l \<Longrightarrow> h \<in> f ` set l \<Longrightarrow> f e = h \<Longrightarrow>
   grouped f (takeWhile (\<lambda>y. f y \<noteq> h) l @ e # dropWhile (\<lambda>y. f y \<noteq> h) l)"
proof (induction l)
  case (Cons x xs)
  show ?case
  proof (cases "f x = h")
    case True
    then show ?thesis using Cons.prems by auto
  next
    case False
    have "h \<in> f ` set xs \<Longrightarrow> set (dropWhile (\<lambda>y. f y = f x) (takeWhile (\<lambda>y. f y \<noteq> h) xs @ e # dropWhile (\<lambda>y. f y \<noteq> h) xs))
        \<subseteq> insert e (set (dropWhile (\<lambda>y. f y = f x) xs))"
      using False Cons.prems(3) by (induction xs) (auto dest: set_takeWhileD set_dropWhileD)
    then show ?thesis using False Cons by fastforce
  qed
qed simp

lemma grouped_front: "grouped f l \<Longrightarrow> f e \<notin> f ` set l \<Longrightarrow> grouped f (e # l)"
  by (auto dest: set_dropWhileD)

lemma set_dropWhile_filter: "set (dropWhile P (filter Q l)) \<subseteq> set (dropWhile P l)"
  by (induction l) (auto dest: set_dropWhileD)

lemma grouped_filter: "grouped f l \<Longrightarrow> grouped f (filter Q l)"
  by (induction l) (use set_dropWhile_filter in fastforce)+

lemma grouped_map: "(\<forall>x\<in>set l. f (g x) = f x) \<Longrightarrow> grouped f (map g l) = grouped f l"
proof (induction l)
  case (Cons x xs)
  have "dropWhile (\<lambda>y. f (g y) = f x) xs = dropWhile (\<lambda>y. f y = f x) xs"
    using Cons.prems by (intro dropWhile_cong) auto
  moreover have "f ` g ` set (dropWhile (\<lambda>y. f y = f x) xs) = f ` set (dropWhile (\<lambda>y. f y = f x) xs)"
    using Cons.prems by (force simp: image_image dest: set_dropWhileD)
  ultimately show ?case using Cons by (simp add: dropWhile_map comp_def)
qed simp

section \<open>The invariant\<close>

abbreviation bkt :: "nat \<Rightarrow> 'd HashElem \<Rightarrow> nat" where
  "bkt n e \<equiv> strHash (pKey e) mod n"

definition bucket_ok :: "'d HashElem list \<Rightarrow> nat \<Rightarrow> nat \<Rightarrow> ht_bucket \<Rightarrow> bool" where
  "bucket_ok l n h b \<longleftrightarrow>
     (let es = filter (\<lambda>e. bkt n e = h) l
      in ht_count b = length es \<and> (es \<noteq> [] \<longrightarrow> ht_chain b = he_addr (hd es)))"

definition buckets_ok :: "ht_bucket list \<Rightarrow> 'd HashElem list \<Rightarrow> bool" where
  "buckets_ok t l \<longleftrightarrow> t \<noteq> [] \<and> grouped (bkt (length t)) l \<and> (\<forall>h<length t. bucket_ok l (length t) h (t ! h))"

definition elems_ok :: "'d HashElem list \<Rightarrow> bool" where
  "elems_ok l \<longleftrightarrow> distinct (map he_addr l) \<and> distinct (map (\<lambda>e. fold_key (pKey e)) l)"

definition hash_inv :: "'d Hash \<Rightarrow> bool" where
  "hash_inv pH \<longleftrightarrow> elems_ok (first pH) \<and> hcount pH = length (first pH) \<and>
     (case ht pH of None \<Rightarrow> htsize pH = 0 | Some t \<Rightarrow> htsize pH = length t \<and> buckets_ok t (first pH))"

definition hash_map :: "'d Hash \<Rightarrow> u8 list \<Rightarrow> 'd option" where
  "hash_map pH = map_of (map (\<lambda>e. (fold_key (pKey e), data e)) (first pH))"

lemma elems_ok_cong: "elems_ok l \<Longrightarrow> set l = set l' \<Longrightarrow> length l = length l' \<Longrightarrow> elems_ok l'"
  unfolding elems_ok_def by (metis card_distinct distinct_card length_map list.set_map)

lemma hash_map_cong:
  "elems_ok l \<Longrightarrow> set l = set l' \<Longrightarrow> length l = length l' \<Longrightarrow>
   map_of (map (\<lambda>e. (fold_key (pKey e), data e)) l) = map_of (map (\<lambda>e. (fold_key (pKey e), data e)) l')"
  using elems_ok_cong [of l l'] by (subst map_of_inject_set) (auto simp: elems_ok_def comp_def)

lemma grouped_addr:
  assumes "grouped f l" "distinct (map he_addr l)" "filter (\<lambda>e. f e = h) l \<noteq> []" "a = he_addr (hd (filter (\<lambda>e. f e = h) l))"
  shows "takeWhile (\<lambda>e. he_addr e \<noteq> a) l = takeWhile (\<lambda>e. f e \<noteq> h) l \<and> dropWhile (\<lambda>e. he_addr e \<noteq> a) l = dropWhile (\<lambda>e. f e \<noteq> h) l"
  using assms(2-)
proof (induction l)
  case (Cons x xs)
  show ?case
  proof (cases "f x = h")
    case False
    have "hd (filter (\<lambda>e. f e = h) xs) \<in> set xs"
      using hd_in_set [of "filter (\<lambda>e. f e = h) xs"] Cons.prems False by auto
    then have "he_addr x \<noteq> a" using Cons.prems False by auto
    then show ?thesis using Cons False by auto
  qed (use Cons.prems in auto)
qed simp

section \<open>The operations\<close>

lemma find_filter: "(\<And>x. P x \<Longrightarrow> Q x) \<Longrightarrow> List.find P (filter Q l) = List.find P l"
  by (induction l) auto

lemma take_segment: "takeWhile P l = es \<Longrightarrow> take (length es) l = es"
  using takeWhile_eq_take [of P l] by simp

lemma bucket_segment:
  assumes "buckets_ok t l" "elems_ok l" "h < length t"
  shows "take (ht_count (t ! h)) (dropWhile (\<lambda>e. he_addr e \<noteq> ht_chain (t ! h)) l) =
      filter (\<lambda>e. bkt (length t) e = h) l"
proof (cases "filter (\<lambda>e. bkt (length t) e = h) l = []")
  case False
  have b: "bucket_ok l (length t) h (t ! h)" and g: "grouped (bkt (length t)) l" and d: "distinct (map he_addr l)"
    using assms by (auto simp: buckets_ok_def elems_ok_def)
  have "dropWhile (\<lambda>e. he_addr e \<noteq> ht_chain (t ! h)) l = dropWhile (\<lambda>e. bkt (length t) e \<noteq> h) l"
    using grouped_addr [OF g d False] b False by (simp add: bucket_ok_def Let_def)
  then show ?thesis
    using take_segment [OF grouped_segment [OF g, of h]] b by (simp add: bucket_ok_def Let_def)
qed (use assms in \<open>auto simp: buckets_ok_def bucket_ok_def Let_def\<close>)

definition bucket_of :: "'d Hash \<Rightarrow> u8 list \<Rightarrow> nat" where
  "bucket_of pH key = (if ht pH = None then 0 else strHash key mod htsize pH)"

lemma find_lemma:
  assumes "hash_inv pH"
  shows "findElementWithHash pH key =
    Some (List.find (\<lambda>e. fold_key (pKey e) = fold_key key) (first pH), bucket_of pH key)"
proof (cases "ht pH")
  case None
  then show ?thesis
    using assms find_loop_takes [of "hcount pH" "first pH" key]
    by (simp add: findElementWithHash_def hash_inv_def bucket_of_def)
next
  case (Some t)
  let ?h = "strHash key mod length t" and ?l = "first pH"
  have h: "?h < length t" using assms Some by (auto simp: hash_inv_def buckets_ok_def)
  have s: "take (ht_count (t ! ?h)) (dropWhile (\<lambda>e. he_addr e \<noteq> ht_chain (t ! ?h)) ?l) = filter (\<lambda>e. bkt (length t) e = ?h) ?l"
    using bucket_segment [OF _ _ h, of "first pH"] assms Some by (simp add: hash_inv_def)
  have c: "ht_count (t ! ?h) = length (filter (\<lambda>e. bkt (length t) e = ?h) ?l)"
    using assms Some h by (simp add: hash_inv_def buckets_ok_def bucket_ok_def Let_def)
  have "ht_count (t ! ?h) \<le> length (dropWhile (\<lambda>e. he_addr e \<noteq> ht_chain (t ! ?h)) ?l)"
    using arg_cong [OF s, of length] c by simp
  from find_loop_takes [OF this, of key]
  have "find_loop (ht_count (t ! ?h)) (dropWhile (\<lambda>e. he_addr e \<noteq> ht_chain (t ! ?h)) ?l) key =
      Some (List.find (\<lambda>e. fold_key (pKey e) = fold_key key) ?l)"
    unfolding s by (subst (asm) find_filter) (auto dest: strHash_key)
  then show ?thesis
    using Some assms h by (simp add: findElementWithHash_def hash_inv_def bucket_of_def rda_def Let_def)
qed

lemma find_map_of:
  "List.find (\<lambda>e. fold_key (pKey e) = k) l = None \<longleftrightarrow> map_of (map (\<lambda>e. (fold_key (pKey e), data e)) l) k = None"
  "List.find (\<lambda>e. fold_key (pKey e) = k) l = Some e \<Longrightarrow>
     map_of (map (\<lambda>e. (fold_key (pKey e), data e)) l) k = Some (data e) \<and> e \<in> set l \<and> fold_key (pKey e) = k"
  by (induction l) (auto split: if_splits)

lemma HashFind_lemma: "hash_inv pH \<Longrightarrow> sqlite3HashFind pH key = Some (hash_map pH (fold_key key))"
  using find_map_of [where l = "first pH" and k = "fold_key key"]
  by (cases "List.find (\<lambda>e. fold_key (pKey e) = fold_key key) (first pH)")
    (auto simp: sqlite3HashFind_def find_lemma hash_map_def)

text \<open>The effect of linking an element in, with a bucket array or without.\<close>

definition linked :: "'d Hash \<Rightarrow> 'd HashElem \<Rightarrow> 'd Hash \<Rightarrow> bool" where
  "linked pH e pH' \<longleftrightarrow> set (first pH') = insert e (set (first pH)) \<and> length (first pH') = Suc (length (first pH)) \<and>
     htsize pH' = htsize pH \<and> hcount pH' = hcount pH"

lemma insertElement_lemma:
  assumes t: "ht pH = Some t" "buckets_ok t (first pH)" "elems_ok (first pH)" and h: "h = bkt (length t) e"
  shows "\<exists>pH' t'. insertElement pH (Some h) e = Some pH' \<and> linked pH e pH' \<and>
    ht pH' = Some t' \<and> length t' = length t \<and> buckets_ok t' (first pH')"
proof -
  let ?l = "first pH" and ?n = "length t"
  let ?es = "filter (\<lambda>y. bkt ?n y = h) ?l" and ?b = "t ! h"
  have hn: "h < ?n" and g: "grouped (bkt ?n) ?l" and b: "bucket_ok ?l ?n h ?b" and d: "distinct (map he_addr ?l)"
    using t h by (auto simp: buckets_ok_def elems_ok_def)
  define l' where "l' = (if ht_count ?b \<noteq> 0 then link_before (ht_chain ?b) e ?l else e # ?l)"
  define t' where "t' = t[h := \<lparr>ht_count = ht_count ?b + 1, ht_chain = he_addr e\<rparr>]"
  obtain u v where uv: "?l = u @ v" "l' = u @ e # v" "filter (\<lambda>y. bkt ?n y = h) u = []" and g': "grouped (bkt ?n) l'"
  proof (cases "?es = []")
    case True
    then have "l' = [] @ e # ?l" using b by (simp add: l'_def bucket_ok_def)
    moreover have "bkt ?n e \<notin> bkt ?n ` set ?l" using True h by (auto simp: filter_empty_conv)
    ultimately show thesis using grouped_front [OF g, of e] by (intro that [of "[]" ?l]) simp_all
  next
    case False
    have "takeWhile (\<lambda>y. he_addr y \<noteq> ht_chain ?b) ?l = takeWhile (\<lambda>y. bkt ?n y \<noteq> h) ?l"
      "dropWhile (\<lambda>y. he_addr y \<noteq> ht_chain ?b) ?l = dropWhile (\<lambda>y. bkt ?n y \<noteq> h) ?l"
      using grouped_addr [OF g d False] b False by (simp_all add: bucket_ok_def Let_def)
    then have l': "l' = takeWhile (\<lambda>y. bkt ?n y \<noteq> h) ?l @ e # dropWhile (\<lambda>y. bkt ?n y \<noteq> h) ?l"
      using b False by (simp add: l'_def link_before_def bucket_ok_def Let_def)
    moreover have "h \<in> bkt ?n ` set ?l" using False by (auto simp: filter_empty_conv)
    moreover have "filter (\<lambda>y. bkt ?n y = h) (takeWhile (\<lambda>y. bkt ?n y \<noteq> h) ?l) = []"
      by (auto simp: filter_empty_conv dest: set_takeWhileD)
    ultimately show thesis
      using grouped_link [OF g _ h [symmetric]] by (intro that [OF takeWhile_dropWhile_id [symmetric]]) simp_all
  qed
  have "bucket_ok l' ?n k (t' ! k)" if "k < ?n" for k
  proof (cases "k = h")
    case True
    then show ?thesis using uv h hn b by (simp add: bucket_ok_def Let_def t'_def)
  next
    case False
    then show ?thesis using uv h that t(2) by (simp add: bucket_ok_def buckets_ok_def Let_def t'_def)
  qed
  then have "buckets_ok t' l'" using g' t(2) by (simp add: buckets_ok_def t'_def)
  moreover have "insertElement pH (Some h) e = Some (pH\<lparr>ht := Some t', first := l'\<rparr>)"
    using t(1) hn by (simp add: insertElement_def rda_def l'_def t'_def Let_def)
  moreover have "linked pH e (pH\<lparr>ht := Some t', first := l'\<rparr>)" using uv by (simp add: linked_def)
  ultimately show ?thesis by (intro exI [of _ "pH\<lparr>ht := Some t', first := l'\<rparr>"] exI [of _ t']) (simp add: t'_def)
qed

lemma insert_list_lemma:
  "ht pH = Some t \<Longrightarrow> buckets_ok t (first pH) \<Longrightarrow> elems_ok (l @ first pH) \<Longrightarrow> length t = n \<Longrightarrow>
   \<exists>pH' t'. insert_list pH n l = Some pH' \<and> ht pH' = Some t' \<and> length t' = n \<and> buckets_ok t' (first pH') \<and>
     set (first pH') = set l \<union> set (first pH) \<and> length (first pH') = length l + length (first pH) \<and>
     htsize pH' = htsize pH \<and> hcount pH' = hcount pH"
proof (induction l arbitrary: pH t)
  case (Cons e l)
  have "elems_ok (first pH)" using Cons.prems(3) by (simp add: elems_ok_def)
  from insertElement_lemma [OF Cons.prems(1,2) this, of _ e]
  obtain pH1 t1 where 1: "insertElement pH (Some (bkt n e)) e = Some pH1" "linked pH e pH1" "ht pH1 = Some t1"
    "length t1 = n" "buckets_ok t1 (first pH1)"
    using Cons.prems(4) by blast
  have "elems_ok (l @ first pH1)"
    using Cons.prems(3) 1(2) by (elim elems_ok_cong) (auto simp: linked_def)
  from Cons.IH [OF 1(3,5) this 1(4)] show ?case using 1 by (auto simp: linked_def)
qed simp

lemma empty_buckets_ok: "0 < n \<Longrightarrow> buckets_ok (replicate n \<lparr>ht_count = 0, ht_chain = 0\<rparr>) []"
  by (simp add: buckets_ok_def bucket_ok_def)

lemma rehash_lemma:
  assumes "\<forall>n. n \<le> msize n" "elems_ok (first pH)"
  shows "\<exists>done pH' mem'. rehash msize mem pH n = Some (done, pH', mem') \<and>
    (if done then hcount pH' = hcount pH \<and> set (first pH') = set (first pH) \<and> length (first pH') = length (first pH) \<and>
       (\<exists>t. ht pH' = Some t \<and> htsize pH' = length t \<and> buckets_ok t (first pH'))
     else pH' = pH)"
proof -
  define m where "m = (if n * sizeof_ht > SQLITE_MALLOC_SOFT_LIMIT then SQLITE_MALLOC_SOFT_LIMIT div sizeof_ht else n)"
  show ?thesis
  proof (cases "m = htsize pH \<or> m = 0 \<or> \<not> fst (malloc mem)")
    case True
    then show ?thesis by (cases "malloc mem") (auto simp: rehash_def m_def Let_def split: bool.splits)
  next
    case False
    obtain mem' where mem': "malloc mem = (True, mem')" using False by (cases "malloc mem") auto
    define k where "k = msize (m * sizeof_ht) div sizeof_ht"
    have "m * sizeof_ht div sizeof_ht \<le> k" unfolding k_def using assms(1) by (intro div_le_mono) blast
    then have k: "0 < k" using False by simp
    define pH0 where "pH0 = pH\<lparr>ht := Some (replicate k \<lparr>ht_count = 0, ht_chain = 0\<rparr>), htsize := k, first := []\<rparr>"
    have "\<exists>pH' t'. insert_list pH0 k (first pH) = Some pH' \<and> ht pH' = Some t' \<and> length t' = k \<and> buckets_ok t' (first pH') \<and>
     set (first pH') = set (first pH) \<union> set (first pH0) \<and> length (first pH') = length (first pH) + length (first pH0) \<and>
     htsize pH' = htsize pH0 \<and> hcount pH' = hcount pH0"
      by (rule insert_list_lemma [where t = "replicate k \<lparr>ht_count = 0, ht_chain = 0\<rparr>"])
        (use empty_buckets_ok [OF k] assms(2) in \<open>simp_all add: pH0_def\<close>)
    then obtain pH' where pH': "insert_list pH0 k (first pH) = Some pH'" "hcount pH' = hcount pH" "set (first pH') = set (first pH)"
      "length (first pH') = length (first pH)" "\<exists>t. ht pH' = Some t \<and> htsize pH' = length t \<and> buckets_ok t (first pH')"
      by (auto simp: pH0_def)
    have "rehash msize mem pH n = Some (True, pH', mem')"
      unfolding rehash_def m_def [symmetric] Let_def
      using False pH'(1) mem' by (simp add: k_def pH0_def)
    then show ?thesis using pH' by auto
  qed
qed

lemma addr_unique: "elems_ok l \<Longrightarrow> e \<in> set l \<Longrightarrow> e' \<in> set l \<Longrightarrow> he_addr e = he_addr e' \<Longrightarrow> e = e'"
  by (auto simp: elems_ok_def distinct_map inj_on_def)

lemma key_unique: "elems_ok l \<Longrightarrow> e \<in> set l \<Longrightarrow> e' \<in> set l \<Longrightarrow> fold_key (pKey e) = fold_key (pKey e') \<Longrightarrow> e = e'"
  by (auto simp: elems_ok_def distinct_map inj_on_def)

lemma filter_addr: "elems_ok l \<Longrightarrow> e \<in> set l \<Longrightarrow> filter (\<lambda>x. he_addr x \<noteq> he_addr e) l = filter (\<lambda>x. x \<noteq> e) l"
  using addr_unique by (intro filter_cong) auto

lemma length_filter_addr:
  assumes "elems_ok l" "e \<in> set l"
  shows "length l = Suc (length (filter (\<lambda>x. x \<noteq> e) l))"
proof -
  have d: "distinct l" using assms(1) by (auto simp: elems_ok_def distinct_map)
  have "length (filter (\<lambda>x. x \<noteq> e) l) = card (set l - {e})"
    using d distinct_card [of "filter (\<lambda>x. x \<noteq> e) l"] by (simp add: set_diff_eq)
  then show ?thesis using assms(2) distinct_card [OF d] by (simp add: card_gt_0_iff) (metis Suc_pred card_gt_0_iff emptyE finite_set)
qed

lemma remove_buckets:
  assumes t: "buckets_ok t l" "elems_ok l" and e: "e \<in> set l" and h: "h = bkt (length t) e"
  defines "b \<equiv> (if ht_chain (t ! h) = he_addr e then (t ! h)\<lparr>ht_chain := next_addr (he_addr e) l\<rparr> else t ! h)"
  shows "ht_count b \<noteq> 0 \<and> buckets_ok (t[h := b\<lparr>ht_count := ht_count b - 1\<rparr>]) (filter (\<lambda>x. x \<noteq> e) l)"
proof -
  let ?n = "length t" and ?l' = "filter (\<lambda>x. x \<noteq> e) l"
  let ?es = "filter (\<lambda>y. bkt ?n y = h) l"
  have g: "grouped (bkt ?n) l" and bo: "bucket_ok l ?n h (t ! h)" and hn: "h < ?n" and d: "distinct (map he_addr l)"
    using t h by (auto simp: buckets_ok_def elems_ok_def)
  have es: "e \<in> set ?es" using e h by simp
  then have ne: "?es \<noteq> []" by (metis emptyE list.set(1))
  have cnt: "ht_count (t ! h) = length ?es" and chain: "ht_chain (t ! h) = he_addr (hd ?es)"
    using bo ne by (simp_all add: bucket_ok_def Let_def)
  have swap: "filter (\<lambda>y. bkt ?n y = k) ?l' = filter (\<lambda>x. x \<noteq> e) (filter (\<lambda>y. bkt ?n y = k) l)" for k
    by (simp add: conj_commute)
  have eq: "elems_ok ?es" using t(2) by (auto simp: elems_ok_def distinct_map inj_on_def)
  have len: "length ?es = Suc (length (filter (\<lambda>x. x \<noteq> e) ?es))" by (rule length_filter_addr [OF eq es])
  have hd': "he_addr (hd (filter (\<lambda>x. x \<noteq> e) ?es)) = ht_chain b" if n': "filter (\<lambda>x. x \<noteq> e) ?es \<noteq> []"
  proof (cases "hd ?es = e")
    case True
    have dw: "dropWhile (\<lambda>y. he_addr y \<noteq> he_addr e) l = dropWhile (\<lambda>y. bkt ?n y \<noteq> h) l"
      using grouped_addr [OF g d ne] True by simp
    obtain rest where r: "dropWhile (\<lambda>y. bkt ?n y \<noteq> h) l = e # rest" "?es = e # takeWhile (\<lambda>y. bkt ?n y = h) rest"
    proof -
      have tw: "takeWhile (\<lambda>y. bkt ?n y = h) (dropWhile (\<lambda>y. bkt ?n y \<noteq> h) l) = ?es" by (rule grouped_segment [OF g])
      then obtain z rest where z: "dropWhile (\<lambda>y. bkt ?n y \<noteq> h) l = z # rest" using ne by (cases "dropWhile (\<lambda>y. bkt ?n y \<noteq> h) l") auto
      then have "bkt ?n z = h" using dropWhile_eq_Cons_conv [of "\<lambda>y. bkt ?n y \<noteq> h" l z rest] by simp
      then have "?es = z # takeWhile (\<lambda>y. bkt ?n y = h) rest" using tw z by simp
      then show thesis using True z that by simp
    qed
    have "distinct ?es" using eq by (auto simp: elems_ok_def distinct_map)
    then have f: "filter (\<lambda>x. x \<noteq> e) ?es = takeWhile (\<lambda>y. bkt ?n y = h) rest"
      unfolding r(2) by (auto simp: filter_id_conv)
    then obtain x xs where "rest = x # xs" "bkt ?n x = h" using n' by (cases rest) (auto split: if_splits)
    then have "he_addr (hd (filter (\<lambda>x. x \<noteq> e) ?es)) = next_addr (he_addr e) l"
      unfolding f next_addr_def dw r(1) by simp
    then show ?thesis using chain True by (simp add: b_def)
  next
    case False
    obtain z zs where z: "?es = z # zs" using ne by (cases ?es) auto
    then have "z \<in> set l" by (metis filter_is_subset list.set_intros(1) subsetD)
    then have "he_addr z \<noteq> he_addr e" using addr_unique [OF t(2) _ e] False z by auto
    then show ?thesis using chain False unfolding z by (simp add: b_def)
  qed
  have c: "ht_count b = ht_count (t ! h)" by (simp add: b_def)
  have "bucket_ok ?l' ?n k (t[h := b\<lparr>ht_count := ht_count b - 1\<rparr>] ! k)" if "k < ?n" for k
  proof (cases "k = h")
    case True
    then show ?thesis using hd' len cnt c hn unfolding bucket_ok_def Let_def swap by simp
  next
    case False
    then have "filter (\<lambda>y. bkt ?n y = k) ?l' = filter (\<lambda>y. bkt ?n y = k) l"
      unfolding swap using h by (intro filter_True) auto
    then show ?thesis using False that t(1) by (simp add: bucket_ok_def buckets_ok_def Let_def)
  qed
  then show ?thesis using grouped_filter [OF g] t(1) len cnt c by (simp add: buckets_ok_def)
qed

lemma hash_inv_Init: "hash_inv sqlite3HashInit" "hash_map sqlite3HashInit = Map.empty"
  by (simp_all add: hash_inv_def sqlite3HashInit_def elems_ok_def hash_map_def)

lemma remove_lemma:
  assumes "hash_inv pH" "e \<in> set (first pH)"
  shows "\<exists>pH'. removeElementGivenHash pH e (bucket_of pH (pKey e)) = Some pH' \<and> hash_inv pH' \<and>
    hash_map pH' = (hash_map pH)(fold_key (pKey e) := None) \<and> length (first pH') \<le> length (first pH)"
proof -
  let ?l = "first pH" and ?l' = "filter (\<lambda>x. x \<noteq> e) (first pH)"
  have ok: "elems_ok ?l" and cnt: "hcount pH = length ?l" using assms(1) by (auto simp: hash_inv_def)
  have ok': "elems_ok ?l'" using ok by (auto simp: elems_ok_def distinct_map inj_on_def)
  have len: "length ?l = Suc (length ?l')" by (rule length_filter_addr [OF ok assms(2)])
  obtain t' where pH': "removeElementGivenHash pH e (bucket_of pH (pKey e)) =
      Some (let pH' = pH\<lparr>first := ?l', ht := t', hcount := hcount pH - 1\<rparr> in if length ?l' = 0 then sqlite3HashClear pH' else pH')"
    and t': "case t' of None \<Rightarrow> htsize pH = 0 | Some t \<Rightarrow> htsize pH = length t \<and> buckets_ok t ?l'"
  proof (cases "ht pH")
    case None
    have "pH\<lparr>first := ?l', ht := None, hcount := hcount pH - 1\<rparr> = pH\<lparr>first := ?l', hcount := hcount pH - 1\<rparr>"
      using None by (cases pH) simp
    then show thesis
      using None assms len cnt filter_addr [OF ok assms(2)]
      by (intro that [of None]) (simp_all add: removeElementGivenHash_def hash_inv_def Let_def bucket_of_def sqlite3HashClear_def)
  next
    case (Some t)
    let ?h = "bkt (length t) e"
    let ?b = "if ht_chain (t ! ?h) = he_addr e then (t ! ?h)\<lparr>ht_chain := next_addr (he_addr e) ?l\<rparr> else t ! ?h"
    have t: "buckets_ok t ?l" "htsize pH = length t" and h: "?h < length t"
      using assms(1) Some by (auto simp: hash_inv_def buckets_ok_def)
    have b: "ht_count ?b \<noteq> 0" "buckets_ok (t[?h := ?b\<lparr>ht_count := ht_count ?b - 1\<rparr>]) ?l'"
      using remove_buckets [OF t(1) ok assms(2) refl] by blast+
    then show thesis
      using Some t(2) h len cnt filter_addr [OF ok assms(2)]
      by (intro that [of "Some (t[?h := ?b\<lparr>ht_count := ht_count ?b - 1\<rparr>])"])
        (simp_all add: removeElementGivenHash_def Let_def bucket_of_def rda_def)
  qed
  have m: "map_of (map (\<lambda>e. (fold_key (pKey e), data e)) ?l') = (hash_map pH)(fold_key (pKey e) := None)"
  proof
    fix k
    show "map_of (map (\<lambda>e. (fold_key (pKey e), data e)) ?l') k = ((hash_map pH)(fold_key (pKey e) := None)) k"
    proof (cases "k = fold_key (pKey e)")
      case True
      then have "k \<notin> (\<lambda>x. fold_key (pKey x)) ` set ?l'" using key_unique [OF ok] assms(2) by auto
      then show ?thesis using True by (simp add: map_of_eq_None_iff image_image)
    next
      case False
      then have "map_of (map (\<lambda>e. (fold_key (pKey e), data e)) (filter (\<lambda>x. x \<noteq> e) l)) k =
          map_of (map (\<lambda>e. (fold_key (pKey e), data e)) l) k" for l
        by (induction l) auto
      then show ?thesis using False by (simp add: hash_map_def)
    qed
  qed
  show ?thesis
  proof (cases "length ?l' = 0")
    case True
    have "hash_inv (sqlite3HashClear q)" "hash_map (sqlite3HashClear q) = Map.empty" "first (sqlite3HashClear q) = []" for q :: "'a Hash"
      by (simp_all add: hash_inv_def sqlite3HashClear_def elems_ok_def hash_map_def)
    moreover have "(hash_map pH)(fold_key (pKey e) := None) = Map.empty" using m True by simp
    ultimately show ?thesis using pH' True by (simp add: Let_def)
  next
    case False
    then show ?thesis using pH' t' ok' m len cnt by (simp add: Let_def hash_inv_def hash_map_def split: option.splits)
  qed
qed

lemma new_addr_fresh: "new_addr l \<notin> he_addr ` set l"
proof -
  have "x \<in> set l \<Longrightarrow> he_addr x < new_addr l" for x
    by (induction l) (auto simp: new_addr_def)
  then show ?thesis by (metis imageE less_irrefl)
qed

lemma replace_lemma:
  assumes "hash_inv pH" "e \<in> set (first pH)" "fold_key (pKey e) = fold_key key"
  shows "let pH' = pH\<lparr>first := map (\<lambda>x. if he_addr x = he_addr e then x\<lparr>data := d, pKey := key\<rparr> else x) (first pH)\<rparr>
    in hash_inv pH' \<and> hash_map pH' = (hash_map pH)(fold_key key \<mapsto> d)"
proof -
  let ?l = "first pH"
  define g where "g x = (if he_addr x = he_addr e then x\<lparr>data := d, pKey := key\<rparr> else x)" for x :: "'a HashElem"
  have ok: "elems_ok ?l" using assms(1) by (simp add: hash_inv_def)
  have key: "fold_key (pKey (g x)) = fold_key (pKey x) \<and> data (g x) = (if x = e then d else data x)" if "x \<in> set ?l" for x
    using addr_unique [OF ok that assms(2)] assms(3) by (auto simp: g_def)
  have addr: "he_addr (g x) = he_addr x" for x by (simp add: g_def)
  have keys: "map (\<lambda>x. fold_key (pKey x)) (map g ?l) = map (\<lambda>x. fold_key (pKey x)) ?l"
    "map he_addr (map g ?l) = map he_addr ?l"
    using key addr by simp_all
  have ok': "elems_ok (map g ?l)" unfolding elems_ok_def keys using ok by (simp add: elems_ok_def)
  have bk: "\<forall>x\<in>set ?l. bkt n (g x) = bkt n x" for n using key strHash_key by metis
  have "bucket_ok (map g ?l) n h b = bucket_ok ?l n h b" for n h b
  proof -
    have "filter (\<lambda>y. bkt n (g y) = h) ?l = filter (\<lambda>y. bkt n y = h) ?l"
      using bk [of n] by (intro filter_cong) simp_all
    then have f: "filter (\<lambda>y. bkt n y = h) (map g ?l) = map g (filter (\<lambda>y. bkt n y = h) ?l)"
      by (simp add: filter_map comp_def)
    then show ?thesis
      by (cases "filter (\<lambda>y. bkt n y = h) ?l") (simp_all add: bucket_ok_def Let_def f addr)
  qed
  then have "buckets_ok t (map g ?l) = buckets_ok t ?l" for t
    using grouped_map [OF bk, of "length t"] by (simp only: buckets_ok_def)
  then have inv: "hash_inv (pH\<lparr>first := map g ?l\<rparr>)" using assms(1) ok' by (simp add: hash_inv_def split: option.splits)
  have "map_of (map (\<lambda>x. (fold_key (pKey x), data x)) (map g l)) k =
      ((map_of (map (\<lambda>x. (fold_key (pKey x), data x)) l))(fold_key key := (if e \<in> set l then Some d else None))) k"
    if "set l \<subseteq> set ?l" "elems_ok l" for l k
    using that
  proof (induction l)
    case (Cons x xs)
    have ok1: "elems_ok xs" and x: "x \<in> set ?l" using Cons.prems by (auto simp: elems_ok_def)
    have "fold_key (pKey x) \<noteq> fold_key key" if "x \<noteq> e"
      using key_unique [OF ok x assms(2)] assms(3) that by auto
    then show ?case using Cons.IH [OF _ ok1] Cons.prems(1) assms(3) key [OF x] by auto
  qed simp
  from this [OF subset_refl ok] have "hash_map (pH\<lparr>first := map g ?l\<rparr>) = (hash_map pH)(fold_key key \<mapsto> d)"
    using assms(2) by (auto simp: hash_map_def)
  moreover have eq: "map (\<lambda>x. if he_addr x = he_addr e then x\<lparr>data := d, pKey := key\<rparr> else x) ?l = map g ?l"
    by (simp add: g_def)
  ultimately show ?thesis using inv unfolding Let_def eq by blast
qed

lemma linked_inv:
  assumes "linked pH e pH'" "elems_ok (e # first pH)" "hcount pH = Suc (length (first pH))"
    "case ht pH' of None \<Rightarrow> htsize pH = 0 | Some t \<Rightarrow> htsize pH = length t \<and> buckets_ok t (first pH')"
  shows "hash_inv pH' \<and> hash_map pH' = (hash_map pH)(fold_key (pKey e) \<mapsto> data e)"
proof -
  have "elems_ok (first pH')" using assms(1,2) by (elim elems_ok_cong) (auto simp: linked_def)
  then have "hash_inv pH'" using assms(1,3,4) by (simp add: hash_inv_def linked_def split: option.splits)
  moreover have "hash_map pH' = map_of (map (\<lambda>e. (fold_key (pKey e), data e)) (e # first pH))"
    unfolding hash_map_def using assms(1) hash_map_cong [OF assms(2), of "first pH'"] by (simp add: linked_def)
  ultimately show ?thesis by (simp add: hash_map_def)
qed

definition insert_post :: "'d Hash \<Rightarrow> u8 list \<Rightarrow> 'd option \<Rightarrow> bool list \<Rightarrow> ('d option \<times> 'd Hash \<times> bool list) option \<Rightarrow> bool" where
  "insert_post pH key dat mem r \<longleftrightarrow>
     (\<exists>pH' mem'. hash_inv pH' \<and> hash_map pH' = (hash_map pH)(fold_key key := dat) \<and>
        length (first pH') \<le> Suc (length (first pH)) \<and>
        r = Some (hash_map pH (fold_key key), pH', mem')) \<or>
     (\<exists>mem'. mem \<noteq> [] \<and> dat \<noteq> None \<and> hash_map pH (fold_key key) = None \<and> r = Some (dat, pH, mem'))"

lemma insert_lemma:
  assumes inv: "hash_inv pH" and ms: "\<forall>n. n \<le> msize n" and small: "Suc (length (first pH)) < 2 ^ 32"
  shows "insert_post pH key dat mem (sqlite3HashInsert msize mem pH key dat)"
proof (cases "List.find (\<lambda>e. fold_key (pKey e) = fold_key key) (first pH)")
  case (Some e)
  have e: "hash_map pH (fold_key key) = Some (data e)" "e \<in> set (first pH)" "fold_key (pKey e) = fold_key key"
    using find_map_of(2) [OF Some] by (auto simp: hash_map_def)
  have b: "bucket_of pH key = bucket_of pH (pKey e)" using strHash_key [OF e(3)] by (simp add: bucket_of_def)
  show ?thesis
  proof (cases dat)
    case None
    obtain pH' where r: "removeElementGivenHash pH e (bucket_of pH (pKey e)) = Some pH'" "hash_inv pH'"
      "hash_map pH' = (hash_map pH)(fold_key (pKey e) := None)" "length (first pH') \<le> length (first pH)"
      using remove_lemma [OF inv e(2)] by blast
    then show ?thesis using None Some e r b by (auto simp: sqlite3HashInsert_def find_lemma [OF inv] insert_post_def)
  next
    case dat: (Some d)
    from replace_lemma [OF inv e(2,3), of d] show ?thesis
      using dat Some e by (auto simp: sqlite3HashInsert_def find_lemma [OF inv] insert_post_def Let_def)
  qed
next
  case None
  have n: "hash_map pH (fold_key key) = None" using None unfolding hash_map_def by (rule find_map_of(1) [THEN iffD1])
  show ?thesis
  proof (cases dat)
    case None': None
    then have "(hash_map pH)(fold_key key := dat) = hash_map pH" using n by auto
    then show ?thesis using None' None n inv by (auto simp: sqlite3HashInsert_def find_lemma [OF inv] insert_post_def)
  next
    case dat: (Some d)
    show ?thesis
    proof (cases "malloc mem")
      case (Pair ok mem1)
      show ?thesis
      proof (cases ok)
        case False
        then show ?thesis using dat None Pair n
          by (cases mem) (auto simp: sqlite3HashInsert_def find_lemma [OF inv] insert_post_def)
      next
        case True
        define e where "e = \<lparr>he_addr = new_addr (first pH), data = d, pKey = key\<rparr>"
        define pH1 where "pH1 = pH\<lparr>hcount := Suc (length (first pH))\<rparr>"
        have c: "(hcount pH + 1) mod 2 ^ 32 = Suc (length (first pH))" using inv small by (simp add: hash_inv_def)
        have ok: "elems_ok (e # first pH)"
          using inv new_addr_fresh [of "first pH"] None
          by (auto simp: e_def elems_ok_def hash_inv_def find_None_iff image_iff)
        have ok1: "elems_ok (first pH1)" using inv by (simp add: pH1_def hash_inv_def)
        obtain pH2 mem2 where r: "hash_grow msize mem1 pH1 key (bucket_of pH key) = Some (bucket_of pH2 key, pH2, mem2)"
          and p2: "set (first pH2) = set (first pH)" "length (first pH2) = length (first pH)" "hcount pH2 = Suc (length (first pH))"
            "case ht pH2 of None \<Rightarrow> htsize pH2 = 0 | Some t \<Rightarrow> htsize pH2 = length t \<and> buckets_ok t (first pH2)"
        proof (cases "hcount pH1 \<ge> 10 \<and> hcount pH1 > 2 * htsize pH1 mod 2 ^ 32")
          case False
          have "bucket_of pH1 key = bucket_of pH key" by (simp add: pH1_def bucket_of_def)
          then show thesis
            using inv by (intro that [of pH1 mem1]) (simp only: hash_grow_def if_not_P [OF False], simp_all add: pH1_def hash_inv_def split: option.splits)
        next
          case True
          obtain did pH2 mem2 where h: "rehash msize mem1 pH1 (hcount pH1 * 2 mod 2 ^ 32) = Some (did, pH2, mem2)"
            "if did then hcount pH2 = hcount pH1 \<and> set (first pH2) = set (first pH1) \<and> length (first pH2) = length (first pH1) \<and>
               (\<exists>t. ht pH2 = Some t \<and> htsize pH2 = length t \<and> buckets_ok t (first pH2))
             else pH2 = pH1"
            using rehash_lemma [OF ms ok1] by blast
          have p2: "set (first pH2) = set (first pH) \<and> length (first pH2) = length (first pH) \<and>
            hcount pH2 = Suc (length (first pH)) \<and>
            (case ht pH2 of None \<Rightarrow> htsize pH2 = 0 | Some t \<Rightarrow> htsize pH2 = length t \<and> buckets_ok t (first pH2))"
          proof (cases did)
            case True
            then show ?thesis using h(2) by (auto simp: pH1_def)
          next
            case False
            then have "pH2 = pH1" using h(2) by simp
            then show ?thesis using inv by (simp add: pH1_def hash_inv_def split: option.splits)
          qed
          show thesis
          proof (rule that [of pH2 mem2])
            show "hash_grow msize mem1 pH1 key (bucket_of pH key) = Some (bucket_of pH2 key, pH2, mem2)"
              unfolding hash_grow_def if_P [OF True] h(1) using h(2) by (cases did) (auto simp: bucket_of_def pH1_def)
          qed (use p2 in blast)+
        qed
        have ok2: "elems_ok (e # first pH2)" using p2 by (intro elems_ok_cong [OF ok]) simp_all
        obtain pH3 where i: "insertElement pH2 (if ht pH2 \<noteq> None then Some (bucket_of pH2 key) else None) e = Some pH3"
          "linked pH2 e pH3" "case ht pH3 of None \<Rightarrow> htsize pH2 = 0 | Some t \<Rightarrow> htsize pH2 = length t \<and> buckets_ok t (first pH3)"
        proof (cases "ht pH2")
          case None
          then show thesis using p2(4) by (intro that [of "pH2\<lparr>first := e # first pH2\<rparr>"]) (simp_all add: insertElement_def linked_def)
        next
          case (Some t)
          have ok3: "elems_ok (first pH2)" using ok2 by (simp add: elems_ok_def)
          show thesis using insertElement_lemma [OF Some _ ok3, of "bucket_of pH2 key" e] p2(4) Some that
            by (auto simp: bucket_of_def e_def)
        qed
        have "hash_inv pH3 \<and> hash_map pH3 = (hash_map pH2)(fold_key (pKey e) \<mapsto> data e)"
          using linked_inv [OF i(2) ok2 _ i(3)] p2 by simp
        moreover have "hash_map pH2 = hash_map pH"
          unfolding hash_map_def using hash_map_cong [of "first pH" "first pH2"] p2 ok1 by (simp add: pH1_def)
        moreover have "sqlite3HashInsert msize mem pH key dat = Some (None, pH3, mem2)"
          using r i(1) Pair True dat c None
          by (simp add: sqlite3HashInsert_def find_lemma [OF inv] Let_def pH1_def e_def)
        ultimately show ?thesis
          using n dat i(2) p2(2) unfolding insert_post_def by (auto simp: e_def linked_def)
      qed
    qed
  qed
qed

section \<open>The table as a map\<close>

text \<open>The table when no allocation fails, with the sizes of \<open>ROUND8\<close> the default allocator reports.\<close>

definition round8 :: "nat \<Rightarrow> nat" where
  "round8 n = (n + 7) div 8 * 8"

lemma round8_ge: "\<forall>n. n \<le> round8 n"
proof
  fix n :: nat
  show "n \<le> round8 n" unfolding round8_def by presburger
qed

definition hash_put :: "u8 list \<Rightarrow> 'd option \<Rightarrow> 'd Hash \<Rightarrow> ('d option \<times> 'd Hash) option" where
  "hash_put key dat pH = map_option (\<lambda>(r, pH, mem). (r, pH)) (sqlite3HashInsert round8 [] pH key dat)"

definition hash_sized :: "nat \<Rightarrow> 'd Hash \<Rightarrow> bool" where
  "hash_sized n pH \<longleftrightarrow> hash_inv pH \<and> length (first pH) \<le> n"

lemma hash_sized_Init: "hash_sized n sqlite3HashInit"
  using hash_inv_Init(1) by (simp add: hash_sized_def sqlite3HashInit_def)

interpretation hm: map_contract hash_sized hash_map fold_key hash_put sqlite3HashFind "2 ^ 32 - 2"
proof unfold_locales
  fix n :: nat and s :: "'d Hash" and k d
  assume s: "hash_sized n s" "n < 2 ^ 32 - 2"
  then have "insert_post s k d [] (sqlite3HashInsert round8 [] s k d)"
    by (intro insert_lemma round8_ge) (auto simp: hash_sized_def)
  then show "\<exists>s'. hash_put k d s = Some (hash_map s (fold_key k), s') \<and> hash_sized (Suc n) s' \<and> hash_map s' = (hash_map s)(fold_key k := d)"
    using s(1) by (auto simp: insert_post_def hash_put_def hash_sized_def)
next
  fix n :: nat and s :: "'d Hash" and k
  assume "hash_sized n s"
  then show "sqlite3HashFind s k = Some (hash_map s (fold_key k))" by (simp add: hash_sized_def HashFind_lemma)
qed

section \<open>Properties\<close>

text \<open>
  Property C14. Inserting, replacing or deleting in a well-formed hash table, whatever the
  allocator returns and whichever of its allocations fail, never follows a pointer off the
  list or leaves the bucket array, keeps the invariant, and changes exactly the binding of
  the key; if the allocation of the element fails the table is unchanged and the new data
  is returned.
\<close>

theorem HashInsert_correct:
  assumes "hash_inv pH" and "\<forall>n. n \<le> sqlite3MallocSize n" and "Suc (length (first pH)) < 2 ^ 32"
  shows "(\<exists>pH' mem'. sqlite3HashInsert sqlite3MallocSize mem pH key dat = Some (hash_map pH (fold_key key), pH', mem') \<and>
       hash_inv pH' \<and> hash_map pH' = (hash_map pH)(fold_key key := dat)) \<or>
    (mem \<noteq> [] \<and> dat \<noteq> None \<and> hash_map pH (fold_key key) = None \<and>
       (\<exists>mem'. sqlite3HashInsert sqlite3MallocSize mem pH key dat = Some (dat, pH, mem')))"
  using insert_lemma [OF assms, of key dat mem] by (auto simp: insert_post_def)

theorem HashInsert_correct_witness:
  "(\<exists>pH' mem'. sqlite3HashInsert round8 [] (sqlite3HashInit :: nat Hash) [0x74, 0x31] (Some 5) =
       Some (hash_map (sqlite3HashInit :: nat Hash) (fold_key [0x74, 0x31]), pH', mem') \<and>
     hash_inv pH' \<and> hash_map pH' = (hash_map sqlite3HashInit)(fold_key [0x74, 0x31] := Some 5))"
  using HashInsert_correct [of "sqlite3HashInit :: nat Hash" round8 "[]" "[0x74, 0x31]" "Some 5"] hash_inv_Init round8_ge
  by (simp add: sqlite3HashInit_def)

text \<open>
  Property C16. A hash table refines a map: any sequence of inserts, deletions and lookups on a
  new table gives the answers of a map in which keys that differ only in case are one key.
\<close>

theorem Hash_refines_map:
  assumes "length ops \<le> 2 ^ 32 - 2"
  shows "map_run hash_put sqlite3HashFind ops sqlite3HashInit = Some (map_answers fold_key ops Map.empty)"
  using hm.run_answers [OF hash_sized_Init [of 0], of ops] assms by (simp add: hash_inv_Init)

theorem Hash_refines_map_witness:
  "map_run hash_put sqlite3HashFind [Put [0x61] (Some 1), Put [0x41] (Some 2), Get [0x61], Put [0x61] None, Get [0x41]]
     sqlite3HashInit = Some [None, Some 1, Some (2 :: nat), Some 2, None]"
proof -
  have "map_answers fold_key [Put [0x61] (Some 1), Put [0x41] (Some 2), Get [0x61], Put [0x61] None, Get [0x41]] Map.empty =
      [None, Some 1, Some (2 :: nat), Some 2, None]" by code_simp
  then show ?thesis
    using Hash_refines_map [of "[Put [0x61] (Some 1), Put [0x41] (Some (2 :: nat)), Get [0x61], Put [0x61] None, Get [0x41]]"]
    by simp
qed

end
