(* ===== verification/Utf.thy ===== *)
theory Utf
  imports Prelude
begin

text \<open>
  The encodings of utf.c: reading and writing one character in UTF-8 and both byte orders of
  UTF-16, translating a text between them, byte-order marks and lengths. A character is the
  \<open>u32\<close> of the code; the proofs compute with the values of its fields as numbers.
\<close>

section \<open>Characters in UTF-8\<close>

definition sqlite3Utf8Trans1 :: "u8 list" where
  "sqlite3Utf8Trans1 =
    [0x00, 0x01, 0x02, 0x03, 0x04, 0x05, 0x06, 0x07,
     0x08, 0x09, 0x0a, 0x0b, 0x0c, 0x0d, 0x0e, 0x0f,
     0x10, 0x11, 0x12, 0x13, 0x14, 0x15, 0x16, 0x17,
     0x18, 0x19, 0x1a, 0x1b, 0x1c, 0x1d, 0x1e, 0x1f,
     0x00, 0x01, 0x02, 0x03, 0x04, 0x05, 0x06, 0x07,
     0x08, 0x09, 0x0a, 0x0b, 0x0c, 0x0d, 0x0e, 0x0f,
     0x00, 0x01, 0x02, 0x03, 0x04, 0x05, 0x06, 0x07,
     0x00, 0x01, 0x02, 0x03, 0x00, 0x01, 0x00, 0x00]"

definition WRITE_UTF8 :: "u32 \<Rightarrow> u8 list" where
  "WRITE_UTF8 c =
     (if c < 0x00080 then [ucast (c AND 0xFF)]
      else if c < 0x00800 then
        [0xC0 + ucast (drop_bit 6 c AND 0x1F), 0x80 + ucast (c AND 0x3F)]
      else if c < 0x10000 then
        [0xE0 + ucast (drop_bit 12 c AND 0x0F), 0x80 + ucast (drop_bit 6 c AND 0x3F), 0x80 + ucast (c AND 0x3F)]
      else
        [0xF0 + ucast (drop_bit 18 c AND 0x07), 0x80 + ucast (drop_bit 12 c AND 0x3F),
         0x80 + ucast (drop_bit 6 c AND 0x3F), 0x80 + ucast (c AND 0x3F)])"

text \<open>
  The bytes of a character after the first; \<open>terminated\<close> says whether the end of the list is the
  end \<open>zTerm\<close> of the input or, as it is zero-terminated, must not be reached.
\<close>

fun utf8_tail :: "bool \<Rightarrow> u32 \<Rightarrow> u8 list \<Rightarrow> (u32 \<times> u8 list) option" where
  "utf8_tail terminated c [] = (if terminated then None else Some (c, []))"
| "utf8_tail terminated c (b # z) =
     (if b AND 0xc0 = 0x80 then utf8_tail terminated (push_bit 6 c + ucast (0x3f AND b)) z else Some (c, b # z))"

definition utf8_fix :: "u32 \<Rightarrow> u32" where
  "utf8_fix c = (if c < 0x80 \<or> c AND 0xFFFFF800 = 0xD800 \<or> c AND 0xFFFFFFFE = 0xFFFE then 0xFFFD else c)"

definition utf8_read :: "bool \<Rightarrow> u8 list \<Rightarrow> (u32 \<times> u8 list) option" where
  "utf8_read terminated z = (case z of
     [] \<Rightarrow> None
   | b # z \<Rightarrow>
       if b \<ge> 0xc0 then do {
         c \<leftarrow> rda sqlite3Utf8Trans1 (unat (b - 0xc0));
         (c, z) \<leftarrow> utf8_tail terminated (ucast c) z;
         Some (utf8_fix c, z)
       }
       else Some (ucast b, z))"

text \<open>The macro, on the input up to \<open>zTerm\<close>, and the function, on a zero-terminated string.\<close>

definition READ_UTF8 :: "u8 list \<Rightarrow> (u32 \<times> u8 list) option" where
  "READ_UTF8 zIn = utf8_read False zIn"

definition sqlite3Utf8Read :: "u8 list \<Rightarrow> (u32 \<times> u8 list) option" where
  "sqlite3Utf8Read pz = utf8_read True pz"

fun skip_tail :: "u8 list \<Rightarrow> u8 list option" where
  "skip_tail [] = None"
| "skip_tail (b # z) = (if b AND 0xc0 = 0x80 then skip_tail z else Some (b # z))"

definition SQLITE_SKIP_UTF8 :: "u8 list \<Rightarrow> u8 list option" where
  "SQLITE_SKIP_UTF8 z = (case z of [] \<Rightarrow> None | b # z \<Rightarrow> if b \<ge> 0xc0 then skip_tail z else Some z)"

section \<open>Characters in UTF-16\<close>

text \<open>
  The condition \<open>TERM\<close> under which the second half of a pair is read: always, or if the input
  goes on.
\<close>

definition WRITE_UTF16LE :: "u32 \<Rightarrow> u8 list" where
  "WRITE_UTF16LE c =
     (if c \<le> 0xFFFF then [ucast (c AND 0x00FF), ucast (drop_bit 8 c AND 0x00FF)]
      else [ucast ((drop_bit 10 c AND 0x003F) + (drop_bit 10 (c - 0x10000) AND 0x00C0)),
            ucast (0x00D8 + (drop_bit 18 (c - 0x10000) AND 0x03)),
            ucast (c AND 0x00FF),
            ucast (0x00DC + (drop_bit 8 c AND 0x03))])"

definition WRITE_UTF16BE :: "u32 \<Rightarrow> u8 list" where
  "WRITE_UTF16BE c =
     (if c \<le> 0xFFFF then [ucast (drop_bit 8 c AND 0x00FF), ucast (c AND 0x00FF)]
      else [ucast (0x00D8 + (drop_bit 18 (c - 0x10000) AND 0x03)),
            ucast ((drop_bit 10 c AND 0x003F) + (drop_bit 10 (c - 0x10000) AND 0x00C0)),
            ucast (0x00DC + (drop_bit 8 c AND 0x03)),
            ucast (c AND 0x00FF)])"

definition utf16_pair :: "u32 \<Rightarrow> u32 \<Rightarrow> u32" where
  "utf16_pair c c2 = (c2 AND 0x03FF) + push_bit 10 (c AND 0x003F) + push_bit 10 ((c AND 0x03C0) + 0x0040)"

fun READ_UTF16LE :: "bool \<Rightarrow> u8 list \<Rightarrow> (u32 \<times> u8 list) option" where
  "READ_UTF16LE always (b0 # b1 # z) =
     (let c = ucast b0 + push_bit 8 (ucast b1)
      in if c \<ge> 0xD800 \<and> c < 0xE000 \<and> (always \<or> z \<noteq> []) then
           (case z of
              b2 # b3 # z \<Rightarrow> Some (utf16_pair c (ucast b2 + push_bit 8 (ucast b3)), z)
            | _ \<Rightarrow> None)
         else Some (c, z))"
| "READ_UTF16LE always _ = None"

fun READ_UTF16BE :: "bool \<Rightarrow> u8 list \<Rightarrow> (u32 \<times> u8 list) option" where
  "READ_UTF16BE always (b0 # b1 # z) =
     (let c = push_bit 8 (ucast b0) + ucast b1
      in if c \<ge> 0xD800 \<and> c < 0xE000 \<and> (always \<or> z \<noteq> []) then
           (case z of
              b2 # b3 # z \<Rightarrow> Some (utf16_pair c (push_bit 8 (ucast b2) + ucast b3), z)
            | _ \<Rightarrow> None)
         else Some (c, z))"
| "READ_UTF16BE always _ = None"

section \<open>Translation of a text\<close>

datatype encoding = SQLITE_UTF8 | SQLITE_UTF16LE | SQLITE_UTF16BE

text \<open>The loop that reads characters up to the end of the input and writes them.\<close>

function translate_loop :: "(u8 list \<Rightarrow> (u32 \<times> u8 list) option) \<Rightarrow> (u32 \<Rightarrow> u8 list) \<Rightarrow> u8 list \<Rightarrow> u8 list option" where
  "translate_loop get put zIn =
     (if zIn = [] then Some []
      else do {
        (c, z) \<leftarrow> get zIn;
        if length z < length zIn then map_option ((@) (put c)) (translate_loop get put z) else None
      })"
  by pat_completeness auto
termination
  by (relation "measure (\<lambda>(get, put, z). length z)") auto

declare translate_loop.simps [simp del]

fun swap_bytes :: "u8 list \<Rightarrow> u8 list" where
  "swap_bytes (a # b # z) = b # a # swap_bytes z"
| "swap_bytes z = z"

record text_value =
  tv_z :: "u8 list"
  tv_enc :: encoding

definition reader :: "encoding \<Rightarrow> u8 list \<Rightarrow> (u32 \<times> u8 list) option" where
  "reader enc = (case enc of SQLITE_UTF8 \<Rightarrow> READ_UTF8 | SQLITE_UTF16LE \<Rightarrow> READ_UTF16LE False | SQLITE_UTF16BE \<Rightarrow> READ_UTF16BE False)"

definition writer :: "encoding \<Rightarrow> u32 \<Rightarrow> u8 list" where
  "writer enc = (case enc of SQLITE_UTF8 \<Rightarrow> WRITE_UTF8 | SQLITE_UTF16LE \<Rightarrow> WRITE_UTF16LE | SQLITE_UTF16BE \<Rightarrow> WRITE_UTF16BE)"

text \<open>
  The text \<open>z\<close> of \<open>n\<close> bytes in its new encoding. The last failed \<open>assert\<close>, that the output and its
  terminator fit the buffer of \<open>len\<close> bytes, is \<open>None\<close>. Between the two byte orders of UTF-16 the
  allocation that may fail is that of \<open>sqlite3VdbeMemMakeWriteable\<close>, for a text in memory of others.
\<close>

definition sqlite3VdbeMemTranslate :: "bool list \<Rightarrow> text_value \<Rightarrow> encoding \<Rightarrow> (nat \<times> text_value \<times> bool list) option" where
  "sqlite3VdbeMemTranslate mem p desiredEnc =
     (let n = length (tv_z p); even_n = n - n mod 2
      in if tv_enc p = desiredEnc then None
         else if tv_enc p \<noteq> SQLITE_UTF8 \<and> desiredEnc \<noteq> SQLITE_UTF8 then
           (case malloc mem of
              (False, mem) \<Rightarrow> Some (SQLITE_NOMEM, p, mem)
            | (True, mem) \<Rightarrow> Some (SQLITE_OK, \<lparr>tv_z = swap_bytes (take even_n (tv_z p)) @ drop even_n (tv_z p), tv_enc = desiredEnc\<rparr>, mem))
         else do {
           let p = (if desiredEnc = SQLITE_UTF8 then p\<lparr>tv_z := take even_n (tv_z p)\<rparr> else p);
           let len = (if desiredEnc = SQLITE_UTF8 then length (tv_z p) * 2 + 1 else length (tv_z p) * 2 + 2);
           let (ok, mem) = malloc mem;
           if \<not> ok then Some (SQLITE_NOMEM, p, mem)
           else do {
             z \<leftarrow> translate_loop (reader (tv_enc p)) (writer desiredEnc) (tv_z p);
             if length z + (if desiredEnc = SQLITE_UTF8 then 1 else 2) \<le> len
             then Some (SQLITE_OK, \<lparr>tv_z = z, tv_enc = desiredEnc\<rparr>, mem) else None
           }
         })"

definition sqlite3VdbeMemHandleBom :: "bool list \<Rightarrow> text_value \<Rightarrow> nat \<times> text_value \<times> bool list" where
  "sqlite3VdbeMemHandleBom mem p =
     (let bom = (case tv_z p of
          b1 # b2 # _ \<Rightarrow> if b1 = 0xFE \<and> b2 = 0xFF then Some SQLITE_UTF16BE
            else if b1 = 0xFF \<and> b2 = 0xFE then Some SQLITE_UTF16LE else None
        | _ \<Rightarrow> None)
      in (case bom of
            None \<Rightarrow> (SQLITE_OK, p, mem)
          | Some enc \<Rightarrow>
              (case malloc mem of
                 (False, mem) \<Rightarrow> (SQLITE_NOMEM, p, mem)
               | (True, mem) \<Rightarrow> (SQLITE_OK, \<lparr>tv_z = drop 2 (tv_z p), tv_enc = enc\<rparr>, mem))))"

section \<open>Lengths\<close>

text \<open>
  The number of characters in a zero-terminated string, in its first \<open>nByte\<close> bytes if that is not
  negative; \<open>pos\<close> bytes are behind.
\<close>

function char_count :: "u8 list \<Rightarrow> int \<Rightarrow> int \<Rightarrow> nat option" where
  "char_count z pos nByte = do {
     b \<leftarrow> rd8 z 0;
     if b \<noteq> 0 \<and> (nByte < 0 \<or> pos < nByte) then do {
       z' \<leftarrow> SQLITE_SKIP_UTF8 z;
       if length z' < length z then map_option Suc (char_count z' (pos + int (length z) - int (length z')) nByte) else None
     }
     else Some 0
   }"
  by pat_completeness auto
termination
  by (relation "measure (\<lambda>(z, pos, n). length z)") auto

declare char_count.simps [simp del]

definition sqlite3Utf8CharLen :: "u8 list \<Rightarrow> int \<Rightarrow> nat option" where
  "sqlite3Utf8CharLen zIn nByte = char_count zIn 0 nByte"

fun utf16_skip :: "(u8 list \<Rightarrow> (u32 \<times> u8 list) option) \<Rightarrow> u8 list \<Rightarrow> nat \<Rightarrow> u8 list option" where
  "utf16_skip get z 0 = Some z"
| "utf16_skip get z (Suc n) = do { (c, z) \<leftarrow> get z; utf16_skip get z n }"

definition sqlite3Utf16ByteLen :: "bool \<Rightarrow> u8 list \<Rightarrow> nat \<Rightarrow> nat option" where
  "sqlite3Utf16ByteLen big zIn nChar =
     map_option (\<lambda>z. length zIn - length z) (utf16_skip (if big then READ_UTF16BE True else READ_UTF16LE True) zIn nChar)"

section \<open>Fields of a word as numbers\<close>

lemma unat_and_mask: "unat (w AND mask m :: 'a::len word) = unat w mod 2 ^ m"
  by (simp only: take_bit_eq_mask [symmetric] unsigned_take_bit_eq) (simp only: take_bit_eq_mod)

lemma unat_field: "m \<le> 8 \<Longrightarrow> unat (ucast (drop_bit k (c :: u32) AND mask m) :: u8) = unat c div 2 ^ k mod 2 ^ m"
proof -
  assume m: "m \<le> 8"
  have "(2::nat) ^ m \<le> 2 ^ 8" using m by (rule power_increasing) simp
  moreover have "unat c div 2 ^ k mod 2 ^ m < 2 ^ m" by simp
  ultimately have "unat c div 2 ^ k mod 2 ^ m < 2 ^ 8" by linarith
  then show ?thesis
    by (simp add: unsigned_ucast_eq unat_and_mask unat_drop_bit take_bit_eq_mod)
qed

lemma masks: "(0x03 :: u32) = mask 2" "(0x07 :: u32) = mask 3" "(0x0F :: u32) = mask 4" "(0x1F :: u32) = mask 5" "(0x3F :: u32) = mask 6" "(0xFF :: u32) = mask 8"
    "(0x03FF :: u32) = mask 10"
  by (simp_all add: mask_eq_exp_minus_1)

lemma unat_fields [simp]:
  "unat (ucast (c AND 0xFF) :: u8) = unat (c :: u32) mod 256"
  "unat (ucast (c AND 0x3F) :: u8) = unat c mod 64"
  "unat (ucast (drop_bit 6 c AND 0x1F) :: u8) = unat c div 64 mod 32"
  "unat (ucast (drop_bit 6 c AND 0x3F) :: u8) = unat c div 64 mod 64"
  "unat (ucast (drop_bit 12 c AND 0x0F) :: u8) = unat c div 4096 mod 16"
  "unat (ucast (drop_bit 12 c AND 0x3F) :: u8) = unat c div 4096 mod 64"
  "unat (ucast (drop_bit 18 c AND 0x07) :: u8) = unat c div 262144 mod 8"
  "unat (ucast (drop_bit 8 c AND 0xFF) :: u8) = unat c div 256 mod 256"
  using unat_field [of 8 0 c] unat_field [of 6 0 c] unat_field [of 5 6 c] unat_field [of 6 6 c] unat_field [of 4 12 c]
    unat_field [of 6 12 c] unat_field [of 3 18 c] unat_field [of 8 8 c]
  unfolding masks by simp_all

lemma unat_plus: "unat a + unat b < 2 ^ LENGTH('a) \<Longrightarrow> unat (a + b :: 'a::len word) = unat a + unat b"
  by (simp add: unat_word_ariths(1))

lemma u8_all: "map P [0..<256] = map Q [0..<256] \<Longrightarrow> P (unat (b :: u8)) = Q (unat b)"
proof -
  assume "map P [0..<256] = map Q [0..<256]"
  from arg_cong [OF this, of "\<lambda>xs. xs ! unat b"] show ?thesis
    using unsigned_less [of b, where 'a = nat] by (simp del: upt_rec_numeral)
qed

lemma cont_iff: "(b :: u8) AND 0xc0 = 0x80 \<longleftrightarrow> unat b div 64 = 2"
proof -
  have "map (\<lambda>n. (of_nat n :: u8) AND 0xc0 = 0x80) [0..<256] = map (\<lambda>n. n div 64 = 2) [0..<256]" by code_simp
  from u8_all [OF this, of b] show ?thesis by simp
qed

lemma unat_low6: "unat (0x3f AND b :: u8) = unat b mod 64"
proof -
  have "(0x3f :: u8) = mask 6" by (simp add: mask_eq_exp_minus_1)
  then show ?thesis using unat_and_mask [of b 6] by (simp only: and.commute) simp
qed

lemma lead_table: "i < 64 \<Longrightarrow> unat (sqlite3Utf8Trans1 ! i) = (if i < 32 then i else if i < 48 then i - 32 else if i < 56 then i - 48 else if i < 60 then i - 56
    else if i = 61 then 1 else 0)"
proof -
  assume i: "i < 64"
  have "map (\<lambda>i. unat (sqlite3Utf8Trans1 ! i)) [0..<64] = map (\<lambda>i. if i < 32 then i else if i < 48 then i - 32 else if i < 56 then i - 48 else if i < 60 then i - 56
    else if i = 61 then 1 else 0) [0..<64]" by code_simp
  from arg_cong [OF this, of "\<lambda>xs. xs ! i"] show ?thesis using i by (simp del: upt_rec_numeral)
qed

lemma length_trans1: "length sqlite3Utf8Trans1 = 64"
  by (simp add: sqlite3Utf8Trans1_def)

section \<open>Reading back a character in UTF-8\<close>

text \<open>The characters that are encoded as themselves: no surrogates, and neither of the two that the reader replaces.\<close>

definition scalar :: "u32 \<Rightarrow> bool" where
  "scalar c \<longleftrightarrow> c < 0x110000 \<and> \<not> (0xD800 \<le> c \<and> c < 0xE000) \<and> c \<noteq> 0xFFFE \<and> c \<noteq> 0xFFFF"

definition no_cont :: "u8 list \<Rightarrow> bool" where
  "no_cont z \<longleftrightarrow> z = [] \<or> hd z AND 0xc0 \<noteq> 0x80"

lemma utf8_tail_step:
  "unat b = 128 + k \<Longrightarrow> k < 64 \<Longrightarrow> unat a * 64 + k < 2 ^ 32 \<Longrightarrow> \<exists>a'. unat a' = unat a * 64 + k \<and> utf8_tail t a (b # z) = utf8_tail t a' z"
proof (intro exI conjI)
  assume k: "unat b = 128 + k" "k < 64" "unat a * 64 + k < 2 ^ 32"
  have "unat (push_bit 6 a) = unat a * 64"
    using k(3) by (simp add: push_bit_eq_mult unat_word_ariths(2))
  moreover have "unat (ucast (0x3f AND b) :: u32) = k"
  proof -
    have "(128 + k) mod 64 = k" using k(2) mod_mult_self1 [of k 2 64] by (simp add: add.commute)
    then show ?thesis using k(1,2) unat_low6 [of b] by (simp add: unsigned_ucast_eq take_bit_eq_mod)
  qed
  ultimately show "unat (push_bit 6 a + ucast (0x3f AND b)) = unat a * 64 + k"
    using k(3) by (simp add: unat_plus)
  have "unat b div 64 = 2" using k(1,2) by simp
  then show "utf8_tail t a (b # z) = utf8_tail t (push_bit 6 a + ucast (0x3f AND b)) z" by (simp add: cont_iff)
qed

lemma utf8_tail_stop: "no_cont z \<Longrightarrow> (t \<Longrightarrow> z \<noteq> []) \<Longrightarrow> utf8_tail t a z = Some (a, z)"
  by (cases z) (auto simp: no_cont_def)

lemma utf8_lead:
  assumes "unat b = 192 + i" "i < 64" "j = unat (sqlite3Utf8Trans1 ! i)"
  shows "\<exists>a. unat a = j \<and> (\<forall>t z. utf8_read t (b # z) = do { (c, z) \<leftarrow> utf8_tail t a z; Some (utf8_fix c, z) })"
proof (intro exI conjI allI)
  have "b \<ge> 0xc0" using assms(1) by (simp add: word_le_nat_alt)
  moreover have "unat (b - 0xc0) = i" using assms(1) by (simp add: unat_sub word_le_nat_alt)
  ultimately show "utf8_read t (b # z) = do { (c, z) \<leftarrow> utf8_tail t (ucast (sqlite3Utf8Trans1 ! i)) z; Some (utf8_fix c, z) }" for t z
    using assms(2) by (simp add: utf8_read_def rda_def length_trans1)
  show "unat (ucast (sqlite3Utf8Trans1 ! i) :: u32) = j"
    using assms(3) unsigned_less [of "sqlite3Utf8Trans1 ! i", where 'a = nat] by (simp add: unsigned_ucast_eq take_bit_eq_mod)
qed

lemma scalar_nat: "scalar c \<longleftrightarrow> unat c < 0x110000 \<and> \<not> (0xD800 \<le> unat c \<and> unat c < 0xE000) \<and> unat c \<noteq> 0xFFFE \<and> unat c \<noteq> 0xFFFF"
  unfolding scalar_def word_less_nat_alt word_le_nat_alt word_unat_eq_iff by simp

lemma bit_mask21 [bitblast]: "bit (2097151 :: int) n \<longleftrightarrow> n < 21" "bit (2147483647 :: int) n \<longleftrightarrow> n < 31"
proof -
  have "(2097151 :: int) = mask 21" "(2147483647 :: int) = mask 31" by (simp_all add: mask_eq_exp_minus_1)
  then show "bit (2097151 :: int) n \<longleftrightarrow> n < 21" "bit (2147483647 :: int) n \<longleftrightarrow> n < 31"
    by (simp_all only: bit_mask_iff possible_bit_def) simp_all
qed

lemma drop_and_mask: "drop_bit 11 (c AND 0xFFFFF800 :: u32) = drop_bit 11 c" "drop_bit 1 (c AND 0xFFFFFFFE :: u32) = drop_bit 1 c"
  by (rule bit_word_eqI, auto simp: bit_simps bitblast dest: bit_u32)+

lemma utf8_fix_scalar:
  assumes "scalar c" "0x80 \<le> unat c"
  shows "utf8_fix c = c"
proof -
  have "c AND 0xFFFFF800 \<noteq> 0xD800"
  proof
    assume e: "c AND 0xFFFFF800 = 0xD800"
    have "drop_bit 11 c = 27" using drop_and_mask(1) [of c] unfolding e by simp
    from arg_cong [OF this, of unat] have "unat c div 2048 = 27" unfolding unat_drop_bit by simp
    then have "0xD800 \<le> unat c \<and> unat c < 0xE000"
      using div_mult_mod_eq [of "unat c" 2048] mod_less_divisor [of 2048 "unat c"] by linarith
    then show False using assms(1) by (simp add: scalar_nat)
  qed
  moreover have "c AND 0xFFFFFFFE \<noteq> 0xFFFE"
  proof
    assume e: "c AND 0xFFFFFFFE = 0xFFFE"
    have "drop_bit 1 c = 0x7FFF" using drop_and_mask(2) [of c] unfolding e by simp
    from arg_cong [OF this, of unat] have "unat c div 2 = 0x7FFF" unfolding unat_drop_bit by simp
    then have "unat c = 0xFFFE \<or> unat c = 0xFFFF"
      using div_mult_mod_eq [of "unat c" 2] mod_less_divisor [of 2 "unat c"] by linarith
    then show False using assms(1) by (auto simp: scalar_nat)
  qed
  moreover have "\<not> c < 0x80" using assms(2) by (simp add: word_less_nat_alt)
  ultimately show ?thesis by (simp add: utf8_fix_def)
qed

declare utf8_tail.simps [simp del]

lemma u8_offset:
  "unat x < 64 \<Longrightarrow> unat (0x80 + x :: u8) = 128 + unat x" "unat x < 64 \<Longrightarrow> unat (0xC0 + x :: u8) = 192 + unat x"
  "unat x < 32 \<Longrightarrow> unat (0xE0 + x :: u8) = 224 + unat x" "unat x < 16 \<Longrightarrow> unat (0xF0 + x :: u8) = 240 + unat x"
  by (simp_all add: unat_plus)

lemma utf8_read_write:
  assumes c: "scalar c" and r: "no_cont r" "t \<Longrightarrow> r \<noteq> []"
  shows "utf8_read t (WRITE_UTF8 c @ r) = Some (c, r)"
proof -
  define n where "n = unat c"
  note sc = c [unfolded scalar_nat, folded n_def]
  have small: "c < 0x80 \<longleftrightarrow> n < 128" "c < 0x800 \<longleftrightarrow> n < 2048" "c < 0x10000 \<longleftrightarrow> n < 65536" unfolding n_def by (simp_all add: word_less_nat_alt)
  have n32: "n < 4294967296" using sc by linarith
  have eq: "a = c" if "unat a = n" for a using that unfolding n_def by (simp add: word_unat_eq_iff)
  have k64: "m mod 64 < 64" for m :: nat by simp
  let ?b1 = "0x80 + ucast (c AND 0x3F) :: u8" and ?b2 = "0x80 + ucast (drop_bit 6 c AND 0x3F) :: u8" and ?b3 = "0x80 + ucast (drop_bit 12 c AND 0x3F) :: u8"
  define q1 q2 q3 k1 k2 k3 where q: "q1 = n div 64" "q2 = n div 4096" "q3 = n div 262144"
    and k: "k1 = n mod 64" "k2 = n div 64 mod 64" "k3 = n div 4096 mod 64"
  have k_less: "k1 < 64" "k2 < 64" "k3 < 64" unfolding k by (rule k64)+
  have e: "n div 4096 = n div 64 div 64" "n div 262144 = n div 4096 div 64" by (simp_all add: div_mult2_eq [symmetric])
  have "q1 * 64 + k1 = n" unfolding q k by (rule div_mult_mod_eq)
  moreover have "q2 * 64 + k2 = q1" unfolding q k e(1) by (rule div_mult_mod_eq)
  moreover have "q3 * 64 + k3 = q2" unfolding q k e(2) by (rule div_mult_mod_eq)
  ultimately have digits: "q1 * 64 + k1 = n" "q2 * 64 + k2 = q1" "q3 * 64 + k3 = q2" by blast+
  have u: "unat (ucast (c AND 0x3F) :: u8) = k1" "unat (ucast (drop_bit 6 c AND 0x3F) :: u8) = k2" "unat (ucast (drop_bit 12 c AND 0x3F) :: u8) = k3"
    "unat (ucast (drop_bit 6 c AND 0x1F) :: u8) = q1 mod 32" "unat (ucast (drop_bit 12 c AND 0x0F) :: u8) = q2 mod 16" "unat (ucast (drop_bit 18 c AND 0x07) :: u8) = q3 mod 8"
    by (simp_all add: q k n_def unat_drop_bit)
  have b: "unat ?b1 = 128 + k1" "unat ?b2 = 128 + k2" "unat ?b3 = 128 + k3"
    using u8_offset(1) [of "ucast (c AND 0x3F)"] u8_offset(1) [of "ucast (drop_bit 6 c AND 0x3F)"] u8_offset(1) [of "ucast (drop_bit 12 c AND 0x3F)"] k_less
    unfolding u by blast+
  have next_byte: "\<exists>a'. unat a' = m \<and> utf8_tail t a (x # z) = utf8_tail t a' z"
    if "unat x = 128 + k" "k < 64" "unat a = l" "l * 64 + k = m" "m \<le> n" for x k a l m z
    using utf8_tail_step [OF that(1,2), of a t z] that(3-5) n32 by simp
  have stop: "utf8_tail t a r = Some (a, r)" for a by (rule utf8_tail_stop [OF r])
  have fix_c: "utf8_fix c = c" if "128 \<le> n" using utf8_fix_scalar [OF c] that by (simp add: n_def)
  consider "n < 128" | "128 \<le> n" "n < 2048" | "2048 \<le> n" "n < 65536" | "65536 \<le> n" "n < 0x110000" using sc by linarith
  then show ?thesis
  proof cases
    case 1
    define w :: u8 where "w = ucast (c AND 0xFF)"
    have u: "unat w = n" using 1 by (simp add: n_def w_def)
    then have "ucast w = c" by (intro eq) (use 1 in \<open>simp add: unsigned_ucast_eq take_bit_eq_mod\<close>)
    moreover have "\<not> w \<ge> 0xc0" using u 1 by (simp add: word_le_nat_alt)
    ultimately show ?thesis using 1 small by (simp add: WRITE_UTF8_def utf8_read_def flip: w_def)
  next
    case 2
    have i: "q1 < 32" using 2 digits(1) by linarith
    have b0: "unat (0xC0 + ucast (drop_bit 6 c AND 0x1F) :: u8) = 192 + q1"
      using u8_offset(2) [of "ucast (drop_bit 6 c AND 0x1F)"] i unfolding u by simp
    have T: "q1 = unat (sqlite3Utf8Trans1 ! q1)" using lead_table [of q1] i by simp
    obtain a where a: "unat a = q1"
      "\<forall>t z. utf8_read t ((0xC0 + ucast (drop_bit 6 c AND 0x1F)) # z) = do { (c, z) \<leftarrow> utf8_tail t a z; Some (utf8_fix c, z) }"
      using utf8_lead [OF b0 _ T] i by auto
    obtain a1 where "unat a1 = n" "utf8_tail t a (?b1 # r) = utf8_tail t a1 r"
      using next_byte [OF b(1) k_less(1) a(1) digits(1)] by blast
    then have "utf8_tail t a (?b1 # r) = Some (c, r)" using stop eq [of a1] by simp
    then show ?thesis using 2 small a(2) fix_c by (simp add: WRITE_UTF8_def)
  next
    case 3
    have i: "q2 < 16" "q1 \<le> n" using 3 digits(1,2) by linarith+
    have b0: "unat (0xE0 + ucast (drop_bit 12 c AND 0x0F) :: u8) = 192 + (32 + q2)"
      using u8_offset(3) [of "ucast (drop_bit 12 c AND 0x0F)"] i(1) unfolding u by simp
    have T: "q2 = unat (sqlite3Utf8Trans1 ! (32 + q2))" using lead_table [of "32 + q2"] i(1) by simp
    obtain a where a: "unat a = q2"
      "\<forall>t z. utf8_read t ((0xE0 + ucast (drop_bit 12 c AND 0x0F)) # z) = do { (c, z) \<leftarrow> utf8_tail t a z; Some (utf8_fix c, z) }"
      using utf8_lead [OF b0 _ T] i(1) by auto
    obtain a1 where a1: "unat a1 = q1" "utf8_tail t a (?b2 # ?b1 # r) = utf8_tail t a1 (?b1 # r)"
      using next_byte [OF b(2) k_less(2) a(1) digits(2) i(2)] by blast
    obtain a2 where "unat a2 = n" "utf8_tail t a1 (?b1 # r) = utf8_tail t a2 r"
      using next_byte [OF b(1) k_less(1) a1(1) digits(1)] by blast
    then have "utf8_tail t a (?b2 # ?b1 # r) = Some (c, r)" using stop eq [of a2] a1(2) by simp
    then show ?thesis using 3 small a(2) fix_c by (simp add: WRITE_UTF8_def)
  next
    case 4
    have i: "q3 < 8" "q1 \<le> n" "q2 \<le> n" using 4 digits by linarith+
    have b0: "unat (0xF0 + ucast (drop_bit 18 c AND 0x07) :: u8) = 192 + (48 + q3)"
      using u8_offset(4) [of "ucast (drop_bit 18 c AND 0x07)"] i(1) unfolding u by simp
    have T: "q3 = unat (sqlite3Utf8Trans1 ! (48 + q3))" using lead_table [of "48 + q3"] i(1) by simp
    obtain a where a: "unat a = q3"
      "\<forall>t z. utf8_read t ((0xF0 + ucast (drop_bit 18 c AND 0x07)) # z) = do { (c, z) \<leftarrow> utf8_tail t a z; Some (utf8_fix c, z) }"
      using utf8_lead [OF b0 _ T] i(1) by auto
    obtain a1 where a1: "unat a1 = q2" "utf8_tail t a (?b3 # ?b2 # ?b1 # r) = utf8_tail t a1 (?b2 # ?b1 # r)"
      using next_byte [OF b(3) k_less(3) a(1) digits(3) i(3)] by blast
    obtain a2 where a2: "unat a2 = q1" "utf8_tail t a1 (?b2 # ?b1 # r) = utf8_tail t a2 (?b1 # r)"
      using next_byte [OF b(2) k_less(2) a1(1) digits(2) i(2)] by blast
    obtain a3 where "unat a3 = n" "utf8_tail t a2 (?b1 # r) = utf8_tail t a3 r"
      using next_byte [OF b(1) k_less(1) a2(1) digits(1)] by blast
    then have "utf8_tail t a (?b3 # ?b2 # ?b1 # r) = Some (c, r)" using stop eq [of a3] a1(2) a2(2) by simp
    then show ?thesis using 4 small a(2) fix_c by (simp add: WRITE_UTF8_def)
  qed
qed

section \<open>Reading back a character in UTF-16\<close>

lemma and_field: "w AND push_bit k (mask m) = push_bit k (drop_bit k w AND mask m)" for w :: u32
  by (rule bit_word_eqI) (auto simp: bit_simps)

lemma unat_and_fields:
  "unat (w AND 0xC0 :: u32) = unat w div 64 mod 4 * 64" "unat (w AND 0x3C0 :: u32) = unat w div 64 mod 16 * 64"
proof -
  have e: "(0xC0 :: u32) = push_bit 6 (mask 2)" "(0x3C0 :: u32) = push_bit 6 (mask 4)"
    by (simp_all add: mask_eq_exp_minus_1 push_bit_eq_mult)
  have u: "unat (push_bit 6 v) = unat v * 64" if "unat v < 64" for v :: u32
    using that by (simp add: push_bit_eq_mult unat_word_ariths(2))
  have m: "unat (drop_bit 6 w AND mask 2) = unat w div 64 mod 4" "unat (drop_bit 6 w AND mask 4) = unat w div 64 mod 16"
    by (simp_all add: unat_and_mask unat_drop_bit)
  have "unat w div 64 mod 4 < 4" "unat w div 64 mod 16 < 16" by simp_all
  then have "unat (push_bit 6 (drop_bit 6 w AND mask 2)) = unat w div 64 mod 4 * 64"
      "unat (push_bit 6 (drop_bit 6 w AND mask 4)) = unat w div 64 mod 16 * 64"
    using u [of "drop_bit 6 w AND mask 2"] u [of "drop_bit 6 w AND mask 4"] unfolding m by linarith+
  then show "unat (w AND 0xC0) = unat w div 64 mod 4 * 64" "unat (w AND 0x3C0) = unat w div 64 mod 16 * 64"
    unfolding e and_field by simp_all
qed

lemma unat_u32_masks: "unat (w AND 0x03 :: u32) = unat w mod 4" "unat (w AND 0x3F :: u32) = unat w mod 64" "unat (w AND 0xFF :: u32) = unat w mod 256"
    "unat (w AND 0x03FF :: u32) = unat w mod 1024"
  unfolding masks by (simp_all add: unat_and_mask)

lemma unat_push: "unat v * 256 < 2 ^ 32 \<Longrightarrow> unat (push_bit 8 v :: u32) = unat v * 256"
    "unat v * 1024 < 2 ^ 32 \<Longrightarrow> unat (push_bit 10 v :: u32) = unat v * 1024"
  by (simp_all add: push_bit_eq_mult unat_word_ariths(2))

lemma unat_u8_u32: "unat (ucast (b :: u8) :: u32) = unat b"
proof -
  have "unat b < 256" using unsigned_less [of b, where 'a = nat] by simp
  then show ?thesis by (simp add: unsigned_ucast_eq take_bit_eq_mod)
qed

lemma unat_u32_u8: "unat (c :: u32) < 256 \<Longrightarrow> unat (ucast c :: u8) = unat c"
  by (simp add: unsigned_ucast_eq take_bit_eq_mod)

text \<open>The two units of a character, as numbers: \<open>u1\<close> is 0 if there is only one.\<close>

definition unit_le :: "nat \<Rightarrow> u8 list" where
  "unit_le u = [of_nat (u mod 256), of_nat (u div 256)]"

lemma unit_value: "u < 65536 \<Longrightarrow> unat (ucast (of_nat (u mod 256) :: u8) + push_bit 8 (ucast (of_nat (u div 256) :: u8)) :: u32) = u"
proof -
  assume u: "u < 65536"
  then have d: "u div 256 < 256" by auto
  have a: "unat (ucast (of_nat (u mod 256) :: u8) :: u32) = u mod 256" by (simp add: unat_u8_u32 unat_of_nat)
  have b: "unat (ucast (of_nat (u div 256) :: u8) :: u32) = u div 256" using d by (simp add: unat_u8_u32 unat_of_nat)
  have "unat (push_bit 8 (ucast (of_nat (u div 256) :: u8)) :: u32) = u div 256 * 256" using unat_push(1) [of "ucast (of_nat (u div 256) :: u8)"] b d by simp
  then show ?thesis using a d by (subst unat_plus) (simp_all only: a, simp_all)
qed

definition high_unit :: "nat \<Rightarrow> nat" where
  "high_unit n = 0xD800 + (n - 0x10000) div 1024"

definition low_unit :: "nat \<Rightarrow> nat" where
  "low_unit n = 0xDC00 + n mod 1024"

lemma u8_eqI: "unat a = n \<Longrightarrow> n < 256 \<Longrightarrow> a = (of_nat n :: u8)"
  by (simp add: word_unat_eq_iff unat_of_nat)

lemma write16_units:
  fixes c :: u32
  defines "n \<equiv> unat c"
  assumes c: "n < 0x110000"
  shows "n \<le> 0xFFFF \<Longrightarrow> [ucast (c AND 0x00FF), ucast (drop_bit 8 c AND 0x00FF)] = unit_le n"
    and "0xFFFF < n \<Longrightarrow> [ucast ((drop_bit 10 c AND 0x003F) + (drop_bit 10 (c - 0x10000) AND 0x00C0)), ucast (0x00D8 + (drop_bit 18 (c - 0x10000) AND 0x03))] = unit_le (high_unit n)"
    and "0xFFFF < n \<Longrightarrow> [ucast (c AND 0x00FF), ucast (0x00DC + (drop_bit 8 c AND 0x03))] = unit_le (low_unit n)"
proof -
  have low: "ucast (c AND 0x00FF) = (of_nat (n mod 256) :: u8)"
    by (rule u8_eqI) (simp_all add: n_def)
  show "[ucast (c AND 0x00FF), ucast (drop_bit 8 c AND 0x00FF)] = unit_le n" if "n \<le> 0xFFFF"
  proof -
    have "n div 256 mod 256 = n div 256" "n div 256 < 256" using that by auto
    then have "ucast (drop_bit 8 c AND 0x00FF) = (of_nat (n div 256) :: u8)" by (intro u8_eqI) (simp_all add: n_def unat_drop_bit)
    then show ?thesis using low by (simp add: unit_le_def)
  qed
  show "[ucast ((drop_bit 10 c AND 0x003F) + (drop_bit 10 (c - 0x10000) AND 0x00C0)), ucast (0x00D8 + (drop_bit 18 (c - 0x10000) AND 0x03))] = unit_le (high_unit n)"
    if n: "0xFFFF < n"
  proof -
    define m where "m = n - 0x10000"
    have m: "n = m + 65536" "m < 1048576" using n c by (auto simp: m_def)
    have um: "unat (c - 0x10000) = m" using n by (simp add: m_def n_def unat_sub word_le_nat_alt)
    have h: "high_unit n = 0xD800 + m div 1024" "m div 1024 < 1024" using m by (auto simp: high_unit_def m_def)
    have "unat (drop_bit 10 c AND 0x3F) = m div 1024 mod 64"
    proof -
      have "n div 1024 = m div 1024 + 64" using div_mult_self1 [of 1024 m 64] unfolding m(1) by simp
      then show ?thesis unfolding unat_u32_masks unat_drop_bit n_def [symmetric] by simp
    qed
    moreover have lt: "m div 1024 mod 256 < 4294967296" using mod_less_divisor [of 256 "m div 1024"] by linarith
    moreover have "unat (drop_bit 10 (c - 0x10000) AND 0xC0) = m div 1024 div 64 mod 4 * 64"
      unfolding unat_and_fields unat_drop_bit um by simp
    moreover have "m div 1024 mod 64 + m div 1024 div 64 mod 4 * 64 = m div 1024 mod 256"
      using mod_mult2_eq [of "m div 1024" 64 4] by simp
    ultimately have l: "unat ((drop_bit 10 c AND 0x3F) + (drop_bit 10 (c - 0x10000) AND 0xC0)) = m div 1024 mod 256"
      using lt by (subst unat_plus) simp_all
    have "(0xD800 + m div 1024) mod 256 = m div 1024 mod 256" "(0xD800 + m div 1024) div 256 = 0xD8 + m div 1024 div 256"
      using mod_mult_self1 [of "m div 1024" "0xD8" 256] div_mult_self1 [of 256 "m div 1024" "0xD8"] by (simp_all add: add.commute)
    then have u: "high_unit n mod 256 = m div 1024 mod 256" "high_unit n div 256 = 0xD8 + m div 1024 div 256" by (simp_all add: h(1))
    have d4: "m div 1024 div 256 < 4" using h(2) by auto
    have "unat (drop_bit 18 (c - 0x10000) AND 0x03) = m div 1024 div 256"
      using d4 unfolding unat_u32_masks unat_drop_bit um by (simp add: div_mult2_eq [symmetric])
    then have hh: "unat (0xD8 + (drop_bit 18 (c - 0x10000) AND 0x03)) = 0xD8 + m div 1024 div 256"
      using d4 by (subst unat_plus) simp_all
    have "ucast ((drop_bit 10 c AND 0x3F) + (drop_bit 10 (c - 0x10000) AND 0xC0)) = (of_nat (high_unit n mod 256) :: u8)"
    proof (rule u8_eqI)
      have "unat ((drop_bit 10 c AND 0x3F) + (drop_bit 10 (c - 0x10000) AND 0xC0)) < 256"
        unfolding l by (rule mod_less_divisor) simp
      then show "unat (ucast ((drop_bit 10 c AND 0x3F) + (drop_bit 10 (c - 0x10000) AND 0xC0)) :: u8) = high_unit n mod 256"
        unfolding u(1) by (simp only: unat_u32_u8 l)
    qed simp
    moreover have "ucast (0xD8 + (drop_bit 18 (c - 0x10000) AND 0x03)) = (of_nat (high_unit n div 256) :: u8)"
    proof (rule u8_eqI)
      have "unat (0xD8 + (drop_bit 18 (c - 0x10000) AND 0x03)) < 256" unfolding hh using d4 by linarith
      then show "unat (ucast (0xD8 + (drop_bit 18 (c - 0x10000) AND 0x03)) :: u8) = high_unit n div 256"
        unfolding u(2) by (simp only: unat_u32_u8 hh)
      show "high_unit n div 256 < 256" unfolding u(2) using d4 by linarith
    qed
    ultimately show ?thesis by (simp add: unit_le_def)
  qed
  show "[ucast (c AND 0x00FF), ucast (0x00DC + (drop_bit 8 c AND 0x03))] = unit_le (low_unit n)" if "0xFFFF < n"
  proof -
    have m: "n mod 1024 mod 256 = n mod 256" "n mod 1024 div 256 = n div 256 mod 4"
      using mod_mult2_eq [of n 256 4] by (simp_all add: mod_mod_cancel)
    have "(0xDC00 + n mod 1024) mod 256 = n mod 1024 mod 256" "(0xDC00 + n mod 1024) div 256 = 0xDC + n mod 1024 div 256"
      using mod_mult_self1 [of "n mod 1024" "0xDC" 256] div_mult_self1 [of 256 "n mod 1024" "0xDC"] by (simp_all add: add.commute)
    then have u: "low_unit n mod 256 = n mod 256" "low_unit n div 256 = 0xDC + n div 256 mod 4"
      unfolding low_unit_def m by simp_all
    have "unat (drop_bit 8 c AND 0x03) = n div 256 mod 4" unfolding unat_u32_masks unat_drop_bit n_def by simp
    then have "unat (0xDC + (drop_bit 8 c AND 0x03)) = 0xDC + n div 256 mod 4" by (subst unat_plus) simp_all
    then have "ucast (0xDC + (drop_bit 8 c AND 0x03)) = (of_nat (low_unit n div 256) :: u8)"
      by (intro u8_eqI) (simp_all add: unat_u32_u8 u)
    then show ?thesis using low u by (simp add: unit_le_def)
  qed
qed

definition unit_be :: "nat \<Rightarrow> u8 list" where
  "unit_be u = [of_nat (u div 256), of_nat (u mod 256)]"

lemma WRITE_UTF16_units:
  assumes "unat c < 0x110000"
  shows "WRITE_UTF16LE c = (if unat c \<le> 0xFFFF then unit_le (unat c) else unit_le (high_unit (unat c)) @ unit_le (low_unit (unat c)))"
    and "WRITE_UTF16BE c = (if unat c \<le> 0xFFFF then unit_be (unat c) else unit_be (high_unit (unat c)) @ unit_be (low_unit (unat c)))"
proof -
  have small: "c \<le> 0xFFFF \<longleftrightarrow> unat c \<le> 0xFFFF" by (simp add: word_le_nat_alt)
  note u = write16_units [OF assms]
  have "0xFFFF < unat c \<Longrightarrow> \<not> unat c \<le> 0xFFFF" by simp
  then show "WRITE_UTF16LE c = (if unat c \<le> 0xFFFF then unit_le (unat c) else unit_le (high_unit (unat c)) @ unit_le (low_unit (unat c)))"
    "WRITE_UTF16BE c = (if unat c \<le> 0xFFFF then unit_be (unat c) else unit_be (high_unit (unat c)) @ unit_be (low_unit (unat c)))"
    using u by (cases "unat c \<le> 0xFFFF"; simp add: WRITE_UTF16LE_def WRITE_UTF16BE_def small unit_le_def unit_be_def)+
qed

lemma utf16_pair_units:
  assumes n: "0x10000 \<le> n" "n < 0x110000" and u: "unat c1 = high_unit n" "unat c2 = low_unit n"
  shows "unat (utf16_pair c1 c2) = n"
proof -
  define q where "q = (n - 0x10000) div 1024"
  have q: "q < 1024" "n = n mod 1024 + q * 1024 + 65536"
  proof -
    have "n - 0x10000 < 1024 * 1024" using n by simp
    then show "q < 1024" unfolding q_def by (rule less_mult_imp_div_less)
    have "(n - 0x10000) mod 1024 = n mod 1024"
      using mod_mult_self1 [of "n - 0x10000" 64 1024] n by simp
    then show "n = n mod 1024 + q * 1024 + 65536" using div_mult_mod_eq [of "n - 0x10000" 1024] n unfolding q_def by linarith
  qed
  have a: "unat (c2 AND 0x03FF) = n mod 1024"
    using mod_mult_self1 [of "n mod 1024" 55 1024] unfolding unat_u32_masks u low_unit_def by (simp add: add.commute)
  have b: "unat (c1 AND 0x3F) = q mod 64"
    using mod_mult_self1 [of q 864 64] unfolding unat_u32_masks u high_unit_def q_def [symmetric] by (simp add: add.commute)
  have "(0xD800 + q) div 64 = 864 + q div 64" using div_mult_self1 [of 64 q 864] by (simp add: add.commute)
  moreover have "(864 + q div 64) mod 16 = q div 64"
    using mod_mult_self1 [of "q div 64" 54 16] q(1) by (simp add: add.commute)
  ultimately have c: "unat (c1 AND 0x3C0) = q div 64 * 64"
    unfolding unat_and_fields u high_unit_def q_def [symmetric] by simp
  have d: "q div 64 < 16" "q mod 64 < 64" using q(1) by auto
  have c4: "unat ((c1 AND 0x3C0) + 0x40) = q div 64 * 64 + 64" using c d(1) by (subst unat_plus) simp_all
  have p: "unat (push_bit 10 (c1 AND 0x3F)) = q mod 64 * 1024" "unat (push_bit 10 ((c1 AND 0x3C0) + 0x40)) = (q div 64 * 64 + 64) * 1024"
    using unat_push(2) [of "c1 AND 0x3F"] unat_push(2) [of "(c1 AND 0x3C0) + 0x40"] b c4 d by simp_all
  have e: "n mod 1024 < 1024" by simp
  have s1: "unat ((c2 AND 0x03FF) + push_bit 10 (c1 AND 0x3F)) = n mod 1024 + q mod 64 * 1024"
    by (rule trans [OF unat_plus]) (use a p d e in \<open>simp_all only: a p\<close>, use d e in simp)
  have "unat (utf16_pair c1 c2) = n mod 1024 + q mod 64 * 1024 + (q div 64 * 64 + 64) * 1024"
    unfolding utf16_pair_def by (rule trans [OF unat_plus]) (use s1 p d e in \<open>simp_all only: s1 p\<close>, use d e in simp)
  also have "\<dots> = n"
  proof -
    have "q * 1024 = (q div 64 * 64 + q mod 64) * 1024" by simp
    then have "q * 1024 = q div 64 * 65536 + q mod 64 * 1024" unfolding add_mult_distrib by simp
    moreover have "(q div 64 * 64 + 64) * 1024 = q div 64 * 65536 + 65536" unfolding add_mult_distrib by simp
    ultimately show ?thesis using q(2) by linarith
  qed
  finally show ?thesis .
qed

lemma high_low: "0x10000 \<le> n \<Longrightarrow> n < 0x110000 \<Longrightarrow> 0xD800 \<le> high_unit n \<and> high_unit n < 0xDC00 \<and> low_unit n < 65536"
proof -
  assume n: "0x10000 \<le> n" "n < 0x110000"
  then have "(n - 0x10000) div 1024 < 1024" by (intro less_mult_imp_div_less) simp
  moreover have "n mod 1024 < 1024" by simp
  ultimately show ?thesis unfolding high_unit_def low_unit_def by linarith
qed

lemma read16_one:
  assumes "u < 65536"
  obtains c where "unat (c :: u32) = u"
    "\<And>always z. READ_UTF16LE always (unit_le u @ z) =
       (if 0xD800 \<le> u \<and> u < 0xE000 \<and> (always \<or> z \<noteq> []) then (case z of b2 # b3 # z \<Rightarrow> Some (utf16_pair c (ucast b2 + push_bit 8 (ucast b3)), z) | _ \<Rightarrow> None)
        else Some (c, z))"
    "\<And>always z. READ_UTF16BE always (unit_be u @ z) =
       (if 0xD800 \<le> u \<and> u < 0xE000 \<and> (always \<or> z \<noteq> []) then (case z of b2 # b3 # z \<Rightarrow> Some (utf16_pair c (push_bit 8 (ucast b2) + ucast b3), z) | _ \<Rightarrow> None)
        else Some (c, z))"
proof -
  define c :: u32 where "c = ucast (of_nat (u mod 256) :: u8) + push_bit 8 (ucast (of_nat (u div 256) :: u8))"
  have c: "unat c = u" unfolding c_def by (rule unit_value [OF assms])
  have c': "c = push_bit 8 (ucast (of_nat (u div 256) :: u8)) + ucast (of_nat (u mod 256) :: u8)" unfolding c_def by (rule add.commute)
  have cc: "c \<ge> 0xD800 \<longleftrightarrow> 0xD800 \<le> u" "c < 0xE000 \<longleftrightarrow> u < 0xE000" using c by (simp_all add: word_le_nat_alt word_less_nat_alt)
  show thesis
    by (rule that [OF c]) (simp_all only: unit_le_def unit_be_def append_Cons append_Nil READ_UTF16LE.simps READ_UTF16BE.simps c_def [symmetric] c' [symmetric] Let_def cc)
qed

lemma read16_single:
  assumes "u < 65536" "\<not> (0xD800 \<le> u \<and> u < 0xE000)"
  shows "\<exists>c. unat (c :: u32) = u \<and> READ_UTF16LE always (unit_le u @ z) = Some (c, z) \<and> READ_UTF16BE always (unit_be u @ z) = Some (c, z)"
proof (rule read16_one [OF assms(1)])
  fix c :: u32
  assume "unat c = u"
    and "\<And>always z. READ_UTF16LE always (unit_le u @ z) =
       (if 0xD800 \<le> u \<and> u < 0xE000 \<and> (always \<or> z \<noteq> []) then (case z of b2 # b3 # z \<Rightarrow> Some (utf16_pair c (ucast b2 + push_bit 8 (ucast b3)), z) | _ \<Rightarrow> None)
        else Some (c, z))"
    and "\<And>always z. READ_UTF16BE always (unit_be u @ z) =
       (if 0xD800 \<le> u \<and> u < 0xE000 \<and> (always \<or> z \<noteq> []) then (case z of b2 # b3 # z \<Rightarrow> Some (utf16_pair c (push_bit 8 (ucast b2) + ucast b3), z) | _ \<Rightarrow> None)
        else Some (c, z))"
  then show ?thesis using assms(2) by (intro exI [of _ c]) (simp only: simp_thms if_False conj_assoc [symmetric])
qed

lemma read16_write16:
  assumes c: "scalar c"
  shows "READ_UTF16LE always (WRITE_UTF16LE c @ r) = Some (c, r)" "READ_UTF16BE always (WRITE_UTF16BE c @ r) = Some (c, r)"
proof -
  define n where "n = unat c"
  note sc = c [unfolded scalar_nat, folded n_def]
  note w = WRITE_UTF16_units [of c, folded n_def, OF conjunct1 [OF sc]]
  have eq: "a = c" if "unat a = n" for a using that unfolding n_def by (simp add: word_unat_eq_iff)
  show "READ_UTF16LE always (WRITE_UTF16LE c @ r) = Some (c, r)" "READ_UTF16BE always (WRITE_UTF16BE c @ r) = Some (c, r)"
  proof (atomize (full), cases "n \<le> 0xFFFF")
    case True
    then have n16: "n < 65536" by simp
    obtain a where "unat a = n" "READ_UTF16LE always (unit_le n @ r) = Some (a, r)" "READ_UTF16BE always (unit_be n @ r) = Some (a, r)"
      using read16_single [OF n16] sc by blast
    then show "READ_UTF16LE always (WRITE_UTF16LE c @ r) = Some (c, r) \<and> READ_UTF16BE always (WRITE_UTF16BE c @ r) = Some (c, r)"
      using w True eq [of a] by simp
  next
    case False
    then have n: "0x10000 \<le> n" "n < 0x110000" using sc by auto
    note hl = high_low [OF n]
    then have "high_unit n < 65536" by simp
    from read16_one [OF this] obtain c1 where c1: "unat c1 = high_unit n"
      "\<And>always z. READ_UTF16LE always (unit_le (high_unit n) @ z) =
       (if 0xD800 \<le> high_unit n \<and> high_unit n < 0xE000 \<and> (always \<or> z \<noteq> []) then (case z of b2 # b3 # z \<Rightarrow> Some (utf16_pair c1 (ucast b2 + push_bit 8 (ucast b3)), z) | _ \<Rightarrow> None)
        else Some (c1, z))"
      "\<And>always z. READ_UTF16BE always (unit_be (high_unit n) @ z) =
       (if 0xD800 \<le> high_unit n \<and> high_unit n < 0xE000 \<and> (always \<or> z \<noteq> []) then (case z of b2 # b3 # z \<Rightarrow> Some (utf16_pair c1 (push_bit 8 (ucast b2) + ucast b3), z) | _ \<Rightarrow> None)
        else Some (c1, z))" by blast
    define c2 :: u32 where "c2 = ucast (of_nat (low_unit n mod 256) :: u8) + push_bit 8 (ucast (of_nat (low_unit n div 256) :: u8))"
    have "unat c2 = low_unit n" unfolding c2_def using unit_value hl by blast
    then have "utf16_pair c1 c2 = c" using utf16_pair_units [OF n c1(1)] eq by blast
    then show "READ_UTF16LE always (WRITE_UTF16LE c @ r) = Some (c, r) \<and> READ_UTF16BE always (WRITE_UTF16BE c @ r) = Some (c, r)"
      using w False hl c1(2) [of always "unit_le (low_unit n) @ r"] c1(3) [of always "unit_be (low_unit n) @ r"]
      by (simp add: unit_le_def [of "low_unit n"] unit_be_def [of "low_unit n"] c2_def add.commute)
  qed
qed

section \<open>Translating a text\<close>

definition encode_text :: "encoding \<Rightarrow> u32 list \<Rightarrow> u8 list" where
  "encode_text enc cs = concat (map (writer enc) cs)"

lemma encode_text_simps [simp]: "encode_text enc [] = []" "encode_text enc (c # cs) = writer enc c @ encode_text enc cs"
  by (simp_all add: encode_text_def)

lemma WRITE_UTF8_starts: "WRITE_UTF8 c \<noteq> [] \<and> no_cont (WRITE_UTF8 c @ r)"
proof -
  have l: "unat (ucast (drop_bit 6 c AND 0x1F) :: u8) < 32" "unat (ucast (drop_bit 12 c AND 0x0F) :: u8) < 16" "unat (ucast (drop_bit 18 c AND 0x07) :: u8) < 8"
    by simp_all
  have cont: "\<not> (b :: u8) AND 0xc0 = 0x80" if "unat b < 128 \<or> 192 \<le> unat b" for b
    using that unsigned_less [of b, where 'a = nat] by (auto simp: cont_iff)
  define x y w v where "x = (ucast (drop_bit 6 c AND 0x1F) :: u8)" and "y = (ucast (drop_bit 12 c AND 0x0F) :: u8)"
    and "w = (ucast (drop_bit 18 c AND 0x07) :: u8)" and "v = (ucast (c AND 0xFF) :: u8)"
  have "unat (0xC0 + x) \<ge> 192" "unat (0xE0 + y) \<ge> 192" "unat (0xF0 + w) \<ge> 192"
    using l unfolding x_def [symmetric] y_def [symmetric] w_def [symmetric] by (simp_all add: u8_offset)
  moreover have "c < 0x80 \<Longrightarrow> unat v < 128" by (simp add: v_def word_less_nat_alt)
  ultimately show ?thesis
    unfolding WRITE_UTF8_def no_cont_def x_def [symmetric] y_def [symmetric] w_def [symmetric] v_def [symmetric]
    by (auto simp: cont)
qed

lemma no_cont_encode: "no_cont (encode_text SQLITE_UTF8 cs)"
proof (cases cs)
  case (Cons c cs')
  then show ?thesis using WRITE_UTF8_starts [of c "encode_text SQLITE_UTF8 cs'"] by (simp add: writer_def)
qed (simp add: no_cont_def)

lemma read_written:
  assumes "scalar c"
  shows "reader e (writer e c @ encode_text e cs) = Some (c, encode_text e cs) \<and> writer e c \<noteq> []"
proof (cases e)
  case SQLITE_UTF8
  then show ?thesis using utf8_read_write [OF assms no_cont_encode, of False cs] WRITE_UTF8_starts [of c]
    by (auto simp: reader_def writer_def READ_UTF8_def)
next
  case SQLITE_UTF16LE
  then show ?thesis using read16_write16 [OF assms] by (simp add: reader_def writer_def WRITE_UTF16LE_def)
next
  case SQLITE_UTF16BE
  then show ?thesis using read16_write16 [OF assms] by (simp add: reader_def writer_def WRITE_UTF16BE_def)
qed

lemma translate_encoded: "\<forall>c\<in>set cs. scalar c \<Longrightarrow> translate_loop (reader e) put (encode_text e cs) = Some (concat (map put cs))"
proof (induction cs)
  case Nil
  then show ?case by (subst translate_loop.simps) simp
next
  case (Cons c cs)
  then show ?case using read_written [of c e cs] by (subst translate_loop.simps) simp
qed

lemma units_swap: "swap_bytes (WRITE_UTF16LE c @ r) = WRITE_UTF16BE c @ swap_bytes r" "swap_bytes (WRITE_UTF16BE c @ r) = WRITE_UTF16LE c @ swap_bytes r"
  by (simp_all add: WRITE_UTF16LE_def WRITE_UTF16BE_def)

lemma swap_encoded: "swap_bytes (encode_text SQLITE_UTF16LE cs) = encode_text SQLITE_UTF16BE cs" "swap_bytes (encode_text SQLITE_UTF16BE cs) = encode_text SQLITE_UTF16LE cs"
  by (induction cs) (simp_all add: writer_def units_swap)

lemma length_writers: "length (WRITE_UTF16LE c) = length (WRITE_UTF16BE c)" "even (length (WRITE_UTF16LE c))"
    "length (WRITE_UTF8 c) \<le> 2 * length (WRITE_UTF16LE c)" "length (WRITE_UTF16LE c) \<le> 2 * length (WRITE_UTF8 c)"
  by (auto simp: WRITE_UTF16LE_def WRITE_UTF16BE_def WRITE_UTF8_def word_less_nat_alt word_le_nat_alt)

lemma length_encoded: "e \<noteq> SQLITE_UTF8 \<Longrightarrow> even (length (encode_text e cs))"
    "e \<noteq> SQLITE_UTF8 \<Longrightarrow> length (encode_text SQLITE_UTF8 cs) \<le> 2 * length (encode_text e cs)"
    "e \<noteq> SQLITE_UTF8 \<Longrightarrow> length (encode_text e cs) \<le> 2 * length (encode_text SQLITE_UTF8 cs)"
proof -
  have w: "even (length (writer e c)) \<and> length (writer SQLITE_UTF8 c) \<le> 2 * length (writer e c) \<and> length (writer e c) \<le> 2 * length (writer SQLITE_UTF8 c)"
    if "e \<noteq> SQLITE_UTF8" for c
    using that length_writers [of c] by (cases e) (auto simp: writer_def)
  show "even (length (encode_text e cs))" if "e \<noteq> SQLITE_UTF8" using w [OF that] by (induction cs) auto
  show "length (encode_text SQLITE_UTF8 cs) \<le> 2 * length (encode_text e cs)" if "e \<noteq> SQLITE_UTF8"
    using w [OF that] by (induction cs) (auto intro: add_mono [THEN order_trans])
  show "length (encode_text e cs) \<le> 2 * length (encode_text SQLITE_UTF8 cs)" if "e \<noteq> SQLITE_UTF8"
    using w [OF that] by (induction cs) (auto intro: add_mono [THEN order_trans])
qed

section \<open>Properties\<close>

text \<open>
  Property C12. \<open>sqlite3VdbeMemTranslate\<close> takes a text from any of the three encodings to any
  other: characters that are neither surrogates nor U+FFFE nor U+FFFF keep their value, so that
  translating back gives the text itself. The output fits the buffer, and the only error is
  that it could not be allocated.
\<close>

theorem MemTranslate_roundtrip:
  assumes "\<forall>c\<in>set cs. scalar c" and "e1 \<noteq> e2"
  shows "sqlite3VdbeMemTranslate mem \<lparr>tv_z = encode_text e1 cs, tv_enc = e1\<rparr> e2 =
    (case malloc mem of
       (True, mem') \<Rightarrow> Some (SQLITE_OK, \<lparr>tv_z = encode_text e2 cs, tv_enc = e2\<rparr>, mem')
     | (False, mem') \<Rightarrow> Some (SQLITE_NOMEM, \<lparr>tv_z = encode_text e1 cs, tv_enc = e1\<rparr>, mem'))"
proof (cases "e1 \<noteq> SQLITE_UTF8 \<and> e2 \<noteq> SQLITE_UTF8")
  case True
  then have "length (encode_text e1 cs) mod 2 = 0" using length_encoded(1) [of e1 cs] by presburger
  moreover have "swap_bytes (encode_text e1 cs) = encode_text e2 cs"
    using True assms(2) swap_encoded by (cases e1; cases e2) simp_all
  ultimately show ?thesis using True assms(2) by (simp add: sqlite3VdbeMemTranslate_def Let_def split: prod.split bool.split)
next
  case False
  have loop: "translate_loop (reader e1) (writer e2) (encode_text e1 cs) = Some (encode_text e2 cs)"
    unfolding translate_encoded [OF assms(1)] by (simp only: encode_text_def)
  show ?thesis
  proof (cases "e2 = SQLITE_UTF8")
    case True
    then have "length (encode_text e1 cs) mod 2 = 0" "length (encode_text e2 cs) \<le> 2 * length (encode_text e1 cs)"
      using length_encoded(1,2) [of e1 cs] assms(2) by (auto simp: even_iff_mod_2_eq_zero)
    then show ?thesis using True assms(2) loop by (simp add: sqlite3VdbeMemTranslate_def Let_def split: prod.split bool.split)
  next
    case e2: False
    then have "length (encode_text e2 cs) \<le> 2 * length (encode_text e1 cs)" using length_encoded(3) [OF e2, of cs] False by simp
    then show ?thesis using False e2 assms(2) loop by (simp add: sqlite3VdbeMemTranslate_def Let_def split: prod.split bool.split)
  qed
qed

theorem MemTranslate_roundtrip_witness:
  "sqlite3VdbeMemTranslate [] \<lparr>tv_z = encode_text SQLITE_UTF8 [0x41, 0xE9, 0x20AC, 0x1F600], tv_enc = SQLITE_UTF8\<rparr> SQLITE_UTF16LE =
   Some (SQLITE_OK, \<lparr>tv_z = encode_text SQLITE_UTF16LE [0x41, 0xE9, 0x20AC, 0x1F600], tv_enc = SQLITE_UTF16LE\<rparr>, [])"
proof -
  have "\<forall>c\<in>set [0x41, 0xE9, 0x20AC, 0x1F600 :: u32]. scalar c" by (simp add: scalar_def)
  from MemTranslate_roundtrip [OF this, of SQLITE_UTF8 SQLITE_UTF16LE "[]"] show ?thesis by (simp only: malloc.simps case_prod_conv bool.case) simp
qed

end
