(* ===== verification/LikeGlob.thy ===== *)
theory LikeGlob
  imports Utf Chars
begin

text \<open>
  LIKE and GLOB of func.c: \<open>patternCompare\<close> with its searches after a wildcard, and the SQL function
  \<open>likeFunc\<close>. A pattern is read as a list of items, and \<open>text_matches\<close> says which strings of characters
  match them; the comparison on bytes is proved to decide just that. The lemmas are
  under the assumptions of the locale \<open>matcher\<close>: the wildcards and the escape differ.
\<close>

section \<open>The comparison\<close>

record compareInfo =
  matchAll :: u8
  matchOne :: u8
  matchSet :: u8
  noCase :: bool

definition globInfo :: compareInfo where
  "globInfo = \<lparr>matchAll = 42, matchOne = 63, matchSet = 91, noCase = False\<rparr>"

definition likeInfoNorm :: compareInfo where
  "likeInfoNorm = \<lparr>matchAll = 37, matchOne = 95, matchSet = 0, noCase = True\<rparr>"

definition likeInfoAlt :: compareInfo where
  "likeInfoAlt = \<lparr>matchAll = 37, matchOne = 95, matchSet = 0, noCase = False\<rparr>"

abbreviation (input) SQLITE_MATCH :: nat where "SQLITE_MATCH \<equiv> 0"
abbreviation (input) SQLITE_NOMATCH :: nat where "SQLITE_NOMATCH \<equiv> 1"
abbreviation (input) SQLITE_NOWILDCARDMATCH :: nat where "SQLITE_NOWILDCARDMATCH \<equiv> 2"

abbreviation (input) c_CARET :: u32 where "c_CARET \<equiv> 94"
abbreviation (input) c_CLOSE :: u32 where "c_CLOSE \<equiv> 93"
abbreviation (input) c_DASH :: u32 where "c_DASH \<equiv> 45"

definition Utf8Read :: "u8 list \<Rightarrow> (u32 \<times> u8 list) option" where
  "Utf8Read A = do { b \<leftarrow> rd8 A 0; if b < 0x80 then Some (ucast b, drop 1 A) else sqlite3Utf8Read A }"

text \<open>Every read goes forward.\<close>

lemma utf8_tail_length: "utf8_tail t c z = Some (c', z') \<Longrightarrow> length z' \<le> length z"
proof (induction t c z rule: utf8_tail.induct)
  case (2 t c b z)
  then show ?case by (auto simp: utf8_tail.simps split: if_splits)
qed (auto simp: utf8_tail.simps split: if_splits)

lemma sqlite3Utf8Read_less: "sqlite3Utf8Read z = Some (c, z') \<Longrightarrow> length z' < length z"
  by (cases z) (auto simp: sqlite3Utf8Read_def utf8_read_def split: if_splits bind_splits dest: utf8_tail_length)

lemma Utf8Read_less: "Utf8Read z = Some (c, z') \<Longrightarrow> length z' < length z"
  by (cases z) (auto simp: Utf8Read_def split: if_splits dest: sqlite3Utf8Read_less)

lemma skip_tail_length: "skip_tail z = Some z' \<Longrightarrow> length z' \<le> length z"
  by (induction z) (auto split: if_splits)

lemma SKIP_UTF8_less: "SQLITE_SKIP_UTF8 z = Some z' \<Longrightarrow> length z' < length z"
  by (cases z) (auto simp: SQLITE_SKIP_UTF8_def split: if_splits dest: skip_tail_length)

text \<open>
  After a wildcard: more wildcards are skipped, and one character of the string for each
  \<open>matchOne\<close>. The result is the next character of the pattern, the pattern at and after it, and the
  rest of the string, or nothing if the string is too short.
\<close>

function skip_wild :: "compareInfo \<Rightarrow> u8 list \<Rightarrow> u8 list \<Rightarrow> (u32 \<times> u8 list \<times> u8 list \<times> u8 list) option option" where
  "skip_wild pInfo P S = do {
     (c, P') \<leftarrow> Utf8Read P;
     if c = ucast (matchAll pInfo) then skip_wild pInfo P' S
     else if c = ucast (matchOne pInfo) then do {
       (d, S') \<leftarrow> sqlite3Utf8Read S;
       if d = 0 then Some None else skip_wild pInfo P' S'
     }
     else Some (Some (c, P, P', S))
   }"
  by pat_completeness auto
termination
  by (relation "measure (\<lambda>(i, P, S). length P)") (auto dest: Utf8Read_less)

declare skip_wild.simps [simp del]

lemma skip_wild_length: "skip_wild i P S = Some (Some (c, Q, P', S')) \<Longrightarrow> length P' < length Q \<and> length Q \<le> length P"
proof (induction "length P" arbitrary: P S rule: less_induct)
  case less
  from less.prems obtain d P1 where r: "Utf8Read P = Some (d, P1)" by (subst (asm) skip_wild.simps) (auto split: bind_splits)
  then have P1: "length P1 < length P" by (rule Utf8Read_less)
  consider (next_one) S1 where "skip_wild i P1 S1 = Some (Some (c, Q, P', S'))" | (last) "Q = P" "P' = P1"
    using less.prems r by (subst (asm) skip_wild.simps) (auto split: bind_splits if_splits)
  then show ?case
  proof cases
    case next_one then show ?thesis using less.hyps [OF P1 next_one] P1 by simp
  next
    case last then show ?thesis using P1 by simp
  qed
qed

text \<open>A set of characters, after its \<open>[\<close>, and whether \<open>c\<close> is in it.\<close>

function member_loop :: "u32 \<Rightarrow> u32 \<Rightarrow> u32 \<Rightarrow> bool \<Rightarrow> u8 list \<Rightarrow> (u32 \<times> bool \<times> u8 list) option" where
  "member_loop c c2 prior_c seen P =
     (if c2 = 0 \<or> c2 = c_CLOSE then Some (c2, seen, P)
      else do {
        range \<leftarrow> (if c2 = c_DASH then map_option (\<lambda>b. b \<noteq> 93 \<and> b \<noteq> 0 \<and> prior_c > 0) (rd8 P 0) else Some False);
        if range then do {
          (c2, P) \<leftarrow> sqlite3Utf8Read P;
          (c3, P) \<leftarrow> sqlite3Utf8Read P;
          member_loop c c3 0 (seen \<or> c \<ge> prior_c \<and> c \<le> c2) P
        }
        else do {
          (c3, P) \<leftarrow> sqlite3Utf8Read P;
          member_loop c c3 c2 (seen \<or> c = c2) P
        }
      })"
  by pat_completeness auto
termination
  by (relation "measure (\<lambda>(c, c2, p, s, P). length P)") (auto dest!: sqlite3Utf8Read_less)

declare member_loop.simps [simp del]

definition set_match :: "u32 \<Rightarrow> u8 list \<Rightarrow> (bool \<times> u8 list) option" where
  "set_match c P = do {
     (c2, P) \<leftarrow> sqlite3Utf8Read P;
     (invert, c2, P) \<leftarrow> (if c2 = c_CARET then map_option (\<lambda>(c2, P). (True, c2, P)) (sqlite3Utf8Read P) else Some (False, c2, P));
     (seen, c2, P) \<leftarrow> (if c2 = c_CLOSE then map_option (\<lambda>(c2, P). (c = c_CLOSE, c2, P)) (sqlite3Utf8Read P) else Some (False, c2, P));
     (c2, seen, P) \<leftarrow> member_loop c c2 0 seen P;
     Some (c2 \<noteq> 0 \<and> seen \<noteq> invert, P)
   }"

text \<open>The rest of a string from the first of the bytes in \<open>stops\<close> on, as \<open>strcspn\<close> finds it.\<close>

fun strcspn_rest :: "u8 list \<Rightarrow> u8 list \<Rightarrow> u8 list option" where
  "strcspn_rest stops [] = None"
| "strcspn_rest stops (b # z) = (if b = 0 \<or> b \<in> set stops then Some (b # z) else strcspn_rest stops z)"

lemma strcspn_rest_length: "strcspn_rest stops z = Some z' \<Longrightarrow> length z' \<le> length z"
  by (induction z) (auto split: if_splits)

definition stop_bytes :: "compareInfo \<Rightarrow> u32 \<Rightarrow> u8 list" where
  "stop_bytes pInfo c = (if noCase pInfo then [sqlite3Toupper (ucast c), UpperToLower (ucast c)] else [ucast c])"

lemma member_loop_length: "member_loop c c2 p s P = Some (c2', s', P') \<Longrightarrow> length P' \<le> length P"
proof (induction "length P" arbitrary: c2 p s P rule: less_induct)
  case less
  show ?case
  proof (cases "c2 = 0 \<or> c2 = c_CLOSE")
    case True then show ?thesis using less.prems by (subst (asm) member_loop.simps) auto
  next
    case False
    then obtain c3 p1 s1 P1 where P1: "length P1 < length P" and go: "member_loop c c3 p1 s1 P1 = Some (c2', s', P')"
      using less.prems by (subst (asm) member_loop.simps) (fastforce split: bind_splits if_splits dest!: sqlite3Utf8Read_less)
    from less.hyps [OF P1 go] P1 show ?thesis by simp
  qed
qed

lemma set_match_length: "set_match c P = Some (r, P') \<Longrightarrow> length P' < length P"
  by (auto simp: set_match_def split: bind_splits if_splits dest!: sqlite3Utf8Read_less member_loop_length)

text \<open>The calls below go on with a shorter pattern, or the same pattern and a shorter string.\<close>

definition search_order :: "(compareInfo \<times> u32 \<times> nat option \<times> u8 list \<times> u8 list + compareInfo \<times> u32 \<times> u8 list \<times> u8 list)
    + (compareInfo \<times> u32 \<times> u8 list \<times> u8 list \<times> u8 list + compareInfo \<times> u32 \<times> u32 \<times> u8 list \<times> u8 list) \<Rightarrow> nat \<times> nat \<times> nat" where
  "search_order x = (case x of
     Inl (Inl (_, _, _, P, S)) \<Rightarrow> (length P, length S, 0)
   | Inl (Inr (_, _, P, S)) \<Rightarrow> (length P, length S, 1)
   | Inr (Inl (_, _, _, P, S)) \<Rightarrow> (length P, length S, 0)
   | Inr (Inr (_, _, _, P, S)) \<Rightarrow> (length P, length S, 0))"

lemma skip_wild_order: "skip_wild i P S = Some (Some (c, Q, P', S')) \<Longrightarrow> Utf8Read Z = Some (d, P) \<Longrightarrow> length Q < length Z"
  by (auto dest!: skip_wild_length Utf8Read_less)

lemma set_match_order: "set_match c P = Some (ok, P') \<Longrightarrow> Utf8Read Z = Some (d, P) \<Longrightarrow> length P' < length Z"
  by (auto dest!: set_match_length Utf8Read_less)

lemma literal_order:
  "(if e then sqlite3Utf8Read P else Some (c, P)) = Some (c', P') \<Longrightarrow> length P' \<le> length P"
  "(if e then map_option (\<lambda>(c, P). (c, P, Some (length P))) (sqlite3Utf8Read P) else Some (c, P, z)) = Some (c', P', z') \<Longrightarrow> length P' \<le> length P"
  by (auto split: if_splits dest!: sqlite3Utf8Read_less)

lemma literal_less:
  "(if e then sqlite3Utf8Read P else Some (c, P)) = Some (c', P') \<Longrightarrow> length P < n \<Longrightarrow> length P' < n"
  "(if e then map_option (\<lambda>(c, P). (c, P, Some (length P))) (sqlite3Utf8Read P) else Some (c, P, z)) = Some (c', P', z') \<Longrightarrow> length P < n \<Longrightarrow> length P' < n"
  by (auto dest!: literal_order simp del: split_paired_All)

lemma wild_literal_order:
  "(if e then sqlite3Utf8Read P else Some (c, P)) = Some (c', P') \<Longrightarrow> skip_wild i P0 S = Some (Some (c0, Q, P, S')) \<Longrightarrow> Utf8Read Z = Some (d, P0) \<Longrightarrow> length P' < length Z"
  by (auto dest!: literal_order(1) skip_wild_length Utf8Read_less simp del: split_paired_All)

lemma plain_literal_order:
  "(if e then map_option (\<lambda>(c, P). (c, P, Some (length P))) (sqlite3Utf8Read P) else Some (c, P, z)) = Some (c', P', z') \<Longrightarrow> Utf8Read Z = Some (d, P) \<Longrightarrow> length P' < length Z"
  by (drule Utf8Read_less) (rule literal_less(2))

lemma strcspn_rest_order: "strcspn_rest stops S = Some S' \<Longrightarrow> rd8 S' 0 = Some b \<Longrightarrow> length (drop 1 S') < length S"
  by (cases S') (auto dest!: strcspn_rest_length)

text \<open>
  \<open>zEscaped\<close> is the length of what follows the last escaped character of the pattern. The loops
  after a wildcard are functions of their own: over every character of the string for a set, from
  one stop byte to the next, and over the characters for one outside ASCII.
\<close>

function pattern_loop :: "compareInfo \<Rightarrow> u32 \<Rightarrow> nat option \<Rightarrow> u8 list \<Rightarrow> u8 list \<Rightarrow> nat option"
  and set_search :: "compareInfo \<Rightarrow> u32 \<Rightarrow> u8 list \<Rightarrow> u8 list \<Rightarrow> nat option"
  and stop_search :: "compareInfo \<Rightarrow> u32 \<Rightarrow> u8 list \<Rightarrow> u8 list \<Rightarrow> u8 list \<Rightarrow> nat option"
  and char_search :: "compareInfo \<Rightarrow> u32 \<Rightarrow> u32 \<Rightarrow> u8 list \<Rightarrow> u8 list \<Rightarrow> nat option"
where
  "pattern_loop pInfo matchOther zEscaped zPattern zString = do {
     (c, P) \<leftarrow> Utf8Read zPattern;
     if c = 0 then map_option (\<lambda>b. if b = 0 then SQLITE_MATCH else SQLITE_NOMATCH) (rd8 zString 0)
     else if c = ucast (matchAll pInfo) then do {
       wild \<leftarrow> skip_wild pInfo P zString;
       (case wild of
          None \<Rightarrow> Some SQLITE_NOWILDCARDMATCH
        | Some (c, Q, P, S) \<Rightarrow>
            if c = 0 then Some SQLITE_MATCH
            else if c = matchOther \<and> matchSet pInfo \<noteq> 0 then
              if matchOther < 0x80 then set_search pInfo matchOther Q S else None
            else do {
              (c, P) \<leftarrow> (if c = matchOther then sqlite3Utf8Read P else Some (c, P));
              if c = 0 then Some SQLITE_NOWILDCARDMATCH
              else if c \<le> 0x80 then stop_search pInfo matchOther (stop_bytes pInfo c) P S
              else char_search pInfo matchOther c P S
            })
     }
     else if c = matchOther \<and> matchSet pInfo \<noteq> 0 then do {
       (c, S) \<leftarrow> sqlite3Utf8Read zString;
       if c = 0 then Some SQLITE_NOMATCH
       else do {
         (ok, P) \<leftarrow> set_match c P;
         if ok then pattern_loop pInfo matchOther zEscaped P S else Some SQLITE_NOMATCH
       }
     }
     else do {
       (c, P, zEscaped) \<leftarrow> (if c = matchOther then map_option (\<lambda>(c, P). (c, P, Some (length P))) (sqlite3Utf8Read P) else Some (c, P, zEscaped));
       if c = 0 then Some SQLITE_NOMATCH
       else do {
         (c2, S) \<leftarrow> Utf8Read zString;
         if c = c2
            \<or> noCase pInfo \<and> UpperToLower (ucast c) = UpperToLower (ucast c2) \<and> c < 0x80 \<and> c2 < 0x80
            \<or> c = ucast (matchOne pInfo) \<and> zEscaped \<noteq> Some (length P) \<and> c2 \<noteq> 0
         then pattern_loop pInfo matchOther zEscaped P S
         else Some SQLITE_NOMATCH
       }
     }
   }"
| "set_search pInfo matchOther P S = do {
     b \<leftarrow> rd8 S 0;
     if b = 0 then Some SQLITE_NOWILDCARDMATCH
     else do {
       bMatch \<leftarrow> pattern_loop pInfo matchOther None P S;
       if bMatch \<noteq> SQLITE_NOMATCH then Some bMatch
       else do { S \<leftarrow> SQLITE_SKIP_UTF8 S; set_search pInfo matchOther P S }
     }
   }"
| "stop_search pInfo matchOther stops P S = do {
     S \<leftarrow> strcspn_rest stops S;
     b \<leftarrow> rd8 S 0;
     if b = 0 then Some SQLITE_NOWILDCARDMATCH
     else do {
       bMatch \<leftarrow> pattern_loop pInfo matchOther None P (drop 1 S);
       if bMatch \<noteq> SQLITE_NOMATCH then Some bMatch
       else stop_search pInfo matchOther stops P (drop 1 S)
     }
   }"
| "char_search pInfo matchOther c P S = do {
     (c2, S) \<leftarrow> Utf8Read S;
     if c2 = 0 then Some SQLITE_NOWILDCARDMATCH
     else if c2 \<noteq> c then char_search pInfo matchOther c P S
     else do {
       bMatch \<leftarrow> pattern_loop pInfo matchOther None P S;
       if bMatch \<noteq> SQLITE_NOMATCH then Some bMatch
       else char_search pInfo matchOther c P S
     }
   }"
  by pat_completeness auto

termination
  by (relation "inv_image (less_than <*lex*> less_than <*lex*> less_than) search_order")
    (auto simp: search_order_def simp del: if_split dest: wild_literal_order plain_literal_order skip_wild_order set_match_order strcspn_rest_order SKIP_UTF8_less Utf8Read_less)

declare pattern_loop.simps [simp del] set_search.simps [simp del] stop_search.simps [simp del] char_search.simps [simp del]

definition patternCompare :: "u8 list \<Rightarrow> u8 list \<Rightarrow> compareInfo \<Rightarrow> u32 \<Rightarrow> nat option" where
  "patternCompare zPattern zString pInfo matchOther = pattern_loop pInfo matchOther None zPattern zString"

definition sqlite3_strglob :: "u8 list \<Rightarrow> u8 list \<Rightarrow> nat option" where
  "sqlite3_strglob zGlobPattern zString = patternCompare zGlobPattern zString globInfo 91"

definition sqlite3_strlike :: "u8 list \<Rightarrow> u8 list \<Rightarrow> u32 \<Rightarrow> nat option" where
  "sqlite3_strlike zPattern zStr esc = patternCompare zPattern zStr likeInfoNorm esc"

text \<open>
  The SQL functions LIKE and GLOB: the texts of the pattern and the string, \<open>None\<close> for NULL, the
  length of the pattern and its limit, and the text of the escape if there are three arguments.
\<close>

datatype sql_result = ResultNull | ResultInt nat | ResultError string

definition likeFunc :: "compareInfo \<Rightarrow> int \<Rightarrow> u8 list option \<Rightarrow> int \<Rightarrow> u8 list option \<Rightarrow> u8 list option option \<Rightarrow> sql_result option" where
  "likeFunc pInfo limit zB nPat zA esc =
     (if nPat > limit then Some (ResultError ''LIKE or GLOB pattern too complex'')
      else do {
        escape \<leftarrow> (case esc of
            None \<Rightarrow> Some (Inr (ucast (matchSet pInfo)))
          | Some None \<Rightarrow> Some (Inl ResultNull)
          | Some (Some zEsc) \<Rightarrow> do {
              n \<leftarrow> sqlite3Utf8CharLen zEsc (- 1);
              if n \<noteq> 1 then Some (Inl (ResultError ''ESCAPE expression must be a single character''))
              else map_option (\<lambda>(c, _). Inr c) (sqlite3Utf8Read zEsc)
            });
        (case escape of
           Inl r \<Rightarrow> Some r
         | Inr escape \<Rightarrow>
             (case (zA, zB) of
                (Some zA, Some zB) \<Rightarrow>
                  map_option (\<lambda>r. ResultInt (if r = SQLITE_MATCH then 1 else 0)) (patternCompare zB zA pInfo escape)
              | _ \<Rightarrow> Some ResultNull))
      })"

section \<open>What a pattern matches\<close>

text \<open>The characters of a zero-terminated string, as \<open>sqlite3Utf8Read\<close> decodes them.\<close>

function utf8_chars :: "u8 list \<Rightarrow> u32 list" where
  "utf8_chars z = (case sqlite3Utf8Read z of None \<Rightarrow> [] | Some (c, z) \<Rightarrow> if c = 0 then [] else c # utf8_chars z)"
  by pat_completeness auto
termination
  by (relation "measure length") (auto dest: sqlite3Utf8Read_less)

declare utf8_chars.simps [simp del]

text \<open>
  A pattern is a list of items: any text, any character, a given character, or one in or not in
  a set of ranges; \<open>Broken\<close> stands for a set that does not end or an escape before the end, and matches nothing.
\<close>

datatype item = AnyText | AnyChar | Literal u32 | OneOf bool "(u32 \<times> u32) list" | Broken

text \<open>
  The members of a set up to its \<open>]\<close>: a range \<open>a-b\<close>, which has \<open>a\<close> even if \<open>b\<close> is below it, or
  a character.
\<close>

fun set_members :: "u32 list \<Rightarrow> ((u32 \<times> u32) list \<times> u32 list) option" where
  "set_members [] = None"
| "set_members (a # p) =
     (if a = c_CLOSE then Some ([], p)
      else case p of
        d # b # p' \<Rightarrow>
          if d = c_DASH \<and> b \<noteq> c_CLOSE then map_option (\<lambda>(rs, p). ((a, a) # (a, b) # rs, p)) (set_members p')
          else map_option (\<lambda>(rs, p). ((a, a) # rs, p)) (set_members p)
      | _ \<Rightarrow> map_option (\<lambda>(rs, p). ((a, a) # rs, p)) (set_members p))"

definition set_parse :: "u32 list \<Rightarrow> (bool \<times> (u32 \<times> u32) list \<times> u32 list) option" where
  "set_parse p =
     (let invert = (p \<noteq> [] \<and> hd p = c_CARET);
          p = (if invert then tl p else p);
          first = (p \<noteq> [] \<and> hd p = c_CLOSE);
          p = (if first then tl p else p)
      in map_option (\<lambda>(rs, p). (invert, if first then (c_CLOSE, c_CLOSE) # rs else rs, p)) (set_members p))"

lemma set_members_step: "set_members (a # q) = Some (rs, p) \<Longrightarrow> p = q \<or> (\<exists>r rs'. set_members r = Some (rs', p) \<and> length r \<le> length q)"
  by (cases q rule: remdups_adj.cases) (auto split: if_splits simp del: set_members.simps(2) simp: set_members.simps(2) [of a])

lemma set_members_length: "set_members p = Some (rs, p') \<Longrightarrow> length p' < length p"
proof (induction "length p" arbitrary: p rs rule: less_induct)
  case less
  then obtain a q where p: "p = a # q" by (cases p) auto
  consider (close) "p' = q" | (more) r rs' where "set_members r = Some (rs', p')" "length r \<le> length q"
    using set_members_step [OF less.prems [unfolded p]] by auto
  then show ?case
  proof cases
    case close then show ?thesis using p by simp
  next
    case more
    then have "length r < length p" using p by simp
    then show ?thesis using less.hyps [OF _ more(1)] by simp
  qed
qed

lemma set_parse_length: "set_parse p = Some (ng, rs, p') \<Longrightarrow> length p' < Suc (length p)"
  by (auto simp: set_parse_def Let_def split: if_splits dest!: set_members_length)

function pattern_items :: "compareInfo \<Rightarrow> u32 \<Rightarrow> u32 list \<Rightarrow> item list" where
  "pattern_items i esc [] = []"
| "pattern_items i esc (c # p) =
     (if c = ucast (matchAll i) then AnyText # pattern_items i esc p
      else if c = ucast (matchOne i) then AnyChar # pattern_items i esc p
      else if c = esc then
        if matchSet i = 0 then (case p of [] \<Rightarrow> [Broken] | d # p \<Rightarrow> Literal d # pattern_items i esc p)
        else (case set_parse p of None \<Rightarrow> [Broken] | Some (ng, rs, p) \<Rightarrow> OneOf ng rs # pattern_items i esc p)
      else Literal c # pattern_items i esc p)"
  by pat_completeness auto
termination
  by (relation "measure (\<lambda>(i, e, p). length p)") (auto dest: set_parse_length)

definition same_char :: "bool \<Rightarrow> u32 \<Rightarrow> u32 \<Rightarrow> bool" where
  "same_char nc c x \<longleftrightarrow> c = x \<or> nc \<and> c < 0x80 \<and> x < 0x80 \<and> UpperToLower (ucast c) = UpperToLower (ucast x)"

fun item_matches :: "bool \<Rightarrow> item \<Rightarrow> u32 \<Rightarrow> bool" where
  "item_matches nc (Literal c) x = same_char nc c x"
| "item_matches nc (OneOf ng rs) x = (list_ex (\<lambda>(a, b). a \<le> x \<and> x \<le> b) rs \<noteq> ng)"
| "item_matches nc it x = (it = AnyChar)"

fun text_matches :: "bool \<Rightarrow> item list \<Rightarrow> u32 list \<Rightarrow> bool" where
  "text_matches nc [] s = (s = [])"
| "text_matches nc (it # its) s =
     (if it = AnyText then list_ex (\<lambda>k. text_matches nc its (drop k s)) [0..<Suc (length s)]
      else s \<noteq> [] \<and> item_matches nc it (hd s) \<and> text_matches nc its (tl s))"

section \<open>Strings of bytes as strings of characters\<close>

lemma utf8_tail_end: "0 \<in> set z \<Longrightarrow> \<exists>c' z'. utf8_tail True c z = Some (c', z') \<and> 0 \<in> set z' \<and> skip_tail z = Some z' \<and>
    ((\<forall>b\<in>set stops. b < 0x80) \<longrightarrow> strcspn_rest stops z = strcspn_rest stops z')"
proof (induction z arbitrary: c)
  case (Cons b z)
  have "b AND 0xc0 = 0x80 \<Longrightarrow> \<not> b < 0x80"
    using cont_iff [of b] by (auto simp: word_less_nat_alt)
  moreover obtain c' z' where "0 \<in> set z \<Longrightarrow> utf8_tail True (push_bit 6 c + ucast (63 AND b)) z = Some (c', z') \<and> 0 \<in> set z' \<and> skip_tail z = Some z' \<and>
      ((\<forall>b\<in>set stops. b < 0x80) \<longrightarrow> strcspn_rest stops z = strcspn_rest stops z')"
    using Cons.IH [of "push_bit 6 c + ucast (63 AND b)"] by metis
  ultimately show ?case using Cons.prems by (cases "b AND 0xc0 = 0x80") (auto simp: utf8_tail.simps)
qed simp

lemma utf8_fix_high: "utf8_fix c \<ge> 0x80"
  by (auto simp: utf8_fix_def)

lemma ucast_u8_u32: "(ucast (b :: u8) :: u32) = 0 \<longleftrightarrow> b = 0" "(ucast b :: u32) < 0x80 \<longleftrightarrow> b < 0x80"
  by (simp_all add: word_less_nat_alt unat_u8_u32 unat_eq_0 [symmetric])

text \<open>What the routines do at a character of a string, and at its end.\<close>

lemma char_cases [consumes 1, case_names end_of_text char]:
  assumes "0 \<in> set z"
  obtains z' where "z = 0 # z'" "sqlite3Utf8Read z = Some (0, z')" "Utf8Read z = Some (0, z')" "utf8_chars z = []" "rd8 z 0 = Some 0"
    "\<And>stops. strcspn_rest stops z = Some z"
  | b r c z' where "z = b # r" "b \<noteq> 0" "sqlite3Utf8Read z = Some (c, z')" "Utf8Read z = Some (c, z')" "c \<noteq> 0" "0 \<in> set z'" "utf8_chars z = c # utf8_chars z'"
    "rd8 z 0 = Some b" "SQLITE_SKIP_UTF8 z = Some z'" "length z' < length z" "b < 0x80 \<Longrightarrow> c = ucast b \<and> z' = r" "b < 0x80 \<longleftrightarrow> c < 0x80"
    "\<And>stops. (\<forall>b\<in>set stops. b < 0x80) \<Longrightarrow> strcspn_rest stops z = (if b \<in> set stops then Some z else strcspn_rest stops z')"
proof (cases z)
  case Nil then show ?thesis using assms by simp
next
  case (Cons b r)
  show ?thesis
  proof (cases "b = 0")
    case True
    with Cons show ?thesis
      by (intro that(1)) (auto simp: sqlite3Utf8Read_def utf8_read_def Utf8Read_def rd8_def utf8_chars.simps)
  next
    case b: False
    with Cons assms have r: "0 \<in> set r" by auto
    show ?thesis
    proof (cases "b < 0xc0")
      case True
      then have "sqlite3Utf8Read z = Some (ucast b, r)" using Cons by (auto simp: sqlite3Utf8Read_def utf8_read_def)
      moreover have "(ucast b :: u32) \<noteq> 0" using b by (simp add: ucast_u8_u32)
      ultimately show ?thesis using Cons b r True
        by (intro that(2)) (auto simp: Utf8Read_def rd8_def utf8_chars.simps [of "b # r"] SQLITE_SKIP_UTF8_def ucast_u8_u32)
    next
      case False
      have "unat (b - 0xc0) < 64"
        using False unat_sub [of "0xc0" b] unsigned_less [of b, where 'a = nat] by (auto simp: word_less_nat_alt word_le_nat_alt)
      then have a: "rda sqlite3Utf8Trans1 (unat (b - 0xc0)) = Some (sqlite3Utf8Trans1 ! unat (b - 0xc0))" (is "_ = Some ?a")
        by (simp add: length_trans1)
      obtain c z' where t: "utf8_tail True (ucast ?a) r = Some (c, z')" "0 \<in> set z'" "skip_tail r = Some z'"
        using utf8_tail_end [OF r, of "ucast ?a" "[]"] by auto
      have st: "(\<forall>b\<in>set stops. b < 0x80) \<Longrightarrow> strcspn_rest stops r = strcspn_rest stops z'" for stops
        using utf8_tail_end [OF r, of "ucast ?a" stops] t by auto
      have rd: "sqlite3Utf8Read z = Some (utf8_fix c, z')" using Cons False a t by (simp add: sqlite3Utf8Read_def utf8_read_def not_less)
      have h: "\<not> b < 0x80" "\<not> utf8_fix c < 0x80" "utf8_fix c \<noteq> 0" using False utf8_fix_high [of c] by (auto simp: word_less_nat_alt word_le_nat_alt)
      show ?thesis
      proof (rule that(2) [of b r "utf8_fix c" z'])
        show "Utf8Read z = Some (utf8_fix c, z')" using h rd Cons by (simp add: Utf8Read_def rd8_def)
        show "utf8_chars z = utf8_fix c # utf8_chars z'" using rd h by (simp add: utf8_chars.simps [of z])
        show "SQLITE_SKIP_UTF8 z = Some z'" using Cons False t by (auto simp: SQLITE_SKIP_UTF8_def)
        show "length z' < length z" using rd by (rule sqlite3Utf8Read_less)
        show "strcspn_rest stops z = (if b \<in> set stops then Some z else strcspn_rest stops z')" if "\<forall>b\<in>set stops. b < 0x80" for stops
          using st [OF that] that h Cons b by auto
      qed (use Cons b rd h t in \<open>auto simp: rd8_def\<close>)
    qed
  qed
qed

section \<open>Searching after a wildcard\<close>

definition occurs :: "bool \<Rightarrow> item list \<Rightarrow> u32 list \<Rightarrow> bool" where
  "occurs nc its s \<longleftrightarrow> (\<exists>k. text_matches nc its (drop k s))"

lemma text_matches_AnyText [simp]: "text_matches nc (AnyText # its) s \<longleftrightarrow> occurs nc its s"
proof
  assume "occurs nc its s"
  then obtain k where "text_matches nc its (drop k s)" by (auto simp: occurs_def)
  moreover have "drop k s = drop (min k (length s)) s" by (simp add: min_def)
  ultimately show "text_matches nc (AnyText # its) s" by (auto simp: list_ex_iff simp del: upt_Suc intro!: bexI [of _ "min k (length s)"])
qed (auto simp: occurs_def list_ex_iff simp del: upt_Suc)

lemma text_matches_item [simp]:
  "it \<noteq> AnyText \<Longrightarrow> text_matches nc (it # its) s \<longleftrightarrow> s \<noteq> [] \<and> item_matches nc it (hd s) \<and> text_matches nc its (tl s)"
  by simp

declare text_matches.simps(2) [simp del]

lemma occurs_simps [simp]:
  "occurs nc its [] \<longleftrightarrow> text_matches nc its []"
  "occurs nc its (x # s) \<longleftrightarrow> text_matches nc its (x # s) \<or> occurs nc its s"
proof -
  show "occurs nc its (x # s) \<longleftrightarrow> text_matches nc its (x # s) \<or> occurs nc its s"
    unfolding occurs_def by (metis drop0 drop_Suc_Cons not0_implies_Suc)
qed (simp add: occurs_def)

lemma occurs_AnyText [simp]: "occurs nc (AnyText # its) s \<longleftrightarrow> occurs nc its s"
  by (induction s) auto

lemma occurs_AnyChar [simp]: "occurs nc (AnyChar # its) (x # s) \<longleftrightarrow> occurs nc its s"
  by (induction s arbitrary: x) auto

lemma occurs_drop: "occurs nc its (drop k s) \<Longrightarrow> occurs nc its s"
  by (auto simp: occurs_def)

lemma text_matches_occurs: "text_matches nc its (drop k s) \<Longrightarrow> occurs nc its s"
  by (auto simp: occurs_def)

text \<open>
  The result \<open>r\<close> of comparing a string with a pattern: zero if it matches, and two only if the pattern
  matches no end of the string either. A search gives zero or two.
\<close>

definition compares :: "bool \<Rightarrow> item list \<Rightarrow> u32 list \<Rightarrow> nat \<Rightarrow> bool" where
  "compares nc its s r \<longleftrightarrow> (r = SQLITE_MATCH \<and> text_matches nc its s) \<or> (r = SQLITE_NOMATCH \<and> \<not> text_matches nc its s) \<or>
    (r = SQLITE_NOWILDCARDMATCH \<and> \<not> occurs nc its s)"

definition finds :: "bool \<Rightarrow> item list \<Rightarrow> u32 list \<Rightarrow> nat \<Rightarrow> bool" where
  "finds nc its s r \<longleftrightarrow> (r = SQLITE_MATCH \<and> occurs nc its s) \<or> (r = SQLITE_NOWILDCARDMATCH \<and> \<not> occurs nc its s)"

lemma occurs_here: "text_matches nc its s \<Longrightarrow> occurs nc its s"
  by (cases s) auto

lemma finds_compares: "finds nc its s r \<Longrightarrow> compares nc (AnyText # its) s r"
  by (auto simp: finds_def compares_def)

text \<open>One attempt of a search, and the search in what is left.\<close>

lemma finds_step:
  assumes "compares nc its s b" and "b = SQLITE_NOMATCH \<Longrightarrow> finds nc its (tl s) r" and "s \<noteq> []"
  shows "finds nc its s (if b \<noteq> SQLITE_NOMATCH then b else r)"
proof -
  obtain x t where s: "s = x # t" using assms(3) by (cases s) auto
  show ?thesis using assms(1,2) by (auto simp: s compares_def finds_def occurs_here split: if_splits)
qed

locale matcher =
  fixes pInfo :: compareInfo and esc :: u32
  assumes wildcards: "matchAll pInfo \<noteq> 0" "matchOne pInfo \<noteq> 0" "matchAll pInfo \<noteq> matchOne pInfo"
    and esc: "esc \<noteq> ucast (matchAll pInfo)" "esc \<noteq> ucast (matchOne pInfo)"
    and esc_set: "matchSet pInfo \<noteq> 0 \<Longrightarrow> esc < 0x80"
begin

definition items :: "u8 list \<Rightarrow> item list" where
  "items P = pattern_items pInfo esc (utf8_chars P)"

definition compares_from :: "u8 list \<Rightarrow> nat option \<Rightarrow> bool" where
  "compares_from P z \<longleftrightarrow> (\<forall>S. 0 \<in> set S \<longrightarrow> (\<exists>r. pattern_loop pInfo esc z P S = Some r \<and> compares (noCase pInfo) (items P) (utf8_chars S) r))"

lemma set_search_ok:
  assumes P: "compares_from P None" and head: "items P = OneOf ng rs # its \<or> items P = [Broken]"
  shows "0 \<in> set S \<Longrightarrow> \<exists>r. set_search pInfo esc P S = Some r \<and> finds (noCase pInfo) (items P) (utf8_chars S) r"
proof (induction "length S" arbitrary: S rule: less_induct)
  case less
  from less.prems show ?case
  proof (cases rule: char_cases)
    case end_of_text
    then show ?thesis using head by (subst set_search.simps) (auto simp: finds_def)
  next
    case (char b r c S')
    obtain bm where bm: "pattern_loop pInfo esc None P S = Some bm" "compares (noCase pInfo) (items P) (utf8_chars S) bm"
      using P less.prems by (auto simp: compares_from_def)
    obtain q where q: "set_search pInfo esc P S' = Some q" "finds (noCase pInfo) (items P) (utf8_chars S') q"
      using less.hyps [OF char(10,6)] by auto
    have "finds (noCase pInfo) (items P) (utf8_chars S) (if bm \<noteq> SQLITE_NOMATCH then bm else q)"
      using bm(2) q(2) char(7) by (intro finds_step) auto
    then show ?thesis using bm(1) q(1) char by (subst set_search.simps) auto
  qed
qed

lemma occurs_Literal:
  "\<not> same_char nc c x \<Longrightarrow> occurs nc (Literal c # its) (x # s) \<longleftrightarrow> occurs nc (Literal c # its) s"
  by simp

lemma finds_Literal:
  assumes "compares nc its s b" and "b = SQLITE_NOMATCH \<Longrightarrow> finds nc (Literal c # its) s r" and "same_char nc c x"
  shows "finds nc (Literal c # its) (x # s) (if b \<noteq> SQLITE_NOMATCH then b else r)"
proof -
  have "occurs nc (Literal c # its) s \<Longrightarrow> occurs nc its s"
    by (induction s) (auto dest: occurs_here)
  moreover have "text_matches nc (Literal c # its) (x # s) \<longleftrightarrow> text_matches nc its s" using assms(3) by simp
  ultimately show ?thesis using assms(1,2) occurs_here [of nc its s]
    by (auto simp: compares_def finds_def simp del: text_matches_item split: if_splits)
qed

lemma char_search_ok:
  assumes P: "compares_from P None" and c: "\<not> c < 0x80"
  shows "0 \<in> set S \<Longrightarrow> \<exists>r. char_search pInfo esc c P S = Some r \<and> finds (noCase pInfo) (Literal c # items P) (utf8_chars S) r"
proof (induction "length S" arbitrary: S rule: less_induct)
  case less
  from less.prems show ?case
  proof (cases rule: char_cases)
    case end_of_text
    then show ?thesis by (subst char_search.simps) (auto simp: finds_def)
  next
    case (char b r x S')
    have same: "same_char (noCase pInfo) c x \<longleftrightarrow> x = c" using c by (auto simp: same_char_def)
    obtain q where q: "char_search pInfo esc c P S' = Some q" "finds (noCase pInfo) (Literal c # items P) (utf8_chars S') q"
      using less.hyps [OF char(10,6)] by auto
    obtain bm where bm: "pattern_loop pInfo esc None P S' = Some bm" "compares (noCase pInfo) (items P) (utf8_chars S') bm"
      using P char(6) by (auto simp: compares_from_def)
    show ?thesis
    proof (cases "x = c")
      case True
      then have "finds (noCase pInfo) (Literal c # items P) (x # utf8_chars S') (if bm \<noteq> SQLITE_NOMATCH then bm else q)"
        using bm(2) q(2) same by (intro finds_Literal) auto
      then show ?thesis using bm(1) q(1) char True by (subst char_search.simps) auto
    next
      case False
      then show ?thesis using q same char by (subst char_search.simps) (auto simp: finds_def)
    qed
  qed
qed

end

section \<open>Sets\<close>

definition in_ranges :: "(u32 \<times> u32) list \<Rightarrow> u32 \<Rightarrow> bool" where
  "in_ranges rs x \<longleftrightarrow> list_ex (\<lambda>(a, b). a \<le> x \<and> x \<le> b) rs"

lemma in_ranges_simps [simp]: "in_ranges [] x = False" "in_ranges ((a, b) # rs) x \<longleftrightarrow> a \<le> x \<and> x \<le> b \<or> in_ranges rs x"
  by (simp_all add: in_ranges_def)

lemma in_ranges_one: "in_ranges ((a, a) # rs) x \<longleftrightarrow> x = a \<or> in_ranges rs x"
  by auto

text \<open>The members of a set when \<open>a\<close> came before, or nothing that can start a range.\<close>

definition members_from :: "u32 \<Rightarrow> u32 list \<Rightarrow> ((u32 \<times> u32) list \<times> u32 list) option" where
  "members_from a p = (case p of
     d # b # p' \<Rightarrow>
       if d = c_DASH \<and> b \<noteq> c_CLOSE \<and> a \<noteq> 0 then map_option (\<lambda>(rs, p). ((a, b) # rs, p)) (set_members p')
       else set_members p
   | _ \<Rightarrow> set_members p)"

lemma members_step: "a \<noteq> 0 \<Longrightarrow> a \<noteq> c_CLOSE \<Longrightarrow> set_members (a # p) = map_option (\<lambda>(rs, p). ((a, a) # rs, p)) (members_from a p)"
  by (cases p rule: remdups_adj.cases)
    (simp_all add: members_from_def set_members.simps(2) [of a] option.map_comp o_def case_prod_unfold del: set_members.simps(2))

declare set_members.simps(2) [simp del]

lemma set_members_close [simp]: "set_members (93 # p) = Some ([], p)"
  by (simp add: set_members.simps)

lemma members_from_0 [simp]: "members_from 0 p = set_members p"
  by (auto simp: members_from_def split: list.split)

lemma members_from_other: "p = [] \<or> hd p \<noteq> c_DASH \<Longrightarrow> members_from a p = set_members p"
  by (cases p rule: remdups_adj.cases) (auto simp: members_from_def)

text \<open>A character that was read, or zero at the end, and the characters from it on.\<close>

definition read_at :: "u32 \<Rightarrow> u8 list \<Rightarrow> u32 list \<Rightarrow> bool" where
  "read_at c P cs \<longleftrightarrow> (if c = 0 then cs = [] else 0 \<in> set P \<and> cs = c # utf8_chars P)"

lemma read_at: "0 \<in> set P \<Longrightarrow> \<exists>c P'. sqlite3Utf8Read P = Some (c, P') \<and> Utf8Read P = Some (c, P') \<and> read_at c P' (utf8_chars P) \<and> length P' < length P"
  by (cases rule: char_cases) (auto simp: read_at_def)

lemma read_at_cases [consumes 1, case_names at_end at_char]:
  assumes "read_at c P cs"
  obtains "c = 0" "cs = []" | "c \<noteq> 0" "cs = c # utf8_chars P" "0 \<in> set P"
  using assms by (auto simp: read_at_def split: if_splits)

lemma read_on: "read_at c P cs \<Longrightarrow> c \<noteq> 0 \<Longrightarrow> \<exists>c' P'. sqlite3Utf8Read P = Some (c', P') \<and> read_at c' P' (tl cs)"
  using read_at [of P] by (auto simp: read_at_def [of c])

lemma peek:
  assumes "0 \<in> set P"
  shows "\<exists>b. rd8 P 0 = Some b \<and> (b \<noteq> 93 \<and> b \<noteq> 0 \<longleftrightarrow> utf8_chars P \<noteq> [] \<and> hd (utf8_chars P) \<noteq> c_CLOSE)"
  using assms
proof (cases rule: char_cases)
  case (char b r c z')
  have "c = 93 \<longleftrightarrow> b = 93"
  proof (cases "b < 0x80")
    case True
    then have "unat c = unat b" using char(11) by (simp add: unat_u8_u32)
    then show ?thesis by (simp add: word_unat_eq_iff)
  next
    case False
    then show ?thesis using char(12) by auto
  qed
  then show ?thesis using char by simp
qed simp

definition member_result :: "u32 \<Rightarrow> bool \<Rightarrow> ((u32 \<times> u32) list \<times> u32 list) option \<Rightarrow> u32 \<times> bool \<times> u8 list \<Rightarrow> bool" where
  "member_result c seen m r = (case (m, r) of
     (None, (c2, _)) \<Rightarrow> c2 = 0
   | (Some (rs, p), (c2, seen', P)) \<Rightarrow> c2 \<noteq> 0 \<and> 0 \<in> set P \<and> utf8_chars P = p \<and> seen' = (seen \<or> in_ranges rs c))"

lemma member_result_Cons: "member_result c (seen \<or> a \<le> c \<and> c \<le> b) m r \<Longrightarrow> member_result c seen (map_option (\<lambda>(rs, p). ((a, b) # rs, p)) m) r"
  by (auto simp: member_result_def split: option.splits)

lemma member_loop_ok: "read_at c2 P cs \<Longrightarrow> \<exists>r. member_loop c c2 prior seen P = Some r \<and> member_result c seen (members_from prior cs) r"
proof (induction "length P" arbitrary: c2 P cs prior seen rule: less_induct)
  case less
  from less.prems show ?case
  proof (cases rule: read_at_cases)
    case at_end
    then show ?thesis by (subst member_loop.simps) (simp add: member_result_def members_from_def)
  next
    case at_char
    show ?thesis
    proof (cases "c2 = c_CLOSE")
      case True
      then show ?thesis using at_char by (subst member_loop.simps) (auto simp: member_result_def members_from_other)
    next
      case close: False
      obtain b where b: "rd8 P 0 = Some b" "b \<noteq> 93 \<and> b \<noteq> 0 \<longleftrightarrow> utf8_chars P \<noteq> [] \<and> hd (utf8_chars P) \<noteq> c_CLOSE"
        using peek [OF at_char(3)] by auto
      obtain c3 P3 where c3: "sqlite3Utf8Read P = Some (c3, P3)" "read_at c3 P3 (utf8_chars P)" "length P3 < length P"
        using read_at [OF at_char(3)] by auto
      show ?thesis
      proof (cases "c2 = c_DASH \<and> b \<noteq> 93 \<and> b \<noteq> 0 \<and> prior > 0")
        case range: True
        then have "c3 \<noteq> 0" using b(2) c3(2) by (auto simp: read_at_def)
        then have P3: "utf8_chars P = c3 # utf8_chars P3" "0 \<in> set P3" using c3(2) by (auto simp: read_at_def)
        obtain c4 P4 where c4: "sqlite3Utf8Read P3 = Some (c4, P4)" "read_at c4 P4 (utf8_chars P3)" "length P4 < length P3"
          using read_at [OF P3(2)] by auto
        from less.hyps [OF _ c4(2), of 0 "seen \<or> c \<ge> prior \<and> c \<le> c3"] c3(3) c4(3) obtain r where
          r: "member_loop c c4 0 (seen \<or> c \<ge> prior \<and> c \<le> c3) P4 = Some r" "member_result c (seen \<or> prior \<le> c \<and> c \<le> c3) (set_members (utf8_chars P3)) r"
          by auto
        have "members_from prior cs = map_option (\<lambda>(rs, p). ((prior, c3) # rs, p)) (set_members (utf8_chars P3))"
          using range b(2) P3(1) at_char(2) by (auto simp: members_from_def)
        with member_result_Cons [OF r(2)] r(1) show ?thesis
          using range at_char close b(1) c3(1) c4(1) by (subst member_loop.simps) auto
      next
        case False
        have eq: "c2 \<le> c \<and> c \<le> c2 \<longleftrightarrow> c = c2" by auto
        from less.hyps [OF c3(3,2), of c2 "seen \<or> c = c2"] obtain r where
          r: "member_loop c c3 c2 (seen \<or> c = c2) P3 = Some r" "member_result c (seen \<or> c2 \<le> c \<and> c \<le> c2) (members_from c2 (utf8_chars P)) r"
          unfolding eq by blast
        have "members_from prior cs = set_members (c2 # utf8_chars P)"
          using False b(2) at_char(2) by (auto simp: members_from_def word_gt_0 split: list.split)
        then have "member_result c seen (members_from prior cs) r"
          using member_result_Cons [OF r(2)] members_step [OF at_char(1) close] by simp
        moreover have "(if c2 = c_DASH then map_option (\<lambda>b. b \<noteq> 93 \<and> b \<noteq> 0 \<and> prior > 0) (rd8 P 0) else Some False) = Some False"
          using False b(1) by simp
        then have "member_loop c c2 prior seen P = Some r"
          using at_char(1) close c3(1) r(1) by (subst member_loop.simps) simp
        ultimately show ?thesis by blast
      qed
    qed
  qed
qed

lemma set_match_ok:
  assumes "0 \<in> set P"
  shows "\<exists>ok P'. set_match c P = Some (ok, P') \<and> (case set_parse (utf8_chars P) of None \<Rightarrow> \<not> ok
    | Some (ng, rs, p) \<Rightarrow> ok = (in_ranges rs c \<noteq> ng) \<and> 0 \<in> set P' \<and> utf8_chars P' = p)"
proof -
  obtain c1 P1 where c1: "sqlite3Utf8Read P = Some (c1, P1)" "read_at c1 P1 (utf8_chars P)" using read_at [OF assms] by auto
  define ng where "ng \<longleftrightarrow> c1 = c_CARET"
  have "\<exists>c2 P2. (if c1 = c_CARET then map_option (\<lambda>(c2, P). (True, c2, P)) (sqlite3Utf8Read P1) else Some (False, c1, P1)) = Some (ng, c2, P2) \<and>
      read_at c2 P2 (if ng then tl (utf8_chars P) else utf8_chars P)"
    using c1(2) read_on [OF c1(2)] by (auto simp: ng_def)
  then obtain c2 P2 where c2: "(if c1 = c_CARET then map_option (\<lambda>(c2, P). (True, c2, P)) (sqlite3Utf8Read P1) else Some (False, c1, P1)) = Some (ng, c2, P2)"
    "read_at c2 P2 (if ng then tl (utf8_chars P) else utf8_chars P)" by auto
  define cs where "cs = (if ng then tl (utf8_chars P) else utf8_chars P)"
  define first where "first \<longleftrightarrow> c2 = c_CLOSE"
  have ng_eq: "ng \<longleftrightarrow> utf8_chars P \<noteq> [] \<and> hd (utf8_chars P) = c_CARET" using c1(2) by (cases rule: read_at_cases) (auto simp: ng_def)
  have first_eq: "first \<longleftrightarrow> cs \<noteq> [] \<and> hd cs = c_CLOSE" using c2(2) unfolding cs_def [symmetric] by (cases rule: read_at_cases) (auto simp: first_def)
  have "\<exists>c3 P3. (if c2 = c_CLOSE then map_option (\<lambda>(c2, P). (c = c_CLOSE, c2, P)) (sqlite3Utf8Read P2) else Some (False, c2, P2)) =
      Some (first \<and> c = c_CLOSE, c3, P3) \<and> read_at c3 P3 (if first then tl cs else cs)"
    using c2(2) read_on [OF c2(2)] unfolding cs_def [symmetric] by (auto simp: first_def)
  then obtain c3 P3 where c3: "(if c2 = c_CLOSE then map_option (\<lambda>(c2, P). (c = c_CLOSE, c2, P)) (sqlite3Utf8Read P2) else Some (False, c2, P2)) =
      Some (first \<and> c = c_CLOSE, c3, P3)" "read_at c3 P3 (if first then tl cs else cs)" by auto
  obtain c4 seen P4 where r: "member_loop c c3 0 (first \<and> c = c_CLOSE) P3 = Some (c4, seen, P4)"
    "member_result c (first \<and> c = c_CLOSE) (set_members (if first then tl cs else cs)) (c4, seen, P4)"
    using member_loop_ok [OF c3(2), of c 0 "first \<and> c = c_CLOSE"] by auto
  have p: "set_parse (utf8_chars P) = map_option (\<lambda>(rs, p). (ng, if first then (c_CLOSE, c_CLOSE) # rs else rs, p)) (set_members (if first then tl cs else cs))"
    unfolding set_parse_def Let_def ng_eq [symmetric] cs_def [symmetric] first_eq [symmetric] by (rule refl)
  have "set_match c P = Some (c4 \<noteq> 0 \<and> seen \<noteq> ng, P4)" using c1(1) c2(1) c3(1) r(1) by (simp add: set_match_def del: if_split)
  moreover have "in_ranges (if first then (c_CLOSE, c_CLOSE) # rs else rs) c \<longleftrightarrow> first \<and> c = c_CLOSE \<or> in_ranges rs c" for rs
    by (simp add: in_ranges_one del: in_ranges_simps(2))
  ultimately show ?thesis using r(2) unfolding p
    by (cases "set_members (if first then tl cs else cs)") (auto simp: member_result_def)
qed

section \<open>The comparison against the items\<close>

lemma stop_bytes_same:
  assumes "c < 0x80" "c \<noteq> 0"
  shows "\<forall>b\<in>set (stop_bytes i c). b < 0x80" "b < 0x80 \<Longrightarrow> b \<in> set (stop_bytes i c) \<longleftrightarrow> same_char (noCase i) c (ucast b)"
proof -
  have c: "unat c < 128" using assms(1) by (simp add: word_less_nat_alt)
  then have u: "unat (ucast c :: u8) = unat c" by (simp add: unat_u32_u8)
  show "\<forall>b\<in>set (stop_bytes i c). b < 0x80"
    using c by (auto simp: stop_bytes_def word_less_nat_alt u Toupper_nat UpperToLower_nat)
  show "b \<in> set (stop_bytes i c) \<longleftrightarrow> same_char (noCase i) c (ucast b)" if "b < 0x80"
  proof -
    have b: "unat b < 128" using that by (simp add: word_less_nat_alt)
    then have v: "unat (ucast b :: u32) = unat b" "(ucast (ucast b :: u32) :: u8) = b"
      by (simp_all add: unat_u8_u32 word_unat_eq_iff unat_u32_u8)
    show ?thesis using b c
      by (simp add: stop_bytes_def same_char_def word_less_nat_alt word_unat_eq_iff u v Toupper_nat UpperToLower_nat) arith
  qed
qed

context matcher begin

lemma items_Nil: "utf8_chars P = [] \<Longrightarrow> items P = []"
  by (simp add: items_def)

lemma items_AnyText: "utf8_chars P = c # utf8_chars P' \<Longrightarrow> c = ucast (matchAll pInfo) \<Longrightarrow> items P = AnyText # items P'"
  by (simp add: items_def)

lemma wild_neq: "(ucast (matchOne pInfo) :: u32) \<noteq> ucast (matchAll pInfo)" "(ucast (matchAll pInfo) :: u32) \<noteq> 0" "(ucast (matchOne pInfo) :: u32) \<noteq> 0"
  using wildcards unat_u8_u32 by (auto simp: word_unat_eq_iff ucast_u8_u32)

lemma items_AnyChar: "utf8_chars P = c # utf8_chars P' \<Longrightarrow> c = ucast (matchOne pInfo) \<Longrightarrow> items P = AnyChar # items P'"
  using wild_neq by (simp add: items_def)

lemma items_other:
  assumes "utf8_chars P = c # utf8_chars P'" "c \<noteq> ucast (matchAll pInfo)"
  shows "c \<noteq> esc \<Longrightarrow> c \<noteq> ucast (matchOne pInfo) \<Longrightarrow> items P = Literal c # items P'"
    "c = esc \<Longrightarrow> matchSet pInfo = 0 \<Longrightarrow> utf8_chars P' = [] \<Longrightarrow> items P = [Broken]"
    "c = esc \<Longrightarrow> matchSet pInfo = 0 \<Longrightarrow> utf8_chars P' = d # utf8_chars P'' \<Longrightarrow> items P = Literal d # items P''"
    "c = esc \<Longrightarrow> matchSet pInfo \<noteq> 0 \<Longrightarrow> set_parse (utf8_chars P') = None \<Longrightarrow> items P = [Broken]"
    "c = esc \<Longrightarrow> matchSet pInfo \<noteq> 0 \<Longrightarrow> set_parse (utf8_chars P') = Some (ng, rs, utf8_chars P'') \<Longrightarrow> items P = OneOf ng rs # items P''"
  using assms esc by (simp_all add: items_def)

text \<open>What is skipped after a wildcard leaves the question whether the rest occurs in the string.\<close>

definition skipped :: "bool \<Rightarrow> u8 list \<Rightarrow> u8 list \<Rightarrow> (u32 \<times> u8 list \<times> u8 list \<times> u8 list) option \<Rightarrow> bool" where
  "skipped nc P S w \<longleftrightarrow> (case w of
     None \<Rightarrow> \<not> occurs nc (items P) (utf8_chars S)
   | Some (c, Q, P', S') \<Rightarrow> 0 \<in> set Q \<and> 0 \<in> set S' \<and> sqlite3Utf8Read Q = Some (c, P') \<and> read_at c P' (utf8_chars Q) \<and>
       c \<noteq> ucast (matchAll pInfo) \<and> c \<noteq> ucast (matchOne pInfo) \<and> set (utf8_chars Q) \<subseteq> set (utf8_chars P) \<and>
       (occurs nc (items P) (utf8_chars S) \<longleftrightarrow> occurs nc (items Q) (utf8_chars S')))"

lemma skipped_step:
  "skipped nc P' S' w \<Longrightarrow> set (utf8_chars P') \<subseteq> set (utf8_chars P) \<Longrightarrow> occurs nc (items P) (utf8_chars S) \<longleftrightarrow> occurs nc (items P') (utf8_chars S') \<Longrightarrow> skipped nc P S w"
  unfolding skipped_def by (auto simp del: occurs_simps split: option.splits)

lemma skip_wild_ok: "0 \<in> set P \<Longrightarrow> 0 \<in> set S \<Longrightarrow> \<exists>w. skip_wild pInfo P S = Some w \<and> skipped nc P S w"
proof (induction "length P" arbitrary: P S rule: less_induct)
  case less
  from less.prems(1) show ?case
  proof (cases rule: char_cases)
    case (end_of_text z')
    then show ?thesis using wild_neq less.prems by (subst skip_wild.simps) (auto simp: read_at_def skipped_def)
  next
    case (char b r c P')
    consider (all) "c = ucast (matchAll pInfo)" | (one) "c = ucast (matchOne pInfo)" | (other) "c \<noteq> ucast (matchAll pInfo)" "c \<noteq> ucast (matchOne pInfo)" by blast
    then show ?thesis
    proof cases
      case all
      then have "skip_wild pInfo P S = skip_wild pInfo P' S" using char(4) by (subst skip_wild.simps) simp
      moreover obtain w where w: "skip_wild pInfo P' S = Some w" "skipped nc P' S w" using less.hyps [OF char(10,6) less.prems(2)] by blast
      moreover have "skipped nc P S w" using items_AnyText [OF char(7) all] char(7) by (intro skipped_step [OF w(2)]) auto
      ultimately show ?thesis by simp
    next
      case one
      from less.prems(2) show ?thesis
      proof (cases rule: char_cases)
        case end_of_text
        then show ?thesis using char(4) one items_AnyChar [OF char(7) one] wild_neq by (subst skip_wild.simps) (auto simp: skipped_def)
      next
        case S: (char _ _ d S')
        then have "skip_wild pInfo P S = skip_wild pInfo P' S'" using char(4) one wild_neq by (subst skip_wild.simps) simp
        moreover obtain w where w: "skip_wild pInfo P' S' = Some w" "skipped nc P' S' w" using less.hyps [OF char(10,6) S(6)] by blast
        moreover have "skipped nc P S w"
          using items_AnyChar [OF char(7) one] char(7) S(7) by (intro skipped_step [OF w(2)]) (auto simp del: occurs_simps)
        ultimately show ?thesis by simp
      qed
    next
      case other
      then show ?thesis using char less.prems by (subst skip_wild.simps) (auto simp: read_at_def skipped_def)
    qed
  qed
qed

lemma stop_search_ok:
  assumes P: "compares_from P None" and c: "c < 0x80" "c \<noteq> 0"
  shows "0 \<in> set S \<Longrightarrow> \<exists>r. stop_search pInfo esc (stop_bytes pInfo c) P S = Some r \<and> finds (noCase pInfo) (Literal c # items P) (utf8_chars S) r"
proof (induction "length S" arbitrary: S rule: less_induct)
  case less
  note stops = stop_bytes_same [OF c]
  from less.prems show ?case
  proof (cases rule: char_cases)
    case end_of_text
    then show ?thesis by (subst stop_search.simps) (auto simp: finds_def)
  next
    case (char b r x S')
    have same: "b \<in> set (stop_bytes pInfo c) \<longleftrightarrow> same_char (noCase pInfo) c x"
    proof (cases "b < 0x80")
      case True then show ?thesis using stops(2) [OF True] char(11) by simp
    next
      case False then show ?thesis using stops(1) char(12) c by (auto simp: same_char_def)
    qed
    obtain q where q: "stop_search pInfo esc (stop_bytes pInfo c) P S' = Some q" "finds (noCase pInfo) (Literal c # items P) (utf8_chars S') q"
      using less.hyps [OF char(10,6)] by auto
    obtain bm where bm: "pattern_loop pInfo esc None P S' = Some bm" "compares (noCase pInfo) (items P) (utf8_chars S') bm"
      using P char(6) by (auto simp: compares_from_def)
    show ?thesis
    proof (cases "b \<in> set (stop_bytes pInfo c)")
      case True
      then have "finds (noCase pInfo) (Literal c # items P) (x # utf8_chars S') (if bm \<noteq> SQLITE_NOMATCH then bm else q)"
        using bm(2) q(2) same by (intro finds_Literal) auto
      moreover have "drop 1 S = S'" using char(1,11) stops(1) True by auto
      ultimately show ?thesis using bm(1) q(1) char(2,7,8) char(13) [OF stops(1)] True by (subst stop_search.simps) auto
    next
      case False
      then have "stop_search pInfo esc (stop_bytes pInfo c) P S = stop_search pInfo esc (stop_bytes pInfo c) P S'"
        using char(13) [OF stops(1)] by (subst (1 2) stop_search.simps) simp
      moreover have "occurs (noCase pInfo) (Literal c # items P) (x # utf8_chars S') \<longleftrightarrow> occurs (noCase pInfo) (Literal c # items P) (utf8_chars S')"
        using same False by (intro occurs_Literal) simp
      ultimately show ?thesis using q char(7) by (simp add: finds_def del: occurs_simps)
    qed
  qed
qed

end

lemma occurs_rest: "it \<noteq> AnyText \<Longrightarrow> occurs nc (it # its) (x # t) \<Longrightarrow> occurs nc its t"
  by (induction t arbitrary: x) (auto dest: occurs_here)

lemma compares_Cons:
  assumes "it \<noteq> AnyText" "item_matches nc it x" "compares nc its t r"
  shows "compares nc (it # its) (x # t) r"
  using assms occurs_rest [of it nc its x t] by (auto simp: compares_def simp del: occurs_simps)

lemma compares_miss: "it \<noteq> AnyText \<Longrightarrow> s = [] \<or> \<not> item_matches nc it (hd s) \<Longrightarrow> compares nc (it # its) s SQLITE_NOMATCH"
  by (auto simp: compares_def)

lemma Broken_never [simp]: "\<not> text_matches nc [Broken] s" "\<not> occurs nc [Broken] s"
  by (simp, induction s) auto

lemma occurs_Nil_items [simp]: "occurs nc [] s"
  by (induction s) auto

lemma set_members_subset: "set_members p = Some (rs, p') \<Longrightarrow> set p' \<subseteq> set p"
proof (induction "length p" arbitrary: p rs rule: less_induct)
  case less
  then obtain a q where p: "p = a # q" by (cases p) auto
  show ?case
  proof (cases "a = c_CLOSE")
    case True
    then show ?thesis using less.prems p by auto
  next
    case False
    consider (range) d b r rs' where "q = d # b # r" "set_members r = Some (rs', p')" | (member) rs' where "set_members q = Some (rs', p')"
      using less.prems False unfolding p by (cases q rule: remdups_adj.cases) (auto simp: set_members.simps(2) [of a] split: if_splits)
    then show ?thesis
    proof cases
      case range then show ?thesis using less.hyps [OF _ range(2)] p by auto
    next
      case member then show ?thesis using less.hyps [OF _ member] p by auto
    qed
  qed
qed

lemma set_parse_subset: "set_parse p = Some (ng, rs, p') \<Longrightarrow> set p' \<subseteq> set p"
  by (cases p; cases "tl p") (auto simp: set_parse_def Let_def split: if_splits dest!: set_members_subset)

context matcher begin

lemma one_char:
  assumes P: "compares_from P z" and it: "it \<noteq> AnyText" and S: "0 \<in> set S"
    and cond: "\<And>x. cond x \<longleftrightarrow> x \<noteq> 0 \<and> item_matches (noCase pInfo) it x"
  shows "\<exists>r. (do { (c2, S) \<leftarrow> Utf8Read S; if cond c2 then pattern_loop pInfo esc z P S else Some SQLITE_NOMATCH }) = Some r \<and>
    compares (noCase pInfo) (it # items P) (utf8_chars S) r"
  using S
proof (cases rule: char_cases)
  case end_of_text
  then show ?thesis using cond compares_miss [OF it] by simp
next
  case (char b r c S')
  obtain q where q: "pattern_loop pInfo esc z P S' = Some q" "compares (noCase pInfo) (items P) (utf8_chars S') q"
    using P char(6) by (auto simp: compares_from_def)
  show ?thesis
  proof (cases "cond c")
    case True
    then show ?thesis using compares_Cons [OF it _ q(2), of c] cond [of c] q(1) char(4,7) by simp
  next
    case False
    then show ?thesis using compares_miss [OF it, of "utf8_chars S"] cond [of c] char(4,5,7) by simp
  qed
qed

lemma finds_skipped:
  "finds nc (items Q) (utf8_chars S') r \<Longrightarrow> skipped nc P S (Some (c, Q, P', S')) \<Longrightarrow> compares nc (AnyText # items P) (utf8_chars S) r"
  by (intro finds_compares) (auto simp: finds_def skipped_def)

lemma literal_search_ok:
  assumes "compares_from P None" "c \<noteq> 0" "c \<noteq> 0x80" "0 \<in> set S"
  shows "\<exists>r. (if c \<le> 0x80 then stop_search pInfo esc (stop_bytes pInfo c) P S else char_search pInfo esc c P S) = Some r \<and>
    finds (noCase pInfo) (Literal c # items P) (utf8_chars S) r"
proof (cases "c < 0x80")
  case True
  moreover have "c \<le> 0x80" using True by simp
  ultimately show ?thesis using stop_search_ok [OF assms(1) True assms(2,4)] by simp
next
  case False
  then have "\<not> c \<le> 0x80" using assms(3) by simp
  then show ?thesis using char_search_ok [OF assms(1) False assms(4)] by simp
qed

lemma wildcard_ok:
  assumes Q: "skipped (noCase pInfo) P S (Some (c, Q, P', S'))" and clean: "0x80 \<notin> set (utf8_chars Q)"
    and IH: "\<And>P. length P \<le> length Q \<Longrightarrow> 0 \<in> set P \<Longrightarrow> 0x80 \<notin> set (utf8_chars P) \<Longrightarrow> compares_from P None"
  shows "\<exists>r. (if c = 0 then Some SQLITE_MATCH
            else if c = esc \<and> matchSet pInfo \<noteq> 0 then
              if esc < 0x80 then set_search pInfo esc Q S' else None
            else do {
              (c, P) \<leftarrow> (if c = esc then sqlite3Utf8Read P' else Some (c, P'));
              if c = 0 then Some SQLITE_NOWILDCARDMATCH
              else if c \<le> 0x80 then stop_search pInfo esc (stop_bytes pInfo c) P S'
              else char_search pInfo esc c P S'
            }) = Some r \<and> finds (noCase pInfo) (items Q) (utf8_chars S') r"
proof -
  have rd: "read_at c P' (utf8_chars Q)" "c \<noteq> ucast (matchAll pInfo)" "c \<noteq> ucast (matchOne pInfo)" "0 \<in> set S'" "0 \<in> set Q" "length P' < length Q"
    using Q by (auto simp: skipped_def dest: sqlite3Utf8Read_less)
  from rd(1) show ?thesis
  proof (cases rule: read_at_cases)
    case at_end
    then show ?thesis by (simp add: items_Nil finds_def)
  next
    case at_char
    have P': "compares_from P' None" using IH [of P'] rd(6) at_char clean by simp
    consider (set) "c = esc" "matchSet pInfo \<noteq> 0" | (escaped) "c = esc" "matchSet pInfo = 0" | (plain) "c \<noteq> esc" by blast
    then show ?thesis
    proof cases
      case set
      obtain ng rs its where "items Q = OneOf ng rs # its \<or> items Q = [Broken]"
      proof (cases "set_parse (utf8_chars P')")
        case None then show ?thesis using that items_other(4) [OF at_char(2) rd(2)] set by blast
      next
        case (Some x) then show ?thesis using that set at_char(2) rd(2,3) by (cases x) (simp add: items_def)
      qed
      then show ?thesis using set_search_ok [OF IH [OF _ rd(5) clean] _ rd(4)] set at_char(1) esc_set by auto
    next
      case escaped
      obtain d P2 where d: "sqlite3Utf8Read P' = Some (d, P2)" "read_at d P2 (utf8_chars P')" "length P2 < length P'"
        using read_at [OF at_char(3)] by auto
      from d(2) show ?thesis
      proof (cases rule: read_at_cases)
        case at_end
        then show ?thesis using items_other(2) [OF at_char(2) rd(2)] escaped at_char(1) d(1) by (simp add: finds_def)
      next
        case e: at_char
        have "compares_from P2 None" using IH [of P2] rd(6) d(3) at_char(2) e clean by simp
        moreover have "d \<noteq> 0x80" using clean at_char(2) e(2) by auto
        ultimately show ?thesis using literal_search_ok [of P2 d S'] items_other(3) [OF at_char(2) rd(2) escaped e(2)] escaped at_char(1) d(1) e(1) rd(4) by auto
      qed
    next
      case plain
      moreover have "c \<noteq> 0x80" using clean at_char(2) by auto
      ultimately show ?thesis using literal_search_ok [OF P', of c S'] items_other(1) [OF at_char(2) rd(2)] rd(3,4) at_char(1) by auto
    qed
  qed
qed

lemma literal_cond:
  assumes "c \<noteq> 0" and "it = (if c = ucast (matchOne pInfo) \<and> z \<noteq> Some (length P) then AnyChar else Literal c)"
  shows "(c = x \<or> noCase pInfo \<and> UpperToLower (ucast c) = UpperToLower (ucast x) \<and> c < 0x80 \<and> x < 0x80
      \<or> c = ucast (matchOne pInfo) \<and> z \<noteq> Some (length P) \<and> x \<noteq> 0) \<longleftrightarrow> x \<noteq> 0 \<and> item_matches (noCase pInfo) it x"
proof (cases "x = 0")
  case False
  then show ?thesis using assms(2) by (auto simp: same_char_def)
next
  case True
  have "c < 0x80 \<Longrightarrow> UpperToLower (ucast c) \<noteq> UpperToLower 0"
  proof -
    assume "c < 0x80"
    then have "unat (ucast c :: u8) = unat c" by (simp add: unat_u32_u8 word_less_nat_alt)
    then have "unat (UpperToLower (ucast c)) \<noteq> unat (UpperToLower 0)"
      using assms(1) by (simp add: UpperToLower_nat unat_gt_0)
    then show ?thesis by metis
  qed
  then show ?thesis using True assms(1) by auto
qed

lemma pattern_loop_ok:
  "0 \<in> set P \<Longrightarrow> 0x80 \<notin> set (utf8_chars P) \<Longrightarrow> \<forall>k. z = Some k \<longrightarrow> length P \<le> k \<Longrightarrow> compares_from P z"
proof (induction "length P" arbitrary: P z rule: less_induct)
  case less
  have IH: "compares_from Q z'" if "length Q < length P" "0 \<in> set Q" "0x80 \<notin> set (utf8_chars Q)" "z' = None \<or> z' = z \<or> z' = Some (length Q)" for Q z'
    using less.prems(3) that by (intro less.hyps) auto
  show ?case
    unfolding compares_from_def
  proof (intro allI impI)
    fix S :: "u8 list"
    assume S: "0 \<in> set S"
    from less.prems(1) show "\<exists>r. pattern_loop pInfo esc z P S = Some r \<and> compares (noCase pInfo) (items P) (utf8_chars S) r"
    proof (cases rule: char_cases)
      case end_of_text
      from S have "\<exists>b. rd8 S 0 = Some b \<and> (b = 0 \<longleftrightarrow> utf8_chars S = [])" by (cases rule: char_cases) auto
      then show ?thesis using end_of_text by (subst pattern_loop.simps) (auto simp: items_Nil compares_def)
    next
      case (char b r c P1)
      have clean: "0x80 \<notin> set (utf8_chars P1)" using less.prems(2) char(7) by simp
      note P1 = IH [OF char(10,6) clean]
      consider (wild) "c = ucast (matchAll pInfo)" | (set) "c \<noteq> ucast (matchAll pInfo)" "c = esc" "matchSet pInfo \<noteq> 0"
        | (escaped) "c \<noteq> ucast (matchAll pInfo)" "c = esc" "matchSet pInfo = 0" | (plain) "c \<noteq> ucast (matchAll pInfo)" "c \<noteq> esc" by blast
      then show ?thesis
      proof cases
        case wild
        obtain w where w: "skip_wild pInfo P1 S = Some w" "skipped (noCase pInfo) P1 S w" using skip_wild_ok [OF char(6) S] by blast
        note all = items_AnyText [OF char(7) wild]
        show ?thesis
        proof (cases w)
          case None
          then show ?thesis using w all char(4,5) wild by (subst pattern_loop.simps) (auto simp: compares_def skipped_def)
        next
          case (Some x)
          obtain c' Q P' S' where x: "x = (c', Q, P', S')" by (cases x)
          note sk = w(2) [unfolded Some x]
          have Q: "length Q \<le> length P1" "0x80 \<notin> set (utf8_chars Q)"
            using skip_wild_length [OF w(1) [unfolded Some x]] sk clean by (auto simp: skipped_def)
          have "compares_from Z None" if "length Z \<le> length Q" "0 \<in> set Z" "0x80 \<notin> set (utf8_chars Z)" for Z
            using IH [of Z None] that Q(1) char(10) by simp
          from wildcard_ok [OF sk Q(2) this] obtain q where q: "(if c' = 0 then Some SQLITE_MATCH
              else if c' = esc \<and> matchSet pInfo \<noteq> 0 then
                if esc < 0x80 then set_search pInfo esc Q S' else None
              else do {
                (c, P) \<leftarrow> (if c' = esc then sqlite3Utf8Read P' else Some (c', P'));
                if c = 0 then Some SQLITE_NOWILDCARDMATCH
                else if c \<le> 0x80 then stop_search pInfo esc (stop_bytes pInfo c) P S'
                else char_search pInfo esc c P S'
              }) = Some q" "finds (noCase pInfo) (items Q) (utf8_chars S') q" by blast
          have "pattern_loop pInfo esc z P S = Some q"
            using char(4,5) wild w(1) unfolding Some x by (subst pattern_loop.simps) (simp del: if_split add: q(1))
          moreover have "compares (noCase pInfo) (items P) (utf8_chars S) q" unfolding all by (rule finds_skipped [OF q(2) sk])
          ultimately show ?thesis by blast
        qed
      next
        case set
        from S show ?thesis
        proof (cases rule: char_cases)
          case end_of_text
          have "\<exists>it its. items P = it # its \<and> it \<noteq> AnyText"
            using items_other(4) [OF char(7) set(1)] set char(7) esc by (cases "set_parse (utf8_chars P1)") (auto simp: items_def)
          then obtain it its where "items P = it # its" "it \<noteq> AnyText" by blast
          then show ?thesis using end_of_text char(4,5) set compares_miss [of it "[]" "noCase pInfo" its]
            by (subst pattern_loop.simps) simp
        next
          case S: (char _ _ x S')
          obtain ok P2 where m: "set_match x P1 = Some (ok, P2)" "case set_parse (utf8_chars P1) of None \<Rightarrow> \<not> ok
              | Some (ng, rs, p) \<Rightarrow> ok = (in_ranges rs x \<noteq> ng) \<and> 0 \<in> set P2 \<and> utf8_chars P2 = p"
            using set_match_ok [OF char(6), of x] by blast
          have run: "pattern_loop pInfo esc z P S = (if ok then pattern_loop pInfo esc z P2 S' else Some SQLITE_NOMATCH)"
            using char(4,5) set S(3,5) m(1) by (subst pattern_loop.simps) simp
          show ?thesis
          proof (cases "set_parse (utf8_chars P1)")
            case None
            then show ?thesis using run m(2) items_other(4) [OF char(7) set(1)] set by (simp add: compares_def)
          next
            case (Some t)
            obtain ng rs p where t: "t = (ng, rs, p)" by (cases t)
            have P2: "0 \<in> set P2" "utf8_chars P2 = p" "ok = (in_ranges rs x \<noteq> ng)" using m(2) Some t by auto
            have its: "items P = OneOf ng rs # items P2" using items_other(5) [OF char(7) set(1)] set Some t P2(2) by simp
            have hit: "item_matches (noCase pInfo) (OneOf ng rs) x = ok" using P2(3) by (simp add: in_ranges_def)
            show ?thesis
            proof (cases ok)
              case False
              then show ?thesis using run its hit S(7) compares_miss [of "OneOf ng rs" "utf8_chars S" "noCase pInfo" "items P2"] by simp
            next
              case True
              have "length P2 < length P" using set_match_length [OF m(1)] char(10) by simp
              moreover have "0x80 \<notin> set (utf8_chars P2)" using set_parse_subset Some t P2(2) clean by blast
              ultimately obtain q where "pattern_loop pInfo esc z P2 S' = Some q" "compares (noCase pInfo) (items P2) (utf8_chars S') q"
                using IH [of P2 z] P2(1) S(6) by (auto simp: compares_from_def)
              then show ?thesis using run True its hit S(7) compares_Cons [of "OneOf ng rs" "noCase pInfo" x "items P2"] by simp
            qed
          qed
        qed
      next
        case escaped
        obtain d P2 where d: "sqlite3Utf8Read P1 = Some (d, P2)" "read_at d P2 (utf8_chars P1)" "length P2 < length P1"
          using read_at [OF char(6)] by blast
        from d(2) show ?thesis
        proof (cases rule: read_at_cases)
          case at_end
          then show ?thesis using items_other(2) [OF char(7) escaped(1)] escaped char(4,5) d(1)
            by (subst pattern_loop.simps) (simp add: compares_def)
        next
          case e: at_char
          have P2: "compares_from P2 (Some (length P2))" using IH [of P2 "Some (length P2)"] d(3) char(10) e clean by simp
          note cond = literal_cond [OF e(1), of "Literal d" "Some (length P2)" P2]
          have "items P = Literal d # items P2" using items_other(3) [OF char(7) escaped(1)] escaped e(2) by simp
          then show ?thesis using one_char [OF P2 _ S cond] escaped char(4,5) d(1) e(1)
            by (subst pattern_loop.simps) simp
        qed
      next
        case plain
        define it where "it = (if c = ucast (matchOne pInfo) \<and> z \<noteq> Some (length P1) then AnyChar else Literal c)"
        have "z \<noteq> Some (length P1)" using less.prems(3) char(10) by auto
        then have its: "items P = it # items P1" "it \<noteq> AnyText"
          using items_AnyChar [OF char(7)] items_other(1) [OF char(7) plain] by (auto simp: it_def)
        have P1z: "compares_from P1 z" by (rule P1) simp
        show ?thesis using one_char [OF P1z its(2) S literal_cond [OF char(5) it_def]] plain char(4,5) its(1)
          by (subst pattern_loop.simps) simp
      qed
    qed
  qed
qed

end

section \<open>LIKE and GLOB\<close>

definition like_info :: "compareInfo \<Rightarrow> u32 \<Rightarrow> bool" where
  "like_info i esc \<longleftrightarrow> i = globInfo \<and> esc = 91 \<or> (i = likeInfoNorm \<or> i = likeInfoAlt) \<and> esc \<noteq> 37 \<and> esc \<noteq> 95"

lemma matcher_info: "like_info i esc \<Longrightarrow> matcher i esc"
  by unfold_locales (auto simp: like_info_def globInfo_def likeInfoNorm_def likeInfoAlt_def)

interpretation glob: matcher globInfo 91
  by (rule matcher_info) (simp add: like_info_def)

interpretation like: matcher likeInfoNorm 0
  by (rule matcher_info) (simp add: like_info_def)

lemma patternCompare_ok:
  assumes "like_info i esc" "0 \<in> set zPattern" "0 \<in> set zString" "0x80 \<notin> set (utf8_chars zPattern)"
  shows "\<exists>r. patternCompare zPattern zString i esc = Some r \<and>
    compares (noCase i) (pattern_items i esc (utf8_chars zPattern)) (utf8_chars zString) r"
proof -
  note m = matcher_info [OF assms(1)]
  have "matcher.compares_from i esc zPattern None" by (rule matcher.pattern_loop_ok [OF m assms(2,4)]) simp
  then show ?thesis
    unfolding matcher.compares_from_def [OF m] matcher.items_def [OF m] patternCompare_def using assms(3) by blast
qed

lemma char_count_length: "0 \<in> set z \<Longrightarrow> char_count z pos (- 1) = Some (length (utf8_chars z))"
proof (induction "length z" arbitrary: z pos rule: less_induct)
  case less
  from less.prems show ?case
  proof (cases rule: char_cases)
    case end_of_text
    then show ?thesis by (subst char_count.simps) simp
  next
    case (char b r c z')
    then show ?thesis using less.hyps [OF char(10,6)] by (subst char_count.simps) simp
  qed
qed

lemma read_first: "0 \<in> set z \<Longrightarrow> utf8_chars z = [c] \<Longrightarrow> \<exists>z'. sqlite3Utf8Read z = Some (c, z')"
  using read_at [of z] by (auto simp: read_at_def split: if_splits)

text \<open>A character of an ASCII text is its byte.\<close>

lemma utf8_chars_ascii: "\<forall>b\<in>set s. b \<noteq> 0 \<and> b < 0x80 \<Longrightarrow> utf8_chars (s @ [0]) = map ucast s"
proof (induction s)
  case Nil
  show ?case by (subst utf8_chars.simps) (simp add: sqlite3Utf8Read_def utf8_read_def)
next
  case (Cons b s)
  then have b: "b \<noteq> 0" "b < 0x80" by auto
  have "0 \<in> set ((b # s) @ [0])" by simp
  then show ?case
  proof (cases rule: char_cases)
    case end_of_text then show ?thesis using b by simp
  next
    case (char b' r c z')
    then show ?thesis using b Cons by auto
  qed
qed

section \<open>Properties\<close>

text \<open>
  Property C4. \<open>patternCompare\<close> matches exactly the strings of characters that the items of the
  pattern describe, for GLOB and both kinds of LIKE, and ends on all zero-terminated strings. Its
  third result, which cuts the search of the callers short, is given only if no end of
  the string matches. Left out are patterns with the character U+0080, and an escape that is a wildcard.
\<close>

theorem PatternCompare_correct:
  assumes "like_info pInfo esc" and "0 \<in> set zPattern" and "0 \<in> set zString" and "0x80 \<notin> set (utf8_chars zPattern)"
  shows "\<exists>r. patternCompare zPattern zString pInfo esc = Some r \<and> r \<le> SQLITE_NOWILDCARDMATCH \<and>
    (r = SQLITE_MATCH \<longleftrightarrow> text_matches (noCase pInfo) (pattern_items pInfo esc (utf8_chars zPattern)) (utf8_chars zString)) \<and>
    (r = SQLITE_NOWILDCARDMATCH \<longrightarrow> (\<forall>k. \<not> text_matches (noCase pInfo) (pattern_items pInfo esc (utf8_chars zPattern)) (drop k (utf8_chars zString))))"
  using patternCompare_ok [OF assms] by (auto simp: compares_def occurs_here dest: text_matches_occurs)

theorem PatternCompare_correct_witness:
  "\<exists>r. patternCompare [42, 91, 97, 45, 99, 93, 63, 0] [120, 98, 121, 0] globInfo 91 = Some r \<and>
    (r = SQLITE_MATCH \<longleftrightarrow> text_matches False [AnyText, OneOf False [(97, 97), (97, 99)], AnyChar] [120, 98, 121])"
proof -
  have p: "utf8_chars [42, 91, 97, 45, 99, 93, 63, 0] = [42, 91, 97, 45, 99, 93, 63]" "utf8_chars [120, 98, 121, 0] = [120, 98, 121]"
    using utf8_chars_ascii [of "[42, 91, 97, 45, 99, 93, 63]"] utf8_chars_ascii [of "[120, 98, 121]"] by simp_all
  have "pattern_items globInfo 91 [42, 91, 97, 45, 99, 93, 63] = [AnyText, OneOf False [(97, 97), (97, 99)], AnyChar]" by code_simp
  then show ?thesis
    using PatternCompare_correct [of globInfo 91 "[42, 91, 97, 45, 99, 93, 63, 0]" "[120, 98, 121, 0]"]
    by (auto simp: p like_info_def globInfo_def)
qed

text \<open>
  Property C21. The SQL operators LIKE and GLOB: a pattern above the limit is an error, and so is an escape that
  is not one character, also where an operand is NULL; then NULL is the result for a NULL operand or a NULL
  escape; otherwise the result is one if the string matches the pattern and zero if it does not.
  Left out are patterns with the character U+0080, and an escape that is a wildcard of the operator.
\<close>

theorem LikeFunc_correct:
  assumes "0 \<in> set zB" and "0 \<in> set zA" and "0x80 \<notin> set (utf8_chars zB)" and "0 \<in> set zEsc"
    and "\<forall>c. utf8_chars zEsc = [c] \<longrightarrow> like_info pInfo c" and "like_info pInfo (ucast (matchSet pInfo))"
  shows "(likeFunc pInfo limit (Some zB) nPat (Some zA) None =
      Some (if limit < nPat then ResultError ''LIKE or GLOB pattern too complex''
        else ResultInt (if text_matches (noCase pInfo) (pattern_items pInfo (ucast (matchSet pInfo)) (utf8_chars zB)) (utf8_chars zA) then 1 else 0))) \<and>
    (likeFunc pInfo limit (Some zB) nPat (Some zA) (Some (Some zEsc)) =
      Some (if limit < nPat then ResultError ''LIKE or GLOB pattern too complex''
        else case utf8_chars zEsc of
          [c] \<Rightarrow> ResultInt (if text_matches (noCase pInfo) (pattern_items pInfo c (utf8_chars zB)) (utf8_chars zA) then 1 else 0)
        | _ \<Rightarrow> ResultError ''ESCAPE expression must be a single character'')) \<and>
    (likeFunc pInfo limit zB' nPat None None =
      Some (if limit < nPat then ResultError ''LIKE or GLOB pattern too complex'' else ResultNull)) \<and>
    (likeFunc pInfo limit None nPat zA' None =
      Some (if limit < nPat then ResultError ''LIKE or GLOB pattern too complex'' else ResultNull)) \<and>
    (likeFunc pInfo limit zB' nPat zA' (Some None) =
      Some (if limit < nPat then ResultError ''LIKE or GLOB pattern too complex'' else ResultNull)) \<and>
    (zB' = None \<or> zA' = None \<longrightarrow> likeFunc pInfo limit zB' nPat zA' (Some (Some zEsc)) =
      Some (if limit < nPat then ResultError ''LIKE or GLOB pattern too complex''
        else if length (utf8_chars zEsc) = 1 then ResultNull
        else ResultError ''ESCAPE expression must be a single character''))"
proof (intro conjI)
  have match: "\<exists>r. patternCompare zB zA pInfo esc = Some r \<and> (r = 0 \<longleftrightarrow> text_matches (noCase pInfo) (pattern_items pInfo esc (utf8_chars zB)) (utf8_chars zA))"
    if "like_info pInfo esc" for esc
    using patternCompare_ok [OF that assms(1-3)] by (auto simp: compares_def occurs_here)
  show "likeFunc pInfo limit (Some zB) nPat (Some zA) None =
      Some (if limit < nPat then ResultError ''LIKE or GLOB pattern too complex''
        else ResultInt (if text_matches (noCase pInfo) (pattern_items pInfo (ucast (matchSet pInfo)) (utf8_chars zB)) (utf8_chars zA) then 1 else 0))"
    using match [OF assms(6)] by (auto simp: likeFunc_def)
  have len: "sqlite3Utf8CharLen zEsc (- 1) = Some (length (utf8_chars zEsc))"
    unfolding sqlite3Utf8CharLen_def by (rule char_count_length [OF assms(4)])
  show "likeFunc pInfo limit (Some zB) nPat (Some zA) (Some (Some zEsc)) =
      Some (if limit < nPat then ResultError ''LIKE or GLOB pattern too complex''
        else case utf8_chars zEsc of
          [c] \<Rightarrow> ResultInt (if text_matches (noCase pInfo) (pattern_items pInfo c (utf8_chars zB)) (utf8_chars zA) then 1 else 0)
        | _ \<Rightarrow> ResultError ''ESCAPE expression must be a single character'')"
  proof (cases "length (utf8_chars zEsc) = 1")
    case True
    then obtain c where c: "utf8_chars zEsc = [c]" by (auto simp: length_Suc_conv)
    then show ?thesis using match [of c] assms(5) read_first [OF assms(4) c] len by (auto simp: likeFunc_def)
  next
    case False
    then show ?thesis using len by (auto simp: likeFunc_def split: list.split)
  qed
  show "zB' = None \<or> zA' = None \<longrightarrow> likeFunc pInfo limit zB' nPat zA' (Some (Some zEsc)) =
      Some (if limit < nPat then ResultError ''LIKE or GLOB pattern too complex''
        else if length (utf8_chars zEsc) = 1 then ResultNull
        else ResultError ''ESCAPE expression must be a single character'')"
  proof (cases "length (utf8_chars zEsc) = 1")
    case True
    then obtain c where c: "utf8_chars zEsc = [c]" by (auto simp: length_Suc_conv)
    then show ?thesis using read_first [OF assms(4) c] len by (auto simp: likeFunc_def split: option.split)
  next
    case False
    then show ?thesis using len by (auto simp: likeFunc_def)
  qed
qed (auto simp: likeFunc_def split: option.split)

theorem LikeFunc_correct_witness:
  "likeFunc likeInfoNorm 50000 (Some [97, 92, 37, 0]) 3 (Some [65, 37, 0]) (Some (Some [92, 0])) =
    Some (ResultInt (if text_matches True [Literal 97, Literal 37] [65, 37] then 1 else 0)) \<and>
   likeFunc likeInfoNorm 50000 None 3 (Some [65, 37, 0]) (Some (Some [92, 0])) = Some ResultNull"
proof -
  have p: "utf8_chars [97, 92, 37, 0] = [97, 92, 37]" "utf8_chars [65, 37, 0] = [65, 37]" "utf8_chars [92, 0] = [92]"
    using utf8_chars_ascii [of "[97, 92, 37]"] utf8_chars_ascii [of "[65, 37]"] utf8_chars_ascii [of "[92]"] by simp_all
  have "pattern_items likeInfoNorm 92 [97, 92, 37] = [Literal 97, Literal 37]" by code_simp
  then show ?thesis
    using LikeFunc_correct [of "[97, 92, 37, 0]" "[65, 37, 0]" "[92, 0]" likeInfoNorm 50000 3]
    by (simp add: p like_info_def) (simp add: likeInfoNorm_def)
qed

section \<open>Two limits of the comparison\<close>

text \<open>
  After a wildcard, the character U+0080 of a pattern is searched as the byte 0x80, and found
  inside the two bytes of U+0100.
\<close>

lemma Like_U0080: "sqlite3_strlike [0x25, 0xC2, 0x80, 0] [0xC4, 0x80, 0] 0 = Some 0"
    "\<not> text_matches True (pattern_items likeInfoNorm 0 (utf8_chars [0x25, 0xC2, 0x80, 0])) (utf8_chars [0xC4, 0x80, 0])"
  by code_simp+

text \<open>An escape that is the wildcard itself is taken as the wildcard: \<open>a%%\<close> with the escape \<open>%\<close> matches \<open>ab\<close>.\<close>

lemma Like_escape_wildcard: "sqlite3_strlike [97, 37, 37, 0] [97, 98, 0] 37 = Some 0"
  by code_simp

end
