(* ===== verification/Locks.thy ===== *)
theory Locks
  imports Prelude "HOL-Library.Multiset"
begin

text \<open>
  File locks of os_unix.c: \<open>unixLock\<close>, \<open>posixUnlock\<close>, \<open>unixCheckReservedLock\<close> and the critical section of
  \<open>unixClose\<close>, on a handle (\<open>unixFile\<close>) and what the handles of a process on one file share
  (\<open>unixInodeInfo\<close>). Other processes run between any two system calls, so that a call is not a
  function from state to state but a value of \<open>sys\<close>: the next system call it makes and, for every
  answer of the operating system, how it goes on. A failed \<open>assert\<close> is \<open>Abort\<close>.

  \<open>ino_ok\<close> is the invariant of an inode: its counters, the levels of its handles and the POSIX
  locks its process has. \<open>call_ok\<close> says of a call that at each system call, whatever the answer, the
  levels its process relies on are backed by locks, and that it ends in the invariant. Not
  modelled: the mutex (a process makes one call at a time), the list of inodes (there is one file),
  the count of unused descriptors, and the branches for other systems than Linux.
\<close>

section \<open>Lock levels\<close>

datatype lock_level = NO_LOCK | SHARED_LOCK | RESERVED_LOCK | PENDING_LOCK | EXCLUSIVE_LOCK

fun level_number :: "lock_level \<Rightarrow> nat" where
  "level_number NO_LOCK = 0"
| "level_number SHARED_LOCK = 1"
| "level_number RESERVED_LOCK = 2"
| "level_number PENDING_LOCK = 3"
| "level_number EXCLUSIVE_LOCK = 4"

lemma level_number_inj: "level_number a = level_number b \<longleftrightarrow> a = b"
  by (cases a; cases b) simp_all

instantiation lock_level :: linorder
begin

definition less_eq_lock_level :: "lock_level \<Rightarrow> lock_level \<Rightarrow> bool" where
  "less_eq_lock_level a b \<longleftrightarrow> level_number a \<le> level_number b"

definition less_lock_level :: "lock_level \<Rightarrow> lock_level \<Rightarrow> bool" where
  "less_lock_level a b \<longleftrightarrow> level_number a < level_number b"

instance
  by standard (auto simp: less_eq_lock_level_def less_lock_level_def level_number_inj)

end

lemma level_simps [simp]:
  "NO_LOCK \<le> SHARED_LOCK" "NO_LOCK < SHARED_LOCK"
  "NO_LOCK \<le> RESERVED_LOCK" "NO_LOCK < RESERVED_LOCK"
  "NO_LOCK \<le> PENDING_LOCK" "NO_LOCK < PENDING_LOCK"
  "NO_LOCK \<le> EXCLUSIVE_LOCK" "NO_LOCK < EXCLUSIVE_LOCK"
  "\<not> SHARED_LOCK \<le> NO_LOCK" "\<not> SHARED_LOCK < NO_LOCK"
  "SHARED_LOCK \<le> RESERVED_LOCK" "SHARED_LOCK < RESERVED_LOCK"
  "SHARED_LOCK \<le> PENDING_LOCK" "SHARED_LOCK < PENDING_LOCK"
  "SHARED_LOCK \<le> EXCLUSIVE_LOCK" "SHARED_LOCK < EXCLUSIVE_LOCK"
  "\<not> RESERVED_LOCK \<le> NO_LOCK" "\<not> RESERVED_LOCK < NO_LOCK"
  "\<not> RESERVED_LOCK \<le> SHARED_LOCK" "\<not> RESERVED_LOCK < SHARED_LOCK"
  "RESERVED_LOCK \<le> PENDING_LOCK" "RESERVED_LOCK < PENDING_LOCK"
  "RESERVED_LOCK \<le> EXCLUSIVE_LOCK" "RESERVED_LOCK < EXCLUSIVE_LOCK"
  "\<not> PENDING_LOCK \<le> NO_LOCK" "\<not> PENDING_LOCK < NO_LOCK"
  "\<not> PENDING_LOCK \<le> SHARED_LOCK" "\<not> PENDING_LOCK < SHARED_LOCK"
  "\<not> PENDING_LOCK \<le> RESERVED_LOCK" "\<not> PENDING_LOCK < RESERVED_LOCK"
  "PENDING_LOCK \<le> EXCLUSIVE_LOCK" "PENDING_LOCK < EXCLUSIVE_LOCK"
  "\<not> EXCLUSIVE_LOCK \<le> NO_LOCK" "\<not> EXCLUSIVE_LOCK < NO_LOCK"
  "\<not> EXCLUSIVE_LOCK \<le> SHARED_LOCK" "\<not> EXCLUSIVE_LOCK < SHARED_LOCK"
  "\<not> EXCLUSIVE_LOCK \<le> RESERVED_LOCK" "\<not> EXCLUSIVE_LOCK < RESERVED_LOCK"
  "\<not> EXCLUSIVE_LOCK \<le> PENDING_LOCK" "\<not> EXCLUSIVE_LOCK < PENDING_LOCK"
  by (simp_all add: less_eq_lock_level_def less_lock_level_def)

section \<open>What the code asks of the operating system\<close>

datatype lock_type = F_UNLCK | F_RDLCK | F_WRLCK

record flock =
  l_type :: lock_type
  l_start :: nat
  l_len :: nat

abbreviation PENDING_BYTE :: nat where "PENDING_BYTE \<equiv> 0x40000000"
abbreviation RESERVED_BYTE :: nat where "RESERVED_BYTE \<equiv> 0x40000001"
abbreviation SHARED_FIRST :: nat where "SHARED_FIRST \<equiv> 0x40000002"
abbreviation SHARED_SIZE :: nat where "SHARED_SIZE \<equiv> 510"

text \<open>
  A call of the locking code, as the system calls it makes: it ends with a result, or sets a lock
  (and goes on with \<open>None\<close> or the error number), or asks who would block a write lock on a byte,
  or closes a descriptor. \<open>Abort\<close> is a failed \<open>assert\<close>.
\<close>

datatype 'a sys =
    Ret 'a
  | SetLk flock "nat option \<Rightarrow> 'a sys"
  | GetLk nat "nat + bool \<Rightarrow> 'a sys"
  | CloseFd int "'a sys"
  | Abort

record unixFile =
  eFileLock :: lock_level
  fd :: int
  excl :: bool
  rdonly :: bool
  lastErrno :: nat

record unixInodeInfo =
  nShared :: nat
  iFileLock :: lock_level
  bProcessLock :: bool
  nRef :: nat
  nLock :: nat
  pUnused :: "int list"

abbreviation (input) SQLITE_BUSY :: nat where "SQLITE_BUSY \<equiv> 5"
abbreviation (input) SQLITE_PERM :: nat where "SQLITE_PERM \<equiv> 3"
abbreviation (input) SQLITE_IOERR_LOCK :: nat where "SQLITE_IOERR_LOCK \<equiv> 3850"
abbreviation (input) SQLITE_IOERR_UNLOCK :: nat where "SQLITE_IOERR_UNLOCK \<equiv> 2058"
abbreviation (input) SQLITE_IOERR_RDLOCK :: nat where "SQLITE_IOERR_RDLOCK \<equiv> 2314"
abbreviation (input) SQLITE_IOERR_CHECKRESERVEDLOCK :: nat where "SQLITE_IOERR_CHECKRESERVEDLOCK \<equiv> 3594"

text \<open>The error numbers are those of Linux.\<close>

definition sqliteErrorFromPosixError :: "nat \<Rightarrow> nat \<Rightarrow> nat" where
  "sqliteErrorFromPosixError posixError sqliteIOErr =
     (if posixError \<in> {13, 11, 110, 16, 4, 37} then SQLITE_BUSY
      else if posixError = 1 then SQLITE_PERM
      else sqliteIOErr)"

type_synonym lock_result = "nat \<times> unixFile \<times> unixInodeInfo"

definition unixFileLock ::
  "unixFile \<Rightarrow> unixInodeInfo \<Rightarrow> flock \<Rightarrow> (nat option \<Rightarrow> unixInodeInfo \<Rightarrow> 'a sys) \<Rightarrow> 'a sys" where
  "unixFileLock pFile pInode pLock cont =
     (if excl pFile \<and> \<not> rdonly pFile then
        if \<not> bProcessLock pInode then
          if nLock pInode \<noteq> 0 then Abort
          else SetLk \<lparr>l_type = F_WRLCK, l_start = SHARED_FIRST, l_len = SHARED_SIZE\<rparr>
            (\<lambda>e. case e of
                Some n \<Rightarrow> cont (Some n) pInode
              | None \<Rightarrow> cont None (pInode\<lparr>bProcessLock := True, nLock := nLock pInode + 1\<rparr>))
        else cont None pInode
      else SetLk pLock (\<lambda>e. cont e pInode))"

section \<open>Locking\<close>

definition storeLastErrno :: "unixFile \<Rightarrow> nat \<Rightarrow> unixFile" where
  "storeLastErrno pFile n = pFile\<lparr>lastErrno := n\<rparr>"

text \<open>The error \<open>n\<close> of a lock that was refused, noted unless somebody else holds the lock.\<close>

definition lock_error :: "unixFile \<Rightarrow> nat \<Rightarrow> nat \<times> unixFile" where
  "lock_error pFile n =
     (let rc = sqliteErrorFromPosixError n SQLITE_IOERR_LOCK
      in (rc, if rc \<noteq> SQLITE_BUSY then storeLastErrno pFile n else pFile))"

definition lock_finish :: "lock_level \<Rightarrow> nat \<Rightarrow> unixFile \<Rightarrow> unixInodeInfo \<Rightarrow> lock_result" where
  "lock_finish level rc pFile pInode =
     (if rc = SQLITE_OK then (rc, pFile\<lparr>eFileLock := level\<rparr>, pInode\<lparr>iFileLock := level\<rparr>)
      else if level = EXCLUSIVE_LOCK then (rc, pFile\<lparr>eFileLock := PENDING_LOCK\<rparr>, pInode\<lparr>iFileLock := PENDING_LOCK\<rparr>)
      else (rc, pFile, pInode))"

definition lock_shared :: "unixFile \<Rightarrow> unixInodeInfo \<Rightarrow> lock_result sys" where
  "lock_shared pFile pInode =
     (if nShared pInode \<noteq> 0 \<or> iFileLock pInode \<noteq> NO_LOCK then Abort
      else unixFileLock pFile pInode \<lparr>l_type = F_RDLCK, l_start = SHARED_FIRST, l_len = SHARED_SIZE\<rparr> (\<lambda>e1 pInode.
        unixFileLock pFile pInode \<lparr>l_type = F_UNLCK, l_start = PENDING_BYTE, l_len = 1\<rparr> (\<lambda>e2 pInode.
          let (rc, tErrno) =
            (case e1 of
               Some n \<Rightarrow> (sqliteErrorFromPosixError n SQLITE_IOERR_LOCK, n)
             | None \<Rightarrow> (case e2 of Some n \<Rightarrow> (SQLITE_IOERR_UNLOCK, n) | None \<Rightarrow> (SQLITE_OK, 0)))
          in if rc \<noteq> SQLITE_OK then
               Ret (rc, if rc \<noteq> SQLITE_BUSY then storeLastErrno pFile tErrno else pFile, pInode)
             else
               Ret (lock_finish SHARED_LOCK SQLITE_OK (pFile\<lparr>eFileLock := SHARED_LOCK\<rparr>)
                 (pInode\<lparr>nLock := nLock pInode + 1, nShared := 1\<rparr>)))))"

definition lock_raise :: "unixFile \<Rightarrow> unixInodeInfo \<Rightarrow> lock_level \<Rightarrow> lock_result sys" where
  "lock_raise pFile pInode level =
     (if level = EXCLUSIVE_LOCK \<and> nShared pInode > 1 then Ret (lock_finish level SQLITE_BUSY pFile pInode)
      else if eFileLock pFile = NO_LOCK \<or> level \<notin> {RESERVED_LOCK, EXCLUSIVE_LOCK} then Abort
      else unixFileLock pFile pInode
        (if level = RESERVED_LOCK then \<lparr>l_type = F_WRLCK, l_start = RESERVED_BYTE, l_len = 1\<rparr>
         else \<lparr>l_type = F_WRLCK, l_start = SHARED_FIRST, l_len = SHARED_SIZE\<rparr>)
        (\<lambda>e pInode. case e of
            None \<Rightarrow> Ret (lock_finish level SQLITE_OK pFile pInode)
          | Some n \<Rightarrow> (let (rc, pFile) = lock_error pFile n in Ret (lock_finish level rc pFile pInode))))"

definition lock_go :: "unixFile \<Rightarrow> unixInodeInfo \<Rightarrow> lock_level \<Rightarrow> lock_result sys" where
  "lock_go pFile pInode level =
     (if level = SHARED_LOCK then lock_shared pFile pInode else lock_raise pFile pInode level)"

definition unixLock :: "unixFile \<Rightarrow> unixInodeInfo \<Rightarrow> lock_level \<Rightarrow> lock_result sys" where
  "unixLock pFile pInode level =
     (if eFileLock pFile \<ge> level then Ret (SQLITE_OK, pFile, pInode)
      else if eFileLock pFile = NO_LOCK \<and> level \<noteq> SHARED_LOCK \<or> level = PENDING_LOCK \<or>
        level = RESERVED_LOCK \<and> eFileLock pFile \<noteq> SHARED_LOCK then Abort
      else if eFileLock pFile \<noteq> iFileLock pInode \<and> (iFileLock pInode \<ge> PENDING_LOCK \<or> level > SHARED_LOCK) then
        Ret (SQLITE_BUSY, pFile, pInode)
      else if level = SHARED_LOCK \<and> (iFileLock pInode = SHARED_LOCK \<or> iFileLock pInode = RESERVED_LOCK) then
        if eFileLock pFile \<noteq> NO_LOCK \<or> nShared pInode = 0 then Abort
        else Ret (SQLITE_OK, pFile\<lparr>eFileLock := SHARED_LOCK\<rparr>,
          pInode\<lparr>nShared := nShared pInode + 1, nLock := nLock pInode + 1\<rparr>)
      else if level = SHARED_LOCK \<or> level = EXCLUSIVE_LOCK \<and> eFileLock pFile < PENDING_LOCK then
        unixFileLock pFile pInode
          \<lparr>l_type = (if level = SHARED_LOCK then F_RDLCK else F_WRLCK), l_start = PENDING_BYTE, l_len = 1\<rparr>
          (\<lambda>e pInode. case e of
              None \<Rightarrow> lock_go pFile pInode level
            | Some n \<Rightarrow> (let (rc, pFile) = lock_error pFile n in Ret (rc, pFile, pInode)))
      else lock_go pFile pInode level)"

section \<open>Unlocking and closing\<close>

fun close_fds :: "int list \<Rightarrow> 'a sys \<Rightarrow> 'a sys" where
  "close_fds [] c = c"
| "close_fds (h # hs) c = CloseFd h (close_fds hs c)"

definition closePendingFds :: "unixInodeInfo \<Rightarrow> (unixInodeInfo \<Rightarrow> 'a sys) \<Rightarrow> 'a sys" where
  "closePendingFds pInode cont = close_fds (pUnused pInode) (cont (pInode\<lparr>pUnused := []\<rparr>))"

definition unlock_end :: "lock_level \<Rightarrow> nat \<Rightarrow> unixFile \<Rightarrow> unixInodeInfo \<Rightarrow> lock_result sys" where
  "unlock_end level rc pFile pInode =
     Ret (rc, if rc = SQLITE_OK then pFile\<lparr>eFileLock := level\<rparr> else pFile, pInode)"

definition unlock_count :: "lock_level \<Rightarrow> nat \<Rightarrow> unixFile \<Rightarrow> unixInodeInfo \<Rightarrow> lock_result sys" where
  "unlock_count level rc pFile pInode =
     (if nLock pInode = 0 then Abort
      else
        let pInode = pInode\<lparr>nLock := nLock pInode - 1\<rparr>
        in if nLock pInode = 0 then closePendingFds pInode (unlock_end level rc pFile)
           else unlock_end level rc pFile pInode)"

definition unlock_shared :: "lock_level \<Rightarrow> unixFile \<Rightarrow> unixInodeInfo \<Rightarrow> lock_result sys" where
  "unlock_shared level pFile pInode =
     (if level = NO_LOCK then
        let pInode = pInode\<lparr>nShared := nShared pInode - 1\<rparr>
        in if nShared pInode = 0 then
             unixFileLock pFile pInode \<lparr>l_type = F_UNLCK, l_start = 0, l_len = 0\<rparr> (\<lambda>e pInode. case e of
                 None \<Rightarrow> unlock_count level SQLITE_OK pFile (pInode\<lparr>iFileLock := NO_LOCK\<rparr>)
               | Some n \<Rightarrow> unlock_count level SQLITE_IOERR_UNLOCK ((storeLastErrno pFile n)\<lparr>eFileLock := NO_LOCK\<rparr>)
                   (pInode\<lparr>iFileLock := NO_LOCK\<rparr>))
           else unlock_count level SQLITE_OK pFile pInode
      else unlock_end level SQLITE_OK pFile pInode)"

definition unlock_pending :: "lock_level \<Rightarrow> unixFile \<Rightarrow> unixInodeInfo \<Rightarrow> lock_result sys" where
  "unlock_pending level pFile pInode =
     unixFileLock pFile pInode \<lparr>l_type = F_UNLCK, l_start = PENDING_BYTE, l_len = 2\<rparr> (\<lambda>e pInode. case e of
         None \<Rightarrow> unlock_shared level pFile (pInode\<lparr>iFileLock := SHARED_LOCK\<rparr>)
       | Some n \<Rightarrow> unlock_end level SQLITE_IOERR_UNLOCK (storeLastErrno pFile n) pInode)"

definition posixUnlock :: "unixFile \<Rightarrow> unixInodeInfo \<Rightarrow> lock_level \<Rightarrow> lock_result sys" where
  "posixUnlock pFile pInode level =
     (if level > SHARED_LOCK then Abort
      else if eFileLock pFile \<le> level then Ret (SQLITE_OK, pFile, pInode)
      else if nShared pInode = 0 then Abort
      else if eFileLock pFile > SHARED_LOCK then
        if iFileLock pInode \<noteq> eFileLock pFile then Abort
        else if level = SHARED_LOCK then
          unixFileLock pFile pInode \<lparr>l_type = F_RDLCK, l_start = SHARED_FIRST, l_len = SHARED_SIZE\<rparr>
            (\<lambda>e pInode. case e of
                None \<Rightarrow> unlock_pending level pFile pInode
              | Some n \<Rightarrow> unlock_end level SQLITE_IOERR_RDLOCK (storeLastErrno pFile n) pInode)
        else unlock_pending level pFile pInode
      else unlock_shared level pFile pInode)"

definition unixUnlock :: "unixFile \<Rightarrow> unixInodeInfo \<Rightarrow> lock_level \<Rightarrow> lock_result sys" where
  "unixUnlock pFile pInode level = posixUnlock pFile pInode level"

definition unixCheckReservedLock :: "unixFile \<Rightarrow> unixInodeInfo \<Rightarrow> (nat \<times> bool \<times> unixFile) sys" where
  "unixCheckReservedLock pFile pInode =
     (if eFileLock pFile > SHARED_LOCK then Abort
      else if iFileLock pInode > SHARED_LOCK then Ret (SQLITE_OK, True, pFile)
      else if \<not> bProcessLock pInode then
        GetLk RESERVED_BYTE (\<lambda>e. case e of
            Inl n \<Rightarrow> Ret (SQLITE_IOERR_CHECKRESERVEDLOCK, False, storeLastErrno pFile n)
          | Inr blocked \<Rightarrow> Ret (SQLITE_OK, blocked, pFile))
      else Ret (SQLITE_OK, False, pFile))"

definition setPendingFd :: "unixFile \<Rightarrow> unixInodeInfo \<Rightarrow> unixFile \<times> unixInodeInfo" where
  "setPendingFd pFile pInode = (pFile\<lparr>fd := -1\<rparr>, pInode\<lparr>pUnused := fd pFile # pUnused pInode\<rparr>)"

definition releaseInodeInfo :: "unixInodeInfo \<Rightarrow> (unixInodeInfo option \<Rightarrow> 'a sys) \<Rightarrow> 'a sys" where
  "releaseInodeInfo pInode cont =
     (let pInode = pInode\<lparr>nRef := nRef pInode - 1\<rparr>
      in if nRef pInode = 0 then closePendingFds pInode (\<lambda>_. cont None) else cont (Some pInode))"

text \<open>The second critical section of \<open>unixClose\<close>, after it has called \<open>unixUnlock\<close>.\<close>

definition unixClose :: "unixFile \<Rightarrow> unixInodeInfo \<Rightarrow> (nat \<times> unixInodeInfo option) sys" where
  "unixClose pFile pInode =
     (if nLock pInode = 0 \<and> bProcessLock pInode then Abort
      else
        let (pFile, pInode) = (if nLock pInode \<noteq> 0 then setPendingFd pFile pInode else (pFile, pInode))
        in releaseInodeInfo pInode (\<lambda>pInode.
             if fd pFile \<ge> 0 then CloseFd (fd pFile) (Ret (SQLITE_OK, pInode)) else Ret (SQLITE_OK, pInode)))"

section \<open>The locks of one process\<close>

type_synonym view = "nat \<Rightarrow> lock_type"

definition in_range :: "flock \<Rightarrow> nat \<Rightarrow> bool" where
  "in_range l b \<longleftrightarrow> l_start l \<le> b \<and> (l_len l = 0 \<or> b < l_start l + l_len l)"

definition set_range :: "view \<Rightarrow> flock \<Rightarrow> view" where
  "set_range v l = (\<lambda>b. if in_range l b then l_type l else v b)"

abbreviation range_bytes :: "nat set" where
  "range_bytes \<equiv> {SHARED_FIRST..<SHARED_FIRST + SHARED_SIZE}"

definition has_range :: "view \<Rightarrow> bool" where
  "has_range v \<longleftrightarrow> (\<forall>b\<in>range_bytes. v b \<noteq> F_UNLCK)"

definition wr_range :: "view \<Rightarrow> bool" where
  "wr_range v \<longleftrightarrow> (\<forall>b\<in>range_bytes. v b = F_WRLCK)"

definition no_range :: "view \<Rightarrow> bool" where
  "no_range v \<longleftrightarrow> (\<forall>b\<in>range_bytes. v b = F_UNLCK)"

text \<open>The locks of a process that keep every other process out of the range.\<close>

definition excl_view :: "view \<Rightarrow> bool" where
  "excl_view v \<longleftrightarrow> has_range v \<and> (v PENDING_BYTE = F_WRLCK \<or> wr_range v)"

definition covers :: "flock \<Rightarrow> bool" where
  "covers l \<longleftrightarrow> (\<forall>b\<in>range_bytes. in_range l b)"

abbreviation "rng t \<equiv> \<lparr>l_type = t, l_start = SHARED_FIRST, l_len = SHARED_SIZE\<rparr>"
abbreviation "pend t \<equiv> \<lparr>l_type = t, l_start = PENDING_BYTE, l_len = Suc 0\<rparr>"
abbreviation "resv t \<equiv> \<lparr>l_type = t, l_start = RESERVED_BYTE, l_len = Suc 0\<rparr>"
abbreviation "pend2 t \<equiv> \<lparr>l_type = t, l_start = PENDING_BYTE, l_len = 2\<rparr>"
abbreviation "whole t \<equiv> \<lparr>l_type = t, l_start = 0, l_len = 0\<rparr>"

lemma rng_view [simp]:
  "has_range (set_range v (rng t)) \<longleftrightarrow> t \<noteq> F_UNLCK"
  "wr_range (set_range v (rng t)) \<longleftrightarrow> t = F_WRLCK"
  "set_range v (rng t) PENDING_BYTE = v PENDING_BYTE"
  "set_range v (rng t) RESERVED_BYTE = v RESERVED_BYTE"
  by (auto simp: has_range_def wr_range_def set_range_def in_range_def)

lemma pend_view [simp]:
  "has_range (set_range v (pend t)) \<longleftrightarrow> has_range v"
  "wr_range (set_range v (pend t)) \<longleftrightarrow> wr_range v"
  "set_range v (pend t) PENDING_BYTE = t"
  "set_range v (pend t) RESERVED_BYTE = v RESERVED_BYTE"
  by (auto simp: has_range_def wr_range_def set_range_def in_range_def)

lemma resv_view [simp]:
  "has_range (set_range v (resv t)) \<longleftrightarrow> has_range v"
  "wr_range (set_range v (resv t)) \<longleftrightarrow> wr_range v"
  "set_range v (resv t) PENDING_BYTE = v PENDING_BYTE"
  "set_range v (resv t) RESERVED_BYTE = t"
  by (auto simp: has_range_def wr_range_def set_range_def in_range_def)

lemma pend2_view [simp]:
  "has_range (set_range v (pend2 t)) \<longleftrightarrow> has_range v"
  "wr_range (set_range v (pend2 t)) \<longleftrightarrow> wr_range v"
  "set_range v (pend2 t) PENDING_BYTE = t"
  "set_range v (pend2 t) RESERVED_BYTE = t"
  by (auto simp: has_range_def wr_range_def set_range_def in_range_def)

lemma covers_simps [simp]:
  "covers (rng t)" "\<not> covers (pend t)" "\<not> covers (resv t)" "\<not> covers (pend2 t)" "covers (whole t)"
  by (auto simp: covers_def in_range_def)

definition touches :: "flock \<Rightarrow> bool" where
  "touches l \<longleftrightarrow> (\<exists>b\<in>range_bytes. in_range l b)"

lemma touches_simps [simp]:
  "touches (rng t)" "\<not> touches (pend t)" "\<not> touches (resv t)" "\<not> touches (pend2 t)"
  by (auto simp: touches_def in_range_def)

section \<open>What every point of a call must keep\<close>

text \<open>
  The level \<open>L\<close> of a handle and the locks of its process; \<open>m\<close> is the process being in the
  exclusive mode of unix-excl, \<open>x\<close> that no other process has a lock in the range.
\<close>

definition backed :: "bool \<Rightarrow> view \<Rightarrow> bool \<Rightarrow> lock_level \<Rightarrow> bool" where
  "backed m v x L \<longleftrightarrow>
     (L \<ge> SHARED_LOCK \<longrightarrow> has_range v \<and> (m \<longrightarrow> wr_range v)) \<and>
     (L = RESERVED_LOCK \<and> \<not> m \<longrightarrow> v RESERVED_BYTE = F_WRLCK) \<and>
     (L \<ge> PENDING_LOCK \<and> \<not> m \<longrightarrow> v PENDING_BYTE = F_WRLCK) \<and>
     (L = EXCLUSIVE_LOCK \<longrightarrow> x \<and> excl_view v)"

definition mid :: "bool \<Rightarrow> lock_level multiset \<Rightarrow> view \<Rightarrow> bool \<Rightarrow> bool" where
  "mid m H v x \<longleftrightarrow> (\<forall>L\<in>#H. backed m v x L)"

text \<open>A read lock in the range is taken only under the protection of the pending byte, or to lower one.\<close>

definition guarded :: "flock \<Rightarrow> view \<Rightarrow> bool" where
  "guarded l v \<longleftrightarrow>
     touches l \<and> l_type l = F_RDLCK \<longrightarrow> v PENDING_BYTE \<noteq> F_UNLCK \<or> has_range v"

primrec call_ok ::
  "bool \<Rightarrow> lock_level multiset \<Rightarrow> ('a \<Rightarrow> view \<Rightarrow> bool \<Rightarrow> bool) \<Rightarrow> 'a sys \<Rightarrow> view \<Rightarrow> bool \<Rightarrow> bool" where
  "call_ok m H Q (Ret a) v x = (mid m H v x \<and> Q a v x)"
| "call_ok m H Q (SetLk l k) v x =
     (mid m H v x \<and> guarded l v \<and> (\<forall>n. call_ok m H Q (k (Some n)) v x) \<and>
      call_ok m H Q (k None) (set_range v l) (excl_view (set_range v l) \<and> (x \<or> l_type l = F_WRLCK \<and> covers l)))"
| "call_ok m H Q (GetLk b k) v x = (mid m H v x \<and> (\<forall>e. call_ok m H Q (k e) v x))"
| "call_ok m H Q (CloseFd h c) v x = (mid m H v x \<and> call_ok m H Q c (\<lambda>_. F_UNLCK) False)"
| "call_ok m H Q Abort v x = False"

lemma call_ok_mono:
  "call_ok m H Q c v x \<Longrightarrow> (\<And>a v x. mid m H v x \<Longrightarrow> Q a v x \<Longrightarrow> Q' a v x) \<Longrightarrow> call_ok m H Q' c v x"
proof (induction c arbitrary: v x)
  case (SetLk l k)
  then show ?case by simp
next
  case (GetLk b k)
  then show ?case by simp
qed simp_all

lemma call_ok_map: "call_ok m H Q (map_sys g c) v x = call_ok m H (\<lambda>a. Q (g a)) c v x"
  by (induction c arbitrary: v x) auto

lemma mid_add [simp]: "mid m (add_mset L H) v x \<longleftrightarrow> backed m v x L \<and> mid m H v x"
  by (auto simp: mid_def)

definition high :: "lock_level \<Rightarrow> bool" where
  "high L \<longleftrightarrow> L > SHARED_LOCK"

definition pending :: "lock_level \<Rightarrow> bool" where
  "pending L \<longleftrightarrow> L \<ge> PENDING_LOCK"

lemma high_simps [simp]:
  "\<not> high NO_LOCK" "\<not> high SHARED_LOCK" "high RESERVED_LOCK" "high PENDING_LOCK" "high EXCLUSIVE_LOCK"
  "\<not> pending NO_LOCK" "\<not> pending SHARED_LOCK" "\<not> pending RESERVED_LOCK" "pending PENDING_LOCK" "pending EXCLUSIVE_LOCK"
  by (simp_all add: high_def pending_def)

text \<open>The invariant of an inode: the levels \<open>H\<close> of the handles of the process, and its locks.\<close>

definition ino_ok :: "bool \<Rightarrow> lock_level multiset \<Rightarrow> unixInodeInfo \<Rightarrow> view \<Rightarrow> bool \<Rightarrow> bool" where
  "ino_ok m H i v x \<longleftrightarrow>
     nLock i = nShared i + of_bool (bProcessLock i) \<and>
     (\<not> bProcessLock i \<or> m \<and> wr_range v \<and> x) \<and>
     (nShared i = 0 \<longleftrightarrow> iFileLock i = NO_LOCK) \<and>
     (nShared i = 0 \<or> has_range v \<and> bProcessLock i = m) \<and>
     size (filter_mset (\<lambda>L. L \<noteq> NO_LOCK) H) \<le> nShared i \<and>
     size (filter_mset high H) \<le> 1 \<and>
     (\<forall>L\<in>#H. high L \<longrightarrow> L = iFileLock i) \<and>
     (iFileLock i = EXCLUSIVE_LOCK \<longrightarrow> nShared i = 1 \<and> x \<and> excl_view v) \<and>
     (pending (iFileLock i) \<and> \<not> m \<longrightarrow> v PENDING_BYTE = F_WRLCK) \<and>
     (RESERVED_LOCK \<in># H \<and> \<not> m \<longrightarrow> v RESERVED_BYTE = F_WRLCK)"

lemmas level_defs = less_eq_lock_level_def less_lock_level_def

lemma wr_excl: "wr_range v \<Longrightarrow> excl_view v"
  by (simp add: excl_view_def wr_range_def has_range_def)

lemma wr_has: "wr_range v \<Longrightarrow> has_range v"
  by (simp add: wr_range_def has_range_def)

lemma ino_ok_mid:
  assumes "ino_ok m H i v x"
  shows "mid m H v x"
  unfolding mid_def
proof
  fix L assume L: "L \<in># H"
  show "backed m v x L"
  proof (cases "L = NO_LOCK")
    case True
    then show ?thesis by (simp add: backed_def level_defs)
  next
    case False
    then have "0 < size (filter_mset (\<lambda>L. L \<noteq> NO_LOCK) H)" using L by (auto dest: multi_member_split)
    then have n: "0 < nShared i" using assms by (simp add: ino_ok_def)
    show ?thesis
      using assms L n by (cases L) (auto simp: ino_ok_def backed_def)
  qed
qed

section \<open>The calls keep the invariant\<close>

definition lock_request :: "unixFile \<Rightarrow> lock_level \<Rightarrow> bool" where
  "lock_request f level \<longleftrightarrow> level \<le> eFileLock f \<or>
     (if level = SHARED_LOCK then eFileLock f = NO_LOCK
      else if level = RESERVED_LOCK then eFileLock f = SHARED_LOCK
      else level = EXCLUSIVE_LOCK \<and> eFileLock f \<noteq> NO_LOCK)"

definition call_post ::
  "bool \<Rightarrow> lock_level multiset \<Rightarrow> unixFile \<Rightarrow> unixInodeInfo \<Rightarrow> lock_result \<Rightarrow> view \<Rightarrow> bool \<Rightarrow> bool" where
  "call_post m R f i r v x \<longleftrightarrow> (case r of (rc, f', i') \<Rightarrow>
     ino_ok m (add_mset (eFileLock f') R) i' v x \<and> excl f' = excl f \<and> rdonly f' = rdonly f \<and> nRef i' = nRef i)"

lemma call_post_Ret:
  "ino_ok m (add_mset (eFileLock f') R) i' v x \<Longrightarrow> mid m (add_mset L R) v x \<Longrightarrow>
   excl f' = excl f \<Longrightarrow> rdonly f' = rdonly f \<Longrightarrow> nRef i' = nRef i \<Longrightarrow>
   call_ok m (add_mset L R) (call_post m R f i) (Ret (rc, f', i')) v x"
  by (simp add: call_post_def)

lemma lock_error_simps [simp]:
  "eFileLock (snd (lock_error f n)) = eFileLock f" "excl (snd (lock_error f n)) = excl f"
  "rdonly (snd (lock_error f n)) = rdonly f" "fst (lock_error f n) \<noteq> 0"
  by (auto simp: lock_error_def Let_def storeLastErrno_def sqliteErrorFromPosixError_def)

lemma error_nonzero [simp]: "sqliteErrorFromPosixError n SQLITE_IOERR_LOCK \<noteq> 0"
  by (simp add: sqliteErrorFromPosixError_def)

lemma storeLastErrno_simps [simp]:
  "eFileLock (storeLastErrno f n) = eFileLock f" "excl (storeLastErrno f n) = excl f"
  "rdonly (storeLastErrno f n) = rdonly f"
  by (simp_all add: storeLastErrno_def)

lemma level_cases:
  "L > SHARED_LOCK \<longleftrightarrow> L = RESERVED_LOCK \<or> L = PENDING_LOCK \<or> L = EXCLUSIVE_LOCK"
  "L \<ge> PENDING_LOCK \<longleftrightarrow> L = PENDING_LOCK \<or> L = EXCLUSIVE_LOCK"
  "L \<ge> SHARED_LOCK \<longleftrightarrow> L \<noteq> NO_LOCK"
  "L < PENDING_LOCK \<longleftrightarrow> L = NO_LOCK \<or> L = SHARED_LOCK \<or> L = RESERVED_LOCK"
  "L \<le> SHARED_LOCK \<longleftrightarrow> L = NO_LOCK \<or> L = SHARED_LOCK"
  "L \<le> NO_LOCK \<longleftrightarrow> L = NO_LOCK"
  "L \<ge> EXCLUSIVE_LOCK \<longleftrightarrow> L = EXCLUSIVE_LOCK"
  "NO_LOCK < L \<longleftrightarrow> L \<noteq> NO_LOCK"
  "L \<ge> RESERVED_LOCK \<longleftrightarrow> L = RESERVED_LOCK \<or> L = PENDING_LOCK \<or> L = EXCLUSIVE_LOCK"
  by (cases L; simp add: level_defs)+

lemma none_filter: "size (filter_mset P R) = 0 \<longleftrightarrow> (\<forall>L\<in>#R. \<not> P L)"
  by (induction R) auto

lemma size_filter_none [simp]: "\<forall>L. L \<in># R \<longrightarrow> \<not> P L \<Longrightarrow> size (filter_mset P R) = 0"
  by (simp add: none_filter)

abbreviation excl_mode :: "unixFile \<Rightarrow> bool" where
  "excl_mode f \<equiv> excl f \<and> \<not> rdonly f"

lemma FileLock_normal: "\<not> excl_mode f \<Longrightarrow> unixFileLock f i l c = SetLk l (\<lambda>e. c e i)"
  by (auto simp: unixFileLock_def)

lemma FileLock_locked: "excl_mode f \<Longrightarrow> bProcessLock i \<Longrightarrow> unixFileLock f i l c = c None i"
  by (simp add: unixFileLock_def)

lemma FileLock_first:
  "excl_mode f \<Longrightarrow> \<not> bProcessLock i \<Longrightarrow> nLock i = 0 \<Longrightarrow>
   unixFileLock f i l c = SetLk (rng F_WRLCK) (\<lambda>e. case e of Some n \<Rightarrow> c (Some n) i
     | None \<Rightarrow> c None (i\<lparr>bProcessLock := True, nLock := Suc 0\<rparr>))"
  by (simp add: unixFileLock_def)

lemma call_Ret_ok:
  "ino_ok m (add_mset (eFileLock f') R) i' v x \<Longrightarrow> mid m H v x \<Longrightarrow> excl f' = excl f \<Longrightarrow> rdonly f' = rdonly f \<Longrightarrow>
   nRef i' = nRef i \<Longrightarrow> call_ok m H (call_post m R f i) (Ret (rc, f', i')) v x"
  by (simp add: call_post_def)

lemma others_low:
  assumes "ino_ok m (add_mset L R) i v x" "iFileLock i = L"
  shows "\<forall>L'\<in>#R. L' = NO_LOCK \<or> L' = SHARED_LOCK"
proof
  fix L' assume L': "L' \<in># R"
  have a: "size (filter_mset high (add_mset L R)) \<le> 1" "\<forall>L'\<in>#add_mset L R. high L' \<longrightarrow> L' = iFileLock i"
    using assms(1) unfolding ino_ok_def by blast+
  have "\<not> high L'"
  proof
    assume h: "high L'"
    then have "high L" using a(2) L' assms(2) by simp
    then have "size (filter_mset high R) = 0" using a(1) by simp
    then show False using h L' by (simp add: none_filter)
  qed
  then show "L' = NO_LOCK \<or> L' = SHARED_LOCK" by (cases L') simp_all
qed

lemma ino_facts:
  assumes "ino_ok m (add_mset L R) i v x" "L \<noteq> NO_LOCK"
  shows "nShared i \<noteq> 0" "has_range v" "bProcessLock i = m" "m \<longrightarrow> wr_range v \<and> x"
proof -
  have "size (filter_mset (\<lambda>L. L \<noteq> NO_LOCK) (add_mset L R)) \<le> nShared i" using assms(1) unfolding ino_ok_def by blast
  then show n: "nShared i \<noteq> 0" using assms(2) by simp
  have "nShared i = 0 \<or> has_range v \<and> bProcessLock i = m" "\<not> bProcessLock i \<or> m \<and> wr_range v \<and> x"
    using assms(1) unfolding ino_ok_def by blast+
  then show "has_range v" "bProcessLock i = m" "m \<longrightarrow> wr_range v \<and> x" using n by blast+
qed

lemma call_busy_ok:
  assumes "ino_ok m (add_mset (eFileLock f) R) i v x"
  shows "call_ok m (add_mset (eFileLock f) R) (call_post m R f i) (Ret (rc, f, i)) v x"
  using assms ino_ok_mid [OF assms] by (simp add: call_post_def)

lemma mid_low:
  "\<forall>L\<in>#R. L = NO_LOCK \<or> L = SHARED_LOCK \<Longrightarrow> has_range v \<Longrightarrow> (m \<longrightarrow> wr_range v) \<Longrightarrow> mid m R v x"
  by (auto simp: mid_def backed_def)

lemma low_simps:
  assumes "\<forall>L\<in>#R. L = NO_LOCK \<or> L = SHARED_LOCK"
  shows "size (filter_mset high R) = 0" "RESERVED_LOCK \<notin># R" "\<forall>L\<in>#R. high L \<longrightarrow> L = l"
  unfolding none_filter using assms by auto

text \<open>The step from one level of a handle, which is that of its inode, to another.\<close>

lemma ino_change:
  assumes inv: "ino_ok m (add_mset L R) i v x" "iFileLock i = L" "L \<noteq> NO_LOCK" and L': "L' \<noteq> NO_LOCK"
    and w: "has_range w" "m \<longrightarrow> wr_range w \<and> y" "L' = EXCLUSIVE_LOCK \<longrightarrow> nShared i = 1 \<and> y \<and> excl_view w"
      "pending L' \<and> \<not> m \<longrightarrow> w PENDING_BYTE = F_WRLCK" "L' = RESERVED_LOCK \<and> \<not> m \<longrightarrow> w RESERVED_BYTE = F_WRLCK"
  shows "ino_ok m (add_mset L' R) (i\<lparr>iFileLock := L'\<rparr>) w y"
proof -
  note facts = ino_facts [OF inv(1,3)] low_simps [OF others_low [OF inv(1,2)]]
  have "nLock i = nShared i + of_bool (bProcessLock i)" "size (filter_mset (\<lambda>L. L \<noteq> NO_LOCK) (add_mset L R)) \<le> nShared i"
    using inv(1) unfolding ino_ok_def by blast+
  then show ?thesis unfolding ino_ok_def using facts inv(3) L' w by (intro conjI) simp_all
qed

lemma unixLock_shared_ok:
  assumes inv: "ino_ok m (add_mset NO_LOCK R) i v x" and m: "excl_mode f \<longleftrightarrow> m" and f: "eFileLock f = NO_LOCK"
  shows "call_ok m (add_mset NO_LOCK R) (call_post m R f i) (unixLock f i SHARED_LOCK) v x"
proof (cases "iFileLock i")
  case NO_LOCK
  have R: "\<forall>L\<in>#R. L = NO_LOCK" "nShared i = 0" using inv NO_LOCK by (auto simp: ino_ok_def none_filter)
  then have R': "size (filter_mset (\<lambda>L. L \<noteq> NO_LOCK) R) = 0" "size (filter_mset high R) = 0" "RESERVED_LOCK \<notin># R"
    "mid m (add_mset NO_LOCK R) w y" for w y
    unfolding none_filter by (auto simp: mid_def backed_def)
  have n: "nLock i = of_bool (bProcessLock i)" using inv R by (simp add: ino_ok_def)
  have post: "ino_ok m (add_mset SHARED_LOCK R) i' w y"
    if "has_range w" "m \<longrightarrow> wr_range w \<and> y" "bProcessLock i' = m" "nLock i' = Suc (of_bool m)" "nShared i' = Suc 0"
      "iFileLock i' = SHARED_LOCK" for i' w y
    using that R R' by (simp add: ino_ok_def)
  have fail: "ino_ok m (add_mset NO_LOCK R) i' w y"
    if "nShared i' = 0" "iFileLock i' = NO_LOCK" "\<not> bProcessLock i' \<or> m \<and> wr_range w \<and> y" "nLock i' = of_bool (bProcessLock i')" for i' w y
    using that R R' by (simp add: ino_ok_def)
  show ?thesis
  proof (cases m)
    case False
    then have "\<not> excl_mode f" "\<not> bProcessLock i" using m inv by (auto simp: ino_ok_def)
    then show ?thesis
      using False f NO_LOCK R R' n post fail
      by (simp add: unixLock_def lock_go_def lock_shared_def FileLock_normal lock_finish_def Let_def split_def guarded_def call_post_def)
  next
    case True
    show ?thesis
    proof (cases "bProcessLock i")
      case b: True
      then have "wr_range v" "x" using inv by (simp_all add: ino_ok_def)
      then show ?thesis
        using True f m b NO_LOCK R R' n post
        by (simp add: unixLock_def lock_go_def lock_shared_def FileLock_locked lock_finish_def Let_def split_def call_post_def wr_has)
    next
      case b: False
      then show ?thesis
        using True f m b NO_LOCK R R' n post fail
        by (simp add: unixLock_def lock_go_def lock_shared_def FileLock_first FileLock_locked lock_finish_def Let_def split_def
          call_post_def guarded_def wr_excl)
    qed
  qed
next
  case SHARED_LOCK
  then have "ino_ok m (add_mset SHARED_LOCK R) (i\<lparr>nShared := nShared i + 1, nLock := nLock i + 1\<rparr>) v x" "nShared i \<noteq> 0"
    using inv by (auto simp: ino_ok_def)
  then show ?thesis using SHARED_LOCK f ino_ok_mid [OF inv] by (simp add: unixLock_def call_post_def)
next
  case RESERVED_LOCK
  then have "ino_ok m (add_mset SHARED_LOCK R) (i\<lparr>nShared := nShared i + 1, nLock := nLock i + 1\<rparr>) v x" "nShared i \<noteq> 0"
    using inv by (auto simp: ino_ok_def)
  then show ?thesis using RESERVED_LOCK f ino_ok_mid [OF inv] by (simp add: unixLock_def call_post_def)
next
  case PENDING_LOCK
  then show ?thesis using inv f ino_ok_mid [OF inv] by (simp add: unixLock_def call_post_def)
next
  case EXCLUSIVE_LOCK
  then show ?thesis using inv f ino_ok_mid [OF inv] by (simp add: unixLock_def call_post_def)
qed

lemma unixLock_reserved_ok:
  assumes inv: "ino_ok m (add_mset SHARED_LOCK R) i v x" and m: "excl_mode f \<longleftrightarrow> m" and f: "eFileLock f = SHARED_LOCK"
  shows "call_ok m (add_mset SHARED_LOCK R) (call_post m R f i) (unixLock f i RESERVED_LOCK) v x"
proof (cases "iFileLock i = SHARED_LOCK")
  case False
  then show ?thesis using call_busy_ok [of m f R i v x] inv f by (simp add: unixLock_def)
next
  case True
  have R: "\<forall>L\<in>#R. L = NO_LOCK \<or> L = SHARED_LOCK" by (rule others_low [OF inv]) (use True in simp)
  have low: "has_range w \<Longrightarrow> (m \<longrightarrow> wr_range w) \<Longrightarrow> mid m (add_mset SHARED_LOCK R) w y" for w y
    using R by (intro mid_low) auto
  have rng: "has_range v" "bProcessLock i = m" "m \<longrightarrow> wr_range v \<and> x" "nShared i \<noteq> 0"
    using inv True by (auto simp: ino_ok_def)
  have new: "ino_ok m (add_mset RESERVED_LOCK R) (i\<lparr>iFileLock := RESERVED_LOCK\<rparr>) w y"
    if "has_range w" "m \<longrightarrow> wr_range w \<and> y" "m \<or> w RESERVED_BYTE = F_WRLCK" for w y
    using inv True low_simps [OF R] that rng by (auto simp: ino_ok_def)
  show ?thesis
  proof (cases m)
    case True': True
    then show ?thesis
      using inv m f True low new rng
      by (simp add: unixLock_def lock_go_def lock_raise_def FileLock_locked lock_finish_def call_post_def)
  next
    case False
    then show ?thesis
      using inv m f True low new rng
      by (simp add: unixLock_def lock_go_def lock_raise_def FileLock_normal lock_finish_def call_post_def guarded_def Let_def split_def)
  qed
qed

lemma unixLock_exclusive_ok:
  assumes inv: "ino_ok m (add_mset (eFileLock f) R) i v x" and m: "excl_mode f \<longleftrightarrow> m"
    and f: "eFileLock f \<in> {SHARED_LOCK, RESERVED_LOCK, PENDING_LOCK}"
  shows "call_ok m (add_mset (eFileLock f) R) (call_post m R f i) (unixLock f i EXCLUSIVE_LOCK) v x"
proof (cases "iFileLock i = eFileLock f")
  case False
  then show ?thesis using call_busy_ok [OF inv] f by (auto simp: unixLock_def)
next
  case True
  have R: "\<forall>L\<in>#R. L = NO_LOCK \<or> L = SHARED_LOCK" by (rule others_low [OF inv]) (use True in simp)
  have "eFileLock f \<noteq> NO_LOCK" using f by auto
  note facts = ino_facts [OF inv this]
  have "pending (iFileLock i) \<and> \<not> m \<longrightarrow> v PENDING_BYTE = F_WRLCK"
    "RESERVED_LOCK \<in># add_mset (eFileLock f) R \<and> \<not> m \<longrightarrow> v RESERVED_BYTE = F_WRLCK"
    using inv unfolding ino_ok_def by blast+
  then have "eFileLock f = PENDING_LOCK \<and> \<not> m \<longrightarrow> v PENDING_BYTE = F_WRLCK"
    "eFileLock f = RESERVED_LOCK \<and> \<not> m \<longrightarrow> v RESERVED_BYTE = F_WRLCK"
    using True by auto
  note rng = facts(2-4) facts(1) this
  have mid: "mid m (add_mset (eFileLock f) R) w y" if "has_range w" "m \<longrightarrow> wr_range w" "m \<or> w PENDING_BYTE = F_WRLCK \<or> eFileLock f \<noteq> PENDING_LOCK"
    "m \<or> w RESERVED_BYTE = F_WRLCK \<or> eFileLock f \<noteq> RESERVED_LOCK" for w y
  proof -
    have "backed m w y (eFileLock f)"
      using that f by (cases "eFileLock f") (simp_all add: backed_def, blast+)
    then show ?thesis using mid_low [OF R that(1,2)] by simp
  qed
  have to_pending: "ino_ok m (add_mset PENDING_LOCK R) (i\<lparr>iFileLock := PENDING_LOCK\<rparr>) w y"
    if "has_range w" "m \<longrightarrow> wr_range w \<and> y" "m \<or> w PENDING_BYTE = F_WRLCK" for w y
    by (rule ino_change [OF inv True]) (use that f in auto)
  have to_excl: "ino_ok m (add_mset EXCLUSIVE_LOCK R) (i\<lparr>iFileLock := EXCLUSIVE_LOCK\<rparr>) w y"
    if "wr_range w" y "m \<or> w PENDING_BYTE = F_WRLCK" "\<not> 1 < nShared i" for w y
    by (rule ino_change [OF inv True]) (use that f rng(4) wr_has wr_excl in auto)
  have raise: "call_ok m (add_mset (eFileLock f) R) (call_post m R f i) (lock_raise f i EXCLUSIVE_LOCK) w y"
    if "has_range w" "m \<longrightarrow> wr_range w \<and> y" "m \<or> w PENDING_BYTE = F_WRLCK"
      "m \<or> w RESERVED_BYTE = F_WRLCK \<or> eFileLock f \<noteq> RESERVED_LOCK" for w y
  proof -
    have md: "mid m (add_mset (eFileLock f) R) w y" by (rule mid) (use that in auto)
    have tp: "ino_ok m (add_mset PENDING_LOCK R) (i\<lparr>iFileLock := PENDING_LOCK\<rparr>) w y" by (rule to_pending) (use that in simp_all)
    have ne: "eFileLock f \<noteq> NO_LOCK" using f by auto
    show ?thesis
    proof (cases "1 < nShared i")
      case True
      then show ?thesis using md tp by (simp add: lock_raise_def lock_finish_def call_post_def)
    next
      case one: False
      show ?thesis
      proof (cases m)
        case True
        then have "ino_ok m (add_mset EXCLUSIVE_LOCK R) (i\<lparr>iFileLock := EXCLUSIVE_LOCK\<rparr>) w y"
          using that one by (intro to_excl) simp_all
        then show ?thesis
          using True m rng(2) ne md one by (simp add: lock_raise_def FileLock_locked lock_finish_def call_post_def)
      next
        case False
        let ?w = "set_range w (rng F_WRLCK)"
        have te: "ino_ok m (add_mset EXCLUSIVE_LOCK R) (i\<lparr>iFileLock := EXCLUSIVE_LOCK\<rparr>) ?w True"
          using that one False by (intro to_excl) simp_all
        have mw: "mid m (add_mset (eFileLock f) R) ?w True" by (rule mid) (use that False in simp_all)
        have ex: "excl_view ?w" by (rule wr_excl) simp
        show ?thesis
          using False m ne one md tp te mw ex
          by (simp add: lock_raise_def FileLock_normal lock_finish_def call_post_def guarded_def Let_def split_def)
      qed
    qed
  qed
  show ?thesis
  proof (cases "eFileLock f = PENDING_LOCK \<or> m")
    case True'': True
    then have "unixLock f i EXCLUSIVE_LOCK = lock_raise f i EXCLUSIVE_LOCK"
      using f True rng(2) m by (auto simp: unixLock_def lock_go_def FileLock_locked)
    moreover have "call_ok m (add_mset (eFileLock f) R) (call_post m R f i) (lock_raise f i EXCLUSIVE_LOCK) v x"
      by (rule raise) (use True'' rng in auto)
    ultimately show ?thesis by simp
  next
    case False
    let ?w = "set_range v (pend F_WRLCK)"
    have eq: "unixLock f i EXCLUSIVE_LOCK = SetLk (pend F_WRLCK) (\<lambda>e. case e of None \<Rightarrow> lock_raise f i EXCLUSIVE_LOCK
        | Some n \<Rightarrow> (let (rc, f) = lock_error f n in Ret (rc, f, i)))"
      using f True False m by (auto simp: unixLock_def lock_go_def FileLock_normal)
    have "call_ok m (add_mset (eFileLock f) R) (call_post m R f i) (lock_raise f i EXCLUSIVE_LOCK) ?w y" for y
      by (rule raise) (use False rng f in auto)
    moreover have "mid m (add_mset (eFileLock f) R) v x" using ino_ok_mid [OF inv] .
    ultimately show ?thesis
      unfolding eq using inv by (simp add: guarded_def call_post_def Let_def split_def)
  qed
qed

lemma unixLock_ok:
  assumes inv: "ino_ok m (add_mset (eFileLock f) R) i v x" and m: "excl_mode f \<longleftrightarrow> m" and r: "lock_request f level"
  shows "call_ok m (add_mset (eFileLock f) R) (call_post m R f i) (unixLock f i level) v x"
proof (cases "level \<le> eFileLock f")
  case True
  then show ?thesis using call_busy_ok [OF inv] by (simp add: unixLock_def)
next
  case False
  then show ?thesis
    using r inv unixLock_shared_ok [of m R i v x f] unixLock_reserved_ok [of m R i v x f] unixLock_exclusive_ok [of m f R i v x] m
    by (cases "eFileLock f"; cases level) (simp_all add: lock_request_def)
qed

lemma close_fds_ok:
  assumes "\<And>w y. mid m H w y" "\<And>w y. call_ok m H Q c w y"
  shows "call_ok m H Q (close_fds hs c) w y"
  using assms by (induction hs arbitrary: w y) simp_all

lemma all_none_mid: "\<forall>L\<in>#H. L = NO_LOCK \<Longrightarrow> mid m H w y"
  by (auto simp: mid_def backed_def)

lemma unlock_shared_ok:
  assumes inv: "ino_ok m (add_mset SHARED_LOCK R) i v x" and m: "excl_mode f \<longleftrightarrow> m" and l: "level \<in> {NO_LOCK, SHARED_LOCK}"
    and mid: "mid m R v x"
  shows "call_ok m (add_mset level R) (call_post m R f i) (unlock_shared level f i) v x"
proof (cases "level = NO_LOCK")
  case False
  then show ?thesis using inv l ino_ok_mid [OF inv] by (simp add: unlock_shared_def unlock_end_def call_post_def)
next
  case level: True
  have n: "nShared i \<noteq> 0" "nLock i = nShared i + of_bool (bProcessLock i)" "bProcessLock i = m" "m \<longrightarrow> wr_range v \<and> x"
    using inv by (auto simp: ino_ok_def)
  show ?thesis
  proof (cases "nShared i = 1")
    case False
    have "mid m (add_mset NO_LOCK R) v x" using mid by (simp add: backed_def)
    moreover have "ino_ok m (add_mset NO_LOCK R) (i\<lparr>nShared := nShared i - 1, nLock := nLock i - 1\<rparr>) v x"
      using inv False n by (auto simp: ino_ok_def)
    moreover have "unlock_shared level f i = Ret (SQLITE_OK, f\<lparr>eFileLock := NO_LOCK\<rparr>, i\<lparr>nShared := nShared i - 1, nLock := nLock i - 1\<rparr>)"
      using level False n by (simp add: unlock_shared_def unlock_count_def unlock_end_def Let_def)
    ultimately show ?thesis using level by (simp add: call_post_def)
  next
    case True
    then have R: "\<forall>L\<in>#R. L = NO_LOCK" using inv by (auto simp: ino_ok_def none_filter)
    then have mids: "mid m (add_mset NO_LOCK R) w y" for w y by (intro all_none_mid) auto
    have low: "size (filter_mset (\<lambda>L. L \<noteq> NO_LOCK) R) = 0" "size (filter_mset high R) = 0" "RESERVED_LOCK \<notin># R"
      unfolding none_filter using R by auto
    have post: "ino_ok m (add_mset NO_LOCK R) i' w y"
      if "nShared i' = 0" "iFileLock i' = NO_LOCK" "\<not> bProcessLock i' \<or> m \<and> wr_range w \<and> y" "nLock i' = of_bool (bProcessLock i')" for i' w y
      using that R low by (simp add: ino_ok_def)
    have count: "call_ok m (add_mset NO_LOCK R) (call_post m R f i) (unlock_count NO_LOCK rc f' i') w y"
      if "nShared i' = 0" "iFileLock i' = NO_LOCK" "bProcessLock i' = m" "nLock i' = 1 + of_bool m" "m \<longrightarrow> wr_range w \<and> y"
        "nRef i' = nRef i" "excl f' = excl f" "rdonly f' = rdonly f" "rc = SQLITE_OK \<or> eFileLock f' = NO_LOCK" for rc f' i' w y
    proof (cases m)
      case True
      then show ?thesis using that mids post by (auto simp: unlock_count_def unlock_end_def call_post_def)
    next
      case False
      have "call_ok m (add_mset NO_LOCK R) (call_post m R f i)
          (unlock_end NO_LOCK rc f' (i'\<lparr>nLock := 0, pUnused := []\<rparr>)) w y" for w y
        using that mids False post by (auto simp: unlock_end_def call_post_def)
      then show ?thesis
        using that False mids by (simp add: unlock_count_def Let_def closePendingFds_def close_fds_ok)
    qed
    show ?thesis
    proof (cases m)
      case True': True
      then show ?thesis
        using n m True level count by (simp add: unlock_shared_def Let_def FileLock_locked)
    next
      case False
      then show ?thesis
        using n m True level mids count
        by (simp add: unlock_shared_def Let_def FileLock_normal guarded_def)
    qed
  qed
qed

lemma unlock_pending_ok:
  assumes inv: "ino_ok m (add_mset (eFileLock f) R) i v x" and m: "excl_mode f \<longleftrightarrow> m" and l: "level \<in> {NO_LOCK, SHARED_LOCK}"
    and f: "high (eFileLock f)" "iFileLock i = eFileLock f"
  shows "call_ok m (add_mset level R) (call_post m R f i) (unlock_pending level f i) v x"
proof -
  have R: "\<forall>L\<in>#R. L = NO_LOCK \<or> L = SHARED_LOCK" by (rule others_low [OF inv f(2)])
  have n: "nShared i \<noteq> 0" "bProcessLock i = m" "m \<longrightarrow> wr_range v \<and> x" "has_range v"
    using inv f by (auto simp: ino_ok_def)
  have mids: "mid m (add_mset level R) w y" "mid m R w y" if "has_range w" "m \<longrightarrow> wr_range w" for w y
    using R l by (intro mid_low [OF _ that]; auto)+
  have down: "ino_ok m (add_mset SHARED_LOCK R) (i\<lparr>iFileLock := SHARED_LOCK\<rparr>) w y"
    if "has_range w" "m \<longrightarrow> wr_range w \<and> y" for w y
    using inv that low_simps [OF R] n f by (auto simp: ino_ok_def)
  have sh: "call_ok m (add_mset level R) (call_post m R f i) (unlock_shared level f (i\<lparr>iFileLock := SHARED_LOCK\<rparr>)) w y"
    if "has_range w" "m \<longrightarrow> wr_range w \<and> y" for w y
  proof (rule call_ok_mono)
    show "call_ok m (add_mset level R) (call_post m R f (i\<lparr>iFileLock := SHARED_LOCK\<rparr>))
        (unlock_shared level f (i\<lparr>iFileLock := SHARED_LOCK\<rparr>)) w y"
      using that by (intro unlock_shared_ok down m l mids) auto
  qed (simp add: call_post_def)
  show ?thesis
  proof (cases m)
    case True
    then show ?thesis using n m sh by (simp add: unlock_pending_def FileLock_locked)
  next
    case False
    then show ?thesis
      using n m mids inv sh
      by (simp add: unlock_pending_def FileLock_normal guarded_def unlock_end_def call_post_def)
  qed
qed

lemma posixUnlock_ok:
  assumes inv: "ino_ok m (add_mset (eFileLock f) R) i v x" and m: "excl_mode f \<longleftrightarrow> m" and l: "level \<in> {NO_LOCK, SHARED_LOCK}"
  shows "call_ok m (add_mset (min (eFileLock f) level) R) (call_post m R f i) (posixUnlock f i level) v x"
proof (cases "eFileLock f \<le> level")
  case True
  then show ?thesis using l call_busy_ok [OF inv] by (auto simp: posixUnlock_def min_absorb1)
next
  case False
  then have lev: "min (eFileLock f) level = level" "eFileLock f \<noteq> NO_LOCK" using l by (cases "eFileLock f"; auto simp: min_def)+
  note n = ino_facts(1,3,4,2) [OF inv lev(2)]
  show ?thesis
  proof (cases "high (eFileLock f)")
    case False
    then have f: "eFileLock f = SHARED_LOCK" using lev by (cases "eFileLock f") simp_all
    then have lv: "level = NO_LOCK" using \<open>\<not> eFileLock f \<le> level\<close> l by auto
    have "call_ok m (add_mset NO_LOCK R) (call_post m R f i) (unlock_shared NO_LOCK f i) v x"
      by (rule unlock_shared_ok [OF _ m]) (use inv f ino_ok_mid [OF inv] in simp_all)
    then show ?thesis using n f lv by (simp add: posixUnlock_def min_def)
  next
    case True
    then have hi: "SHARED_LOCK < eFileLock f" by (simp add: high_def)
    have f: "iFileLock i = eFileLock f" using inv True by (auto simp: ino_ok_def)
    show ?thesis
    proof (cases "level = SHARED_LOCK")
      case False
      then show ?thesis using l n f hi lev unlock_pending_ok [OF inv m l True f] by (auto simp: posixUnlock_def)
    next
      case sh: True
      show ?thesis
      proof (cases m)
        case True'': True
        then show ?thesis using sh n f hi lev m unlock_pending_ok [OF inv m l True f]
          by (auto simp: posixUnlock_def FileLock_locked)
      next
        case nm: False
        have rd: "ino_ok m (add_mset (eFileLock f) R) i (set_range v (rng F_RDLCK)) (excl_view (set_range v (rng F_RDLCK)) \<and> x)"
          using inv n f nm by (auto simp: ino_ok_def excl_view_def)
        have mid: "mid m (add_mset SHARED_LOCK R) v x"
          using ino_ok_mid [OF inv] n nm by (auto simp: backed_def)
        show ?thesis
          using sh n f hi lev nm m mid unlock_pending_ok [OF rd m l True f] inv
          by (auto simp: posixUnlock_def FileLock_normal guarded_def unlock_end_def call_post_def)
      qed
    qed
  qed
qed

text \<open>Closing a handle: the others keep their levels, or the inode is gone with the last of them.\<close>

lemma unixClose_ok:
  assumes inv: "ino_ok m (add_mset L R) i v x" and last: "nRef i - 1 = 0 \<Longrightarrow> R = {#}"
  shows "call_ok m (add_mset NO_LOCK R)
    (\<lambda>(rc, io) v x. case io of None \<Rightarrow> R = {#} | Some i' \<Rightarrow> ino_ok m R i' v x \<and> nRef i' = nRef i - 1 \<and> nRef i' \<noteq> 0)
    (unixClose f i) v x"
proof -
  have mid: "mid m (add_mset NO_LOCK R) v x" using ino_ok_mid [OF inv] by (simp add: backed_def)
  have keep: "ino_ok m R i' w y" if "ino_ok m (add_mset L R) i w y" "nShared i' = nShared i" "iFileLock i' = iFileLock i"
    "nLock i' = nLock i" "bProcessLock i' = bProcessLock i" for i' w y
    using that unfolding ino_ok_def by (auto split: if_splits)
  have a: "\<not> (nLock i = 0 \<and> bProcessLock i)" using inv by (simp add: ino_ok_def)
  show ?thesis
  proof (cases "nRef i - 1 = 0")
    case True
    then have R: "R = {#}" by (rule last)
    have mids: "mid m {#NO_LOCK#} w y" for w y by (simp add: mid_def backed_def)
    show ?thesis
      using a True mids unfolding R
      by (auto simp: unixClose_def setPendingFd_def releaseInodeInfo_def closePendingFds_def Let_def intro!: close_fds_ok)
  next
    case False
    show ?thesis
    proof (cases "nLock i = 0")
      case True
      then have s: "nShared i = 0" "\<not> bProcessLock i" using inv by (simp_all add: ino_ok_def)
      have none: "\<forall>L\<in>#add_mset L R. L = NO_LOCK" using inv s by (auto simp: ino_ok_def none_filter split: if_splits)
      then have mids: "mid m (add_mset NO_LOCK R) w y" for w y by (intro all_none_mid) auto
      have "ino_ok m (add_mset L R) i w y" for w y
        using inv s none unfolding ino_ok_def by auto
      then show ?thesis
        using a True False mids
        by (auto simp: unixClose_def releaseInodeInfo_def Let_def intro!: keep)
    next
      case nl: False
      then show ?thesis
        using a False mid inv
        by (auto simp: unixClose_def setPendingFd_def releaseInodeInfo_def Let_def intro!: keep)
    qed
  qed
qed

end
