(* ===== verification/LockSystem.thy ===== *)
theory LockSystem
  imports Locks
begin

text \<open>
  Processes that lock one file. The operating system is a parameter (\<open>os\<close>), of which \<open>posix_os\<close> states
  what POSIX says of advisory locks. A state has the inode, the handles and the running call of
  each process; a \<open>step\<close> opens a handle, begins a call, makes one system call or returns. The
  invariant \<open>sys_inv\<close> holds in every reachable state; from it follow mutual exclusion, that locks
  are held while a handle relies on them, and that no assertion fails. \<open>exec\<close> runs a call without
  interruption, for the progress of a handle that is alone, and for an example.
\<close>

section \<open>Processes and the operating system\<close>

record ps =
  inode :: "unixInodeInfo option"
  handles :: "unixFile option list"
  running :: "(nat \<times> lock_level \<times> (unixFile option \<times> unixInodeInfo option) sys) option"

record ('p, 'k) os =
  os_setlk :: "'k \<Rightarrow> 'p \<Rightarrow> flock \<Rightarrow> nat option \<times> 'k"
  os_getlk :: "'k \<Rightarrow> 'p \<Rightarrow> nat \<Rightarrow> nat + bool"
  os_close :: "'k \<Rightarrow> 'p \<Rightarrow> int \<Rightarrow> 'k"

definition compat :: "lock_type \<Rightarrow> lock_type \<Rightarrow> bool" where
  "compat a b \<longleftrightarrow> a = F_UNLCK \<or> b = F_UNLCK \<or> a = F_RDLCK \<and> b = F_RDLCK"

text \<open>
  What POSIX says of advisory locks, \<open>view k p\<close> being the locks process \<open>p\<close> holds: a lock that is
  set replaces what the process held there and was not in conflict with another process; a call
  that fails changes nothing; closing any descriptor of the file drops all locks of the process.
\<close>

definition posix_os :: "('p, 'k) os \<Rightarrow> ('k \<Rightarrow> 'p \<Rightarrow> view) \<Rightarrow> bool" where
  "posix_os os view \<longleftrightarrow>
     (\<forall>k p l k'. os_setlk os k p l = (None, k') \<longrightarrow>
        view k' = (view k)(p := set_range (view k p) l) \<and>
        (\<forall>q b. q \<noteq> p \<and> in_range l b \<longrightarrow> compat (l_type l) (view k q b))) \<and>
     (\<forall>k p l n k'. os_setlk os k p l = (Some n, k') \<longrightarrow> view k' = view k) \<and>
     (\<forall>k p h. view (os_close os k p h) = (view k)(p := (\<lambda>_. F_UNLCK)))"

fun os_step :: "('p, 'k) os \<Rightarrow> 'p \<Rightarrow> 'a sys \<Rightarrow> 'k \<Rightarrow> ('a sys \<times> 'k) option" where
  "os_step os p (SetLk l c) k = (case os_setlk os k p l of (e, k) \<Rightarrow> Some (c e, k))"
| "os_step os p (GetLk b c) k = Some (c (os_getlk os k p b), k)"
| "os_step os p (CloseFd h c) k = Some (c, os_close os k p h)"
| "os_step os p (Ret a) k = None"
| "os_step os p Abort k = None"

datatype request = Lock lock_level | Unlock lock_level | CheckReserved | Close

text \<open>The calls a client may make: those whose asserted preconditions hold.\<close>

fun legal :: "request \<Rightarrow> unixFile \<Rightarrow> bool" where
  "legal (Lock level) f \<longleftrightarrow> lock_request f level"
| "legal (Unlock level) f \<longleftrightarrow> level \<le> SHARED_LOCK"
| "legal CheckReserved f \<longleftrightarrow> eFileLock f \<le> SHARED_LOCK"
| "legal Close f \<longleftrightarrow> True"

fun begin_call :: "request \<Rightarrow> unixFile \<Rightarrow> unixInodeInfo \<Rightarrow> (unixFile option \<times> unixInodeInfo option) sys" where
  "begin_call (Lock level) f i = map_sys (\<lambda>(rc, f, i). (Some f, Some i)) (unixLock f i level)"
| "begin_call (Unlock level) f i = map_sys (\<lambda>(rc, f, i). (Some f, Some i)) (unixUnlock f i level)"
| "begin_call CheckReserved f i = map_sys (\<lambda>(rc, res, f). (Some f, Some i)) (unixCheckReservedLock f i)"
| "begin_call Close f i = map_sys (\<lambda>(rc, i). (None, i)) (unixClose f i)"

text \<open>While a handle is being unlocked or closed, its user relies only on the level it will have.\<close>

fun limit :: "request \<Rightarrow> lock_level" where
  "limit (Unlock level) = level"
| "limit Close = NO_LOCK"
| "limit _ = EXCLUSIVE_LOCK"

definition findInodeInfo :: "unixInodeInfo option \<Rightarrow> unixInodeInfo" where
  "findInodeInfo i = (case i of
       None \<Rightarrow> \<lparr>nShared = 0, iFileLock = NO_LOCK, bProcessLock = False, nRef = 1, nLock = 0, pUnused = []\<rparr>
     | Some i \<Rightarrow> i\<lparr>nRef := nRef i + 1\<rparr>)"

record ('p, 'k) system =
  procs :: "'p \<Rightarrow> ps"
  kernel :: 'k

text \<open>
  The processes take turns at each system call; the mutex admits one call at a time in a process.
  \<open>m p\<close> is whether process \<open>p\<close> uses unix-excl.
\<close>

inductive step :: "('p, 'k) os \<Rightarrow> ('p \<Rightarrow> bool) \<Rightarrow> ('p, 'k) system \<Rightarrow> ('p, 'k) system \<Rightarrow> bool"
  for os :: "('p, 'k) os" and m :: "'p \<Rightarrow> bool" where
  open_file: "procs s p = P \<Longrightarrow> running P = None \<Longrightarrow> excl_mode f = m p \<Longrightarrow> eFileLock f = NO_LOCK \<Longrightarrow>
    step os m s (s\<lparr>procs := (procs s)(p := P\<lparr>inode := Some (findInodeInfo (inode P)), handles := handles P @ [Some f]\<rparr>)\<rparr>)"
| call: "procs s p = P \<Longrightarrow> running P = None \<Longrightarrow> j < length (handles P) \<Longrightarrow> handles P ! j = Some f \<Longrightarrow>
    inode P = Some i \<Longrightarrow> legal r f \<Longrightarrow>
    step os m s (s\<lparr>procs := (procs s)(p := P\<lparr>running := Some (j, limit r, begin_call r f i)\<rparr>)\<rparr>)"
| os_call: "procs s p = P \<Longrightarrow> running P = Some (j, l, c) \<Longrightarrow> os_step os p c (kernel s) = Some (c', k) \<Longrightarrow>
    step os m s (s\<lparr>procs := (procs s)(p := P\<lparr>running := Some (j, l, c')\<rparr>), kernel := k\<rparr>)"
| return: "procs s p = P \<Longrightarrow> running P = Some (j, l, Ret (fo, io)) \<Longrightarrow>
    step os m s (s\<lparr>procs := (procs s)(p := \<lparr>inode = io, handles = (handles P)[j := fo], running = None\<rparr>)\<rparr>)"

definition initial :: "'k \<Rightarrow> ('p, 'k) system" where
  "initial k = \<lparr>procs = (\<lambda>_. \<lparr>inode = None, handles = [], running = None\<rparr>), kernel = k\<rparr>"

text \<open>The level that the user of handle \<open>j\<close> can rely on.\<close>

definition held_handles :: "ps \<Rightarrow> unixFile option list" where
  "held_handles P = (case running P of
       None \<Rightarrow> handles P
     | Some (j, l, c) \<Rightarrow> (handles P)[j := map_option (\<lambda>f. f\<lparr>eFileLock := min (eFileLock f) l\<rparr>) (handles P ! j)])"

definition held :: "ps \<Rightarrow> nat \<Rightarrow> lock_level" where
  "held P j = (if j < length (handles P)
     then (case held_handles P ! j of None \<Rightarrow> NO_LOCK | Some f \<Rightarrow> eFileLock f) else NO_LOCK)"

section \<open>The invariant of the system\<close>

fun levels :: "unixFile option list \<Rightarrow> lock_level multiset" where
  "levels [] = {#}"
| "levels (None # fs) = levels fs"
| "levels (Some f # fs) = add_mset (eFileLock f) (levels fs)"

lemma levels_append [simp]: "levels (a @ b) = levels a + levels b"
  by (induction a rule: levels.induct) simp_all

lemma levels_split:
  assumes "j < length fs" "fs ! j = Some f"
  obtains R where "levels fs = add_mset (eFileLock f) R" "\<And>g. levels (fs[j := Some g]) = add_mset (eFileLock g) R"
    "levels (fs[j := None]) = R"
proof -
  have "fs = take j fs @ Some f # drop (Suc j) fs" using assms by (metis id_take_nth_drop)
  then have "levels fs = levels (take j fs @ Some f # drop (Suc j) fs)" by simp
  then show thesis
    using that [of "levels (take j fs) + levels (drop (Suc j) fs)"] assms by (simp add: upd_conv_take_nth_drop)
qed

definition idle_ok :: "bool \<Rightarrow> unixFile option list \<Rightarrow> unixInodeInfo option \<Rightarrow> view \<Rightarrow> bool \<Rightarrow> bool" where
  "idle_ok m fs io v x \<longleftrightarrow> (\<forall>f. Some f \<in> set fs \<longrightarrow> excl_mode f = m) \<and>
     (case io of None \<Rightarrow> levels fs = {#}
      | Some i \<Rightarrow> ino_ok m (levels fs) i v x \<and> nRef i = size (levels fs) \<and> nRef i \<noteq> 0)"

definition apart :: "lock_level multiset \<Rightarrow> bool" where
  "apart H \<longleftrightarrow> size (filter_mset high H) \<le> 1 \<and> (EXCLUSIVE_LOCK \<in># H \<longrightarrow> size (filter_mset (\<lambda>L. L \<noteq> NO_LOCK) H) \<le> 1)"

definition proc_ok :: "bool \<Rightarrow> ps \<Rightarrow> view \<Rightarrow> bool \<Rightarrow> bool" where
  "proc_ok m P v x \<longleftrightarrow> apart (levels (held_handles P)) \<and>
     (case running P of
        None \<Rightarrow> idle_ok m (handles P) (inode P) v x
      | Some (j, l, c) \<Rightarrow> j < length (handles P) \<and> handles P ! j \<noteq> None \<and>
          call_ok m (levels (held_handles P)) (\<lambda>(fo, io) v x. idle_ok m ((handles P)[j := fo]) io v x) c v x)"

definition sys_inv :: "('p \<Rightarrow> bool) \<Rightarrow> ('k \<Rightarrow> 'p \<Rightarrow> view) \<Rightarrow> ('p, 'k) system \<Rightarrow> bool" where
  "sys_inv m view s \<longleftrightarrow>
     (\<forall>p q b. p \<noteq> q \<longrightarrow> compat (view (kernel s) p b) (view (kernel s) q b)) \<and>
     (\<forall>p. \<exists>x. (x \<longrightarrow> excl_view (view (kernel s) p) \<and> (\<forall>q. q \<noteq> p \<longrightarrow> no_range (view (kernel s) q))) \<and>
        proc_ok (m p) (procs s p) (view (kernel s) p) x)"

lemma apart_ino: "ino_ok m H i v x \<Longrightarrow> apart H"
proof -
  assume a: "ino_ok m H i v x"
  then have "EXCLUSIVE_LOCK \<in># H \<Longrightarrow> nShared i = 1" by (auto simp: ino_ok_def)
  then show ?thesis using a by (auto simp: ino_ok_def apart_def)
qed

lemma high_mono: "high a \<Longrightarrow> a \<le> b \<Longrightarrow> high b"
  by (auto simp: high_def)

lemma apart_lower: "apart (add_mset L R) \<Longrightarrow> L' \<le> L \<Longrightarrow> apart (add_mset L' R)"
  using high_mono [of L' L] by (cases "L' = EXCLUSIVE_LOCK"; cases L; cases L') (auto simp: apart_def)

lemma idle_apart: "idle_ok m fs io v x \<Longrightarrow> apart (levels fs)"
  by (auto simp: idle_ok_def apart_def dest: apart_ino split: option.splits)

lemma mid_lower:
  "mid m (add_mset L R) v x \<Longrightarrow> L' \<in> {NO_LOCK, SHARED_LOCK} \<Longrightarrow> L' \<le> L \<Longrightarrow> mid m (add_mset L' R) v x"
  by (cases L) (auto simp: backed_def)

section \<open>Calls\<close>

lemma check_ok:
  assumes "mid m H v x" "eFileLock f \<le> SHARED_LOCK" "\<And>f' :: unixFile. eFileLock f' = eFileLock f \<Longrightarrow> excl f' = excl f \<Longrightarrow> rdonly f' = rdonly f \<Longrightarrow> Q (Some f', Some i) v x"
  shows "call_ok m H Q (begin_call CheckReserved f i) v x"
proof -
  have s: "Q (Some (storeLastErrno f n), Some i) v x" for n by (rule assms(3)) simp_all
  show ?thesis using assms(1,2) assms(3) [of f] s
    by (auto simp: unixCheckReservedLock_def split: sum.splits)
qed

lemma set_update_Some: "Some f \<in> set (fs[j := fo]) \<Longrightarrow> Some f \<in> set fs \<or> fo = Some f"
  using set_update_subset_insert [of fs j fo] by auto

lemma call_begins:
  assumes ok: "idle_ok m fs (Some i) v x" and j: "j < length fs" "fs ! j = Some f" and legal: "legal r f"
  shows "call_ok m (levels (fs[j := Some (f\<lparr>eFileLock := min (eFileLock f) (limit r)\<rparr>)]))
    (\<lambda>(fo, io) v x. idle_ok m (fs[j := fo]) io v x) (begin_call r f i) v x"
proof -
  obtain R where R: "levels fs = add_mset (eFileLock f) R" "\<And>g. levels (fs[j := Some g]) = add_mset (eFileLock g) R"
    "levels (fs[j := None]) = R" using levels_split [OF j] by blast
  have inv: "ino_ok m (add_mset (eFileLock f) R) i v x" and ref: "nRef i = Suc (size R)"
    using ok R by (simp_all add: idle_ok_def)
  have flags: "excl_mode g = m" if "Some g \<in> set (fs[j := fo])" "\<And>f'. fo = Some f' \<Longrightarrow> excl_mode f' = m" for g fo
    using set_update_Some [OF that(1)] that(2) ok by (auto simp: idle_ok_def)
  have m: "excl_mode f \<longleftrightarrow> m" using ok j nth_mem [OF j(1)] by (auto simp: idle_ok_def)
  have keep: "idle_ok m (fs[j := Some f']) (Some i') w y"
    if "call_post m R f i (rc, f', i') w y" for rc f' i' w y
    using that R(2) ref flags [of _ "Some f'"] m unfolding call_post_def idle_ok_def by auto
  have max: "min L EXCLUSIVE_LOCK = L" for L by (cases L) (simp_all add: min_def)
  show ?thesis
  proof (cases r)
    case (Lock level)
    have "call_ok m (add_mset (eFileLock f) R) (call_post m R f i) (unixLock f i level) v x"
      using legal Lock by (intro unixLock_ok inv m) simp
    then show ?thesis using Lock R(2) keep
      by (auto simp: call_ok_map max elim!: call_ok_mono)
  next
    case (Unlock level)
    have "level \<in> {NO_LOCK, SHARED_LOCK}" using legal Unlock by (cases level) simp_all
    from posixUnlock_ok [OF inv m this] show ?thesis using Unlock R(2) keep
      by (auto simp: call_ok_map unixUnlock_def elim!: call_ok_mono)
  next
    case CheckReserved
    have "call_ok m (add_mset (eFileLock f) R) (\<lambda>(fo, io) v x. idle_ok m (fs[j := fo]) io v x) (begin_call CheckReserved f i) v x"
    proof (rule check_ok)
      fix f' :: unixFile assume "eFileLock f' = eFileLock f" "excl f' = excl f" "rdonly f' = rdonly f"
      then show "(\<lambda>(fo, io) v x. idle_ok m (fs[j := fo]) io v x) (Some f', Some i) v x"
        using keep [of 0 f' i v x] inv by (simp add: call_post_def)
    qed (use ino_ok_mid [OF inv] legal CheckReserved in simp_all)
    then show ?thesis using CheckReserved R(2) by (simp add: max)
  next
    case Close
    have "call_ok m (add_mset NO_LOCK R)
        (\<lambda>(rc, io) v x. case io of None \<Rightarrow> R = {#} | Some i' \<Rightarrow> ino_ok m R i' v x \<and> nRef i' = nRef i - 1 \<and> nRef i' \<noteq> 0)
        (unixClose f i) v x"
      using ref by (intro unixClose_ok [OF inv]) simp
    moreover have "idle_ok m (fs[j := None]) io w y"
      if "case io of None \<Rightarrow> R = {#} | Some i' \<Rightarrow> ino_ok m R i' w y \<and> nRef i' = nRef i - 1 \<and> nRef i' \<noteq> 0" for io w y
      using that R(3) ref flags [of _ None] unfolding idle_ok_def by (auto split: option.splits)
    moreover have "min (eFileLock f) NO_LOCK = NO_LOCK" by (cases "eFileLock f") (simp_all add: min_def)
    ultimately show ?thesis using Close R(2) by (auto simp: call_ok_map elim!: call_ok_mono)
  qed
qed

section \<open>Every step keeps the invariant\<close>

text \<open>What a system call of a process does to its locks, and what it may not do to the others.\<close>

definition os_effect :: "('p \<Rightarrow> view) \<Rightarrow> ('p \<Rightarrow> view) \<Rightarrow> 'p \<Rightarrow> bool" where
  "os_effect V V' p \<longleftrightarrow> (\<forall>q. q \<noteq> p \<longrightarrow> V' q = V q) \<and>
     (\<forall>q b. q \<noteq> p \<longrightarrow> compat (V' p b) (V q b)) \<and>
     (\<forall>q. q \<noteq> p \<and> excl_view (V q) \<and> no_range (V p) \<longrightarrow> no_range (V' p))"

lemma compat_simps [simp]: "compat F_UNLCK a" "compat a F_UNLCK" "compat a b = compat b a"
  by (auto simp: compat_def)

lemma range_mem [simp]: "SHARED_FIRST \<in> range_bytes"
  by simp

lemma os_step_ok:
  assumes os: "posix_os os view" and sep: "\<forall>p q b. p \<noteq> q \<longrightarrow> compat (view k p b) (view k q b)"
    and ok: "call_ok m H Q c (view k p) x" and st: "os_step os p c k = Some (c', k')"
    and x: "x \<longrightarrow> excl_view (view k p) \<and> (\<forall>q. q \<noteq> p \<longrightarrow> no_range (view k q))"
  shows "os_effect (view k) (view k') p \<and>
    (\<exists>x'. (x' \<longrightarrow> excl_view (view k' p) \<and> (\<forall>q. q \<noteq> p \<longrightarrow> no_range (view k q))) \<and> call_ok m H Q c' (view k' p) x')"
proof (cases c)
  case (Ret a)
  then show ?thesis using st by simp
next
  case Abort
  then show ?thesis using st by simp
next
  case (GetLk b f)
  then have "k' = k" "c' = f (os_getlk os k p b)" using st by auto
  then show ?thesis using ok GetLk x sep by (auto simp: os_effect_def)
next
  case (CloseFd h d)
  then have "c' = d" "view k' = (view k)(p := (\<lambda>_. F_UNLCK))" using st os by (auto simp: posix_os_def)
  then show ?thesis using ok CloseFd by (auto simp: os_effect_def no_range_def intro: exI [of _ False])
next
  case (SetLk l f)
  obtain e where e: "os_setlk os k p l = (e, k')" "c' = f e" using SetLk st by (auto split: prod.splits)
  show ?thesis
  proof (cases e)
    case (Some n)
    then have "view k' = view k" using os e(1) by (auto simp: posix_os_def)
    then show ?thesis using ok SetLk x sep e(2) Some by (auto simp: os_effect_def)
  next
    case None
    have v: "view k' = (view k)(p := set_range (view k p) l)"
      and free: "\<And>q b. q \<noteq> p \<Longrightarrow> in_range l b \<Longrightarrow> compat (l_type l) (view k q b)"
      using os e(1) None by (auto simp: posix_os_def)
    have g: "guarded l (view k p)" using ok SetLk by simp
    have nr: "no_range (set_range (view k p) l)" if q: "q \<noteq> p" "excl_view (view k q)" "no_range (view k p)" for q
    proof (cases "touches l \<and> l_type l \<noteq> F_UNLCK")
      case True
      then obtain b where b: "b \<in> range_bytes" "in_range l b" by (auto simp: touches_def)
      have c: "compat (l_type l) (view k q b)" "view k q b \<noteq> F_UNLCK"
        using free [OF q(1) b(2)] q(2) b(1) by (auto simp: excl_view_def has_range_def)
      then have rd: "l_type l = F_RDLCK" "\<not> wr_range (view k q)"
        using True b(1) by (auto simp: compat_def wr_range_def intro!: bexI [of _ b])
      moreover have "\<not> has_range (view k p)" using q(3) b(1) by (auto simp: has_range_def no_range_def)
      ultimately have "view k p PENDING_BYTE \<noteq> F_UNLCK" "view k q PENDING_BYTE = F_WRLCK"
        using g True q(2) by (auto simp: guarded_def excl_view_def)
      moreover have "compat (view k p PENDING_BYTE) (view k q PENDING_BYTE)" using sep q(1) by simp
      ultimately show ?thesis by (simp add: compat_def)
    next
      case False
      then show ?thesis using q(3) by (auto simp: no_range_def set_range_def touches_def)
    qed
    have "os_effect (view k) (view k') p"
      unfolding os_effect_def v using nr free sep by (auto simp: set_range_def)
    moreover have "no_range (view k q)" if "q \<noteq> p" "l_type l = F_WRLCK" "covers l" for q
      unfolding no_range_def
    proof
      fix b assume "b \<in> range_bytes"
      then have "compat F_WRLCK (view k q b)" using free [OF that(1), of b] that by (auto simp: covers_def)
      then show "view k q b = F_UNLCK" by (auto simp: compat_def)
    qed
    ultimately show ?thesis
      using ok SetLk None x e(2)
      by (auto simp: v intro!: exI [of _ "excl_view (set_range (view k p) l) \<and> (x \<or> l_type l = F_WRLCK \<and> covers l)"])
  qed
qed

lemma held_idle: "running P = None \<Longrightarrow> held_handles P = handles P"
  by (simp add: held_handles_def)

lemma step_inv:
  assumes "step os m s s'" and os: "posix_os os view" and inv: "sys_inv m view s"
  shows "sys_inv m view s'"
proof -
  have sep: "\<forall>p q b. p \<noteq> q \<longrightarrow> compat (view (kernel s) p b) (view (kernel s) q b)" using inv by (simp add: sys_inv_def)
  have proc: "\<exists>x. (x \<longrightarrow> excl_view (view (kernel s) p) \<and> (\<forall>q. q \<noteq> p \<longrightarrow> no_range (view (kernel s) q))) \<and>
        proc_ok (m p) (procs s p) (view (kernel s) p) x" for p using inv by (simp add: sys_inv_def)
  have change: "sys_inv m view (s\<lparr>procs := (procs s)(p := P')\<rparr>)"
    if "\<And>x. proc_ok (m p) (procs s p) (view (kernel s) p) x \<Longrightarrow> proc_ok (m p) P' (view (kernel s) p) x" for p P'
    using sep proc that unfolding sys_inv_def by fastforce
  from assms(1) show ?thesis
  proof cases
    case (open_file p P f)
    show ?thesis unfolding open_file(1)
    proof (rule change)
      fix x assume "proc_ok (m p) (procs s p) (view (kernel s) p) x"
      then have ok: "idle_ok (m p) (handles P) (inode P) (view (kernel s) p) x" "apart (levels (handles P))"
        using open_file by (simp_all add: proc_ok_def held_idle)
      have "ino_ok (m p) (add_mset NO_LOCK H) (i\<lparr>nRef := n\<rparr>) v x" if "ino_ok (m p) H i v x" for H i v n
        using that by (auto simp: ino_ok_def)
      then have "idle_ok (m p) (handles P @ [Some f]) (Some (findInodeInfo (inode P))) (view (kernel s) p) x"
        using ok(1) open_file by (auto simp: idle_ok_def findInodeInfo_def ino_ok_def split: option.splits)
      then show "proc_ok (m p) (P\<lparr>inode := Some (findInodeInfo (inode P)), handles := handles P @ [Some f]\<rparr>) (view (kernel s) p) x"
        using open_file idle_apart by (fastforce simp: proc_ok_def held_idle)
    qed
  next
    case (call p P j f i r)
    show ?thesis unfolding call(1)
    proof (rule change)
      fix x assume "proc_ok (m p) (procs s p) (view (kernel s) p) x"
      then have ok: "idle_ok (m p) (handles P) (Some i) (view (kernel s) p) x" "apart (levels (handles P))"
        using call by (simp_all add: proc_ok_def held_idle)
      obtain R where R: "levels (handles P) = add_mset (eFileLock f) R"
        "\<And>g. levels ((handles P)[j := Some g]) = add_mset (eFileLock g) R" using levels_split [OF call(4,5)] by blast
      have "apart (levels ((handles P)[j := Some (f\<lparr>eFileLock := min (eFileLock f) (limit r)\<rparr>)]))"
        using apart_lower [OF ok(2) [unfolded R(1)]] R(2) by simp
      then show "proc_ok (m p) (P\<lparr>running := Some (j, limit r, begin_call r f i)\<rparr>) (view (kernel s) p) x"
        using call_begins [OF ok(1) call(4,5,7)] call by (simp add: proc_ok_def held_handles_def)
    qed
  next
    case (os_call p P j l c c' k)
    obtain x where x: "x \<longrightarrow> excl_view (view (kernel s) p) \<and> (\<forall>q. q \<noteq> p \<longrightarrow> no_range (view (kernel s) q))"
      "proc_ok (m p) (procs s p) (view (kernel s) p) x" using proc by blast
    have ok: "call_ok (m p) (levels (held_handles P)) (\<lambda>(fo, io) v x. idle_ok (m p) ((handles P)[j := fo]) io v x) c (view (kernel s) p) x"
      using x(2) os_call by (simp add: proc_ok_def)
    obtain x' where eff: "os_effect (view (kernel s)) (view k) p" and
      x': "x' \<longrightarrow> excl_view (view k p) \<and> (\<forall>q. q \<noteq> p \<longrightarrow> no_range (view (kernel s) q))"
      "call_ok (m p) (levels (held_handles P)) (\<lambda>(fo, io) v x. idle_ok (m p) ((handles P)[j := fo]) io v x) c' (view k p) x'"
      using os_step_ok [OF os sep ok os_call(4) x(1)] by blast
    have same: "view k q = view (kernel s) q" if "q \<noteq> p" for q using eff that by (simp add: os_effect_def)
    have cf: "compat (view k p b) (view (kernel s) q b)" if "q \<noteq> p" for q b
      using eff that unfolding os_effect_def by blast
    have "held_handles (P\<lparr>running := Some (j, l, c')\<rparr>) = held_handles P" using os_call by (simp add: held_handles_def)
    then have P': "proc_ok (m p) (P\<lparr>running := Some (j, l, c')\<rparr>) (view k p) x'"
      using x(2) x'(2) os_call by (simp add: proc_ok_def)
    have others: "\<exists>y. (y \<longrightarrow> excl_view (view k q) \<and> (\<forall>r. r \<noteq> q \<longrightarrow> no_range (view k r))) \<and> proc_ok (m q) (procs s q) (view k q) y"
      if q: "q \<noteq> p" for q
    proof -
      obtain y where y: "y \<longrightarrow> excl_view (view (kernel s) q) \<and> (\<forall>r. r \<noteq> q \<longrightarrow> no_range (view (kernel s) r))"
        "proc_ok (m q) (procs s q) (view (kernel s) q) y" using proc by blast
      have "no_range (view k r)" if "y" "r \<noteq> q" for r
      proof (cases "r = p")
        case True
        then show ?thesis using eff y(1) that q unfolding os_effect_def by blast
      qed (use y(1) that same in simp)
      then show ?thesis using y same [OF q] by auto
    qed
    have "compat (view k a b) (view k c b)" if "a \<noteq> c" for a c b
      using sep that cf same compat_simps(3) by (cases "a = p"; cases "c = p") metis+
    moreover have "\<exists>y. (y \<longrightarrow> excl_view (view k q) \<and> (\<forall>r. r \<noteq> q \<longrightarrow> no_range (view k r))) \<and>
        proc_ok (m q) (((procs s)(p := P\<lparr>running := Some (j, l, c')\<rparr>)) q) (view k q) y" for q
    proof (cases "q = p")
      case True
      then show ?thesis using x'(1) P' same by (intro exI [of _ x']) auto
    qed (use others in simp)
    ultimately show ?thesis unfolding os_call(1) sys_inv_def by simp
  next
    case (return p P j l fo io)
    show ?thesis unfolding return(1)
    proof (rule change)
      fix x assume "proc_ok (m p) (procs s p) (view (kernel s) p) x"
      then show "proc_ok (m p) \<lparr>inode = io, handles = (handles P)[j := fo], running = None\<rparr> (view (kernel s) p) x"
        using return idle_apart by (fastforce simp: proc_ok_def held_idle)
    qed
  qed
qed

lemma initial_inv: "posix_os os view \<Longrightarrow> (\<forall>p b. view k p b = F_UNLCK) \<Longrightarrow> sys_inv m view (initial k)"
  by (auto simp: sys_inv_def initial_def proc_ok_def idle_ok_def held_idle apart_def compat_def intro!: exI [of _ False])

definition reachable :: "('p, 'k) os \<Rightarrow> ('p \<Rightarrow> bool) \<Rightarrow> 'k \<Rightarrow> ('p, 'k) system \<Rightarrow> bool" where
  "reachable os m k s \<longleftrightarrow> (step os m)\<^sup>*\<^sup>* (initial k) s"

lemma reachable_inv:
  assumes "reachable os m k s" "posix_os os view" "\<forall>p b. view k p b = F_UNLCK"
  shows "sys_inv m view s"
  using assms(1) unfolding reachable_def
proof (induction rule: rtranclp_induct)
  case base
  show ?case by (rule initial_inv [OF assms(2,3)])
next
  case (step y z)
  show ?case by (rule step_inv [OF step.hyps(2) assms(2) step.IH])
qed

section \<open>What the invariant gives\<close>

lemma call_ok_mid: "call_ok m H Q c v x \<Longrightarrow> mid m H v x \<and> c \<noteq> Abort"
  by (cases c) simp_all

lemma proc_mid: "proc_ok m P v x \<Longrightarrow> mid m (levels (held_handles P)) v x \<and> apart (levels (held_handles P))"
  using ino_ok_mid by (fastforce simp: proc_ok_def idle_ok_def held_idle mid_def dest: call_ok_mid split: option.splits)

lemma length_held [simp]: "length (held_handles P) = length (handles P)"
  by (simp add: held_handles_def split: option.splits)

lemma held_levels:
  assumes "held P j \<noteq> NO_LOCK"
  obtains f where "j < length (held_handles P)" "held_handles P ! j = Some f" "held P j = eFileLock f"
  using assms that by (auto simp: held_def split: if_splits option.splits)

lemma held_in: "held P j \<noteq> NO_LOCK \<Longrightarrow> held P j \<in># levels (held_handles P)"
proof -
  assume "held P j \<noteq> NO_LOCK"
  then obtain f where f: "j < length (held_handles P)" "held_handles P ! j = Some f" "held P j = eFileLock f"
    using held_levels by blast
  obtain R where "levels (held_handles P) = add_mset (eFileLock f) R" using levels_split [OF f(1,2)] by metis
  then show ?thesis using f(3) by simp
qed

lemma held_two:
  assumes "held P i \<noteq> NO_LOCK" "held P j \<noteq> NO_LOCK" "i \<noteq> j"
  obtains R where "levels (held_handles P) = add_mset (held P i) (add_mset (held P j) R)"
proof -
  obtain f where f: "i < length (held_handles P)" "held_handles P ! i = Some f" "held P i = eFileLock f"
    using held_levels [OF assms(1)] .
  obtain g where g: "j < length (held_handles P)" "held_handles P ! j = Some g" "held P j = eFileLock g"
    using held_levels [OF assms(2)] .
  obtain R where R: "levels (held_handles P) = add_mset (eFileLock f) R" "levels ((held_handles P)[i := None]) = R"
    using levels_split [OF f(1,2)] by metis
  have "j < length ((held_handles P)[i := None])" "(held_handles P)[i := None] ! j = Some g" using g assms(3) by simp_all
  then obtain R' where "levels ((held_handles P)[i := None]) = add_mset (eFileLock g) R'" using levels_split by metis
  then show thesis using that R f(3) g(3) by simp
qed

lemma excl_excludes:
  assumes inv: "sys_inv m view s" and e: "held (procs s p) i = EXCLUSIVE_LOCK" and ne: "(p, i) \<noteq> (q, j)"
  shows "held (procs s q) j = NO_LOCK"
proof (rule ccontr)
  assume q: "held (procs s q) j \<noteq> NO_LOCK"
  obtain x where x: "x \<longrightarrow> (\<forall>q. q \<noteq> p \<longrightarrow> no_range (view (kernel s) q))" "proc_ok (m p) (procs s p) (view (kernel s) p) x"
    using inv unfolding sys_inv_def by blast
  obtain y where y: "proc_ok (m q) (procs s q) (view (kernel s) q) y" using inv unfolding sys_inv_def by blast
  show False
  proof (cases "p = q")
    case True
    then have ij: "i \<noteq> j" using ne by simp
    obtain R where "levels (held_handles (procs s p)) = add_mset EXCLUSIVE_LOCK (add_mset (held (procs s p) j) R)"
      using held_two [of "procs s p" i j] e q True ij by auto
    then show False using proc_mid [OF x(2)] q True by (simp add: apart_def)
  next
    case False
    have "backed (m p) (view (kernel s) p) x EXCLUSIVE_LOCK"
      using proc_mid [OF x(2)] held_in [of "procs s p" i] e by (simp add: mid_def)
    then have "no_range (view (kernel s) q)" using x(1) False by (simp add: backed_def)
    moreover have "backed (m q) (view (kernel s) q) y (held (procs s q) j)"
      using proc_mid [OF y] held_in [OF q] by (simp add: mid_def)
    then have "has_range (view (kernel s) q)" using q by (cases "held (procs s q) j") (simp_all add: backed_def)
    ultimately show False using range_mem by (auto simp: has_range_def no_range_def)
  qed
qed

lemma high_conflict:
  assumes inv: "sys_inv m view s" and ne: "(p, i) \<noteq> (q, j)"
    and h: "held (procs s p) i \<in> {PENDING_LOCK, EXCLUSIVE_LOCK} \<and> held (procs s q) j \<in> {PENDING_LOCK, EXCLUSIVE_LOCK} \<or>
      held (procs s p) i = RESERVED_LOCK \<and> held (procs s q) j = RESERVED_LOCK"
  shows False
proof -
  let ?V = "view (kernel s)"
  obtain x where x: "proc_ok (m p) (procs s p) (?V p) x" using inv unfolding sys_inv_def by blast
  obtain y where y: "proc_ok (m q) (procs s q) (?V q) y" using inv unfolding sys_inv_def by blast
  have hn: "held (procs s p) i \<noteq> NO_LOCK" "held (procs s q) j \<noteq> NO_LOCK" "high (held (procs s p) i)" "high (held (procs s q) j)"
    using h by auto
  show False
  proof (cases "p = q")
    case True
    then have "i \<noteq> j" using ne by simp
    then obtain R where "levels (held_handles (procs s p)) = add_mset (held (procs s p) i) (add_mset (held (procs s p) j) R)"
      using held_two [of "procs s p" i j] hn True by auto
    then show False using proc_mid [OF x] hn True by (simp add: apart_def)
  next
    case False
    have b: "backed (m p) (?V p) x (held (procs s p) i)" "backed (m q) (?V q) y (held (procs s q) j)"
      using proc_mid [OF x] proc_mid [OF y] held_in hn by (simp_all add: mid_def)
    have sep: "compat (?V p b) (?V q b)" for b using inv False unfolding sys_inv_def by blast
    have ge: "SHARED_LOCK \<le> L" if "high L" for L using that by (cases L) simp_all
    have r: "has_range (?V p)" "has_range (?V q)" "m p \<longrightarrow> wr_range (?V p)" "m q \<longrightarrow> wr_range (?V q)"
      using b ge [OF hn(3)] ge [OF hn(4)] by (simp_all add: backed_def)
    have one: "?V p SHARED_FIRST \<noteq> F_UNLCK" "?V q SHARED_FIRST \<noteq> F_UNLCK"
      using r range_mem unfolding has_range_def by blast+
    then have "?V p SHARED_FIRST = F_RDLCK" "?V q SHARED_FIRST = F_RDLCK"
      using sep [of SHARED_FIRST] by (auto simp: compat_def)
    then have "\<not> wr_range (?V p)" "\<not> wr_range (?V q)" by (auto simp: wr_range_def intro!: bexI [of _ SHARED_FIRST])
    then have "\<not> m p" "\<not> m q" using r by simp_all
    then have "pending (held (procs s p) i) \<longrightarrow> ?V p PENDING_BYTE = F_WRLCK" "pending (held (procs s q) j) \<longrightarrow> ?V q PENDING_BYTE = F_WRLCK"
      "held (procs s p) i = RESERVED_LOCK \<longrightarrow> ?V p RESERVED_BYTE = F_WRLCK"
      "held (procs s q) j = RESERVED_LOCK \<longrightarrow> ?V q RESERVED_BYTE = F_WRLCK"
      using b unfolding backed_def pending_def by blast+
    then have "?V p PENDING_BYTE = F_WRLCK \<and> ?V q PENDING_BYTE = F_WRLCK \<or> ?V p RESERVED_BYTE = F_WRLCK \<and> ?V q RESERVED_BYTE = F_WRLCK"
      using h by (elim disjE) auto
    then show False using sep [of PENDING_BYTE] sep [of RESERVED_BYTE] by (auto simp: compat_def)
  qed
qed

lemma no_abort: "sys_inv m view s \<Longrightarrow> running (procs s p) \<noteq> Some (j, l, Abort)"
proof
  assume "sys_inv m view s" and r: "running (procs s p) = Some (j, l, Abort)"
  then obtain x where "proc_ok (m p) (procs s p) (view (kernel s) p) x" unfolding sys_inv_def by blast
  then show False using r by (simp add: proc_ok_def)
qed

section \<open>Running a call to its end\<close>

primrec exec :: "('p, 'k) os \<Rightarrow> 'p \<Rightarrow> 'a sys \<Rightarrow> 'k \<Rightarrow> ('a \<times> 'k) option" where
  "exec os p (Ret a) k = Some (a, k)"
| "exec os p (SetLk l c) k = exec os p (c (fst (os_setlk os k p l))) (snd (os_setlk os k p l))"
| "exec os p (GetLk b c) k = exec os p (c (os_getlk os k p b)) k"
| "exec os p (CloseFd h c) k = exec os p c (os_close os k p h)"
| "exec os p Abort k = None"

lemma exec_map: "exec os p (map_sys g c) k = map_option (\<lambda>(a, k). (g a, k)) (exec os p c k)"
  by (induction c arbitrary: k) simp_all

lemma first_step: "step os m s s1 \<Longrightarrow> (step os m)\<^sup>*\<^sup>* s1 t \<Longrightarrow> t = t' \<Longrightarrow> (step os m)\<^sup>*\<^sup>* s t'"
  by (simp add: converse_rtranclp_into_rtranclp)

lemma exec_steps:
  "exec os p c (kernel s) = Some (a, k') \<Longrightarrow> running (procs s p) = Some (j, l, c) \<Longrightarrow>
   (step os m)\<^sup>*\<^sup>* s (s\<lparr>procs := (procs s)(p := (procs s p)\<lparr>running := Some (j, l, Ret a)\<rparr>), kernel := k'\<rparr>)"
proof (induction c arbitrary: s)
  case (Ret b)
  then show ?case by (cases s) (auto simp: fun_upd_idem)
next
  case Abort
  then show ?case by simp
next
  case (SetLk lk c)
  obtain e k1 where e: "os_setlk os (kernel s) p lk = (e, k1)" by fastforce
  let ?s1 = "s\<lparr>procs := (procs s)(p := (procs s p)\<lparr>running := Some (j, l, c e)\<rparr>), kernel := k1\<rparr>"
  have "step os m s ?s1" by (rule os_call [OF refl SetLk.prems(2)]) (simp add: e)
  moreover have "(step os m)\<^sup>*\<^sup>* ?s1 (?s1\<lparr>procs := (procs ?s1)(p := (procs ?s1 p)\<lparr>running := Some (j, l, Ret a)\<rparr>), kernel := k'\<rparr>)"
    using SetLk.prems(1) e by (intro SetLk.IH) simp_all
  ultimately show ?case by (rule first_step) (cases s, auto simp: fun_eq_iff)
next
  case (GetLk b c)
  let ?s1 = "s\<lparr>procs := (procs s)(p := (procs s p)\<lparr>running := Some (j, l, c (os_getlk os (kernel s) p b))\<rparr>), kernel := kernel s\<rparr>"
  have "step os m s ?s1" by (rule os_call [OF refl GetLk.prems(2)]) simp
  moreover have "(step os m)\<^sup>*\<^sup>* ?s1 (?s1\<lparr>procs := (procs ?s1)(p := (procs ?s1 p)\<lparr>running := Some (j, l, Ret a)\<rparr>), kernel := k'\<rparr>)"
    using GetLk.prems(1) by (intro GetLk.IH) simp_all
  ultimately show ?case by (rule first_step) (cases s, auto simp: fun_eq_iff)
next
  case (CloseFd h c)
  let ?s1 = "s\<lparr>procs := (procs s)(p := (procs s p)\<lparr>running := Some (j, l, c)\<rparr>), kernel := os_close os (kernel s) p h\<rparr>"
  have "step os m s ?s1" by (rule os_call [OF refl CloseFd.prems(2)]) simp
  moreover have "(step os m)\<^sup>*\<^sup>* ?s1 (?s1\<lparr>procs := (procs ?s1)(p := (procs ?s1 p)\<lparr>running := Some (j, l, Ret a)\<rparr>), kernel := k'\<rparr>)"
    using CloseFd.prems(1) by (intro CloseFd.IH) simp_all
  ultimately show ?case by (rule first_step) (cases s, auto simp: fun_eq_iff)
qed

lemma reach_call:
  assumes "reachable os m k0 s" "running (procs s p) = None" "j < length (handles (procs s p))" "handles (procs s p) ! j = Some f"
    "inode (procs s p) = Some i" "legal r f" "exec os p (begin_call r f i) (kernel s) = Some ((fo, io), k')"
  shows "reachable os m k0 (s\<lparr>procs := (procs s)(p := \<lparr>inode = io, handles = (handles (procs s p))[j := fo], running = None\<rparr>), kernel := k'\<rparr>)"
proof -
  let ?s1 = "s\<lparr>procs := (procs s)(p := (procs s p)\<lparr>running := Some (j, limit r, begin_call r f i)\<rparr>)\<rparr>"
  let ?s2 = "?s1\<lparr>procs := (procs ?s1)(p := (procs ?s1 p)\<lparr>running := Some (j, limit r, Ret (fo, io))\<rparr>), kernel := k'\<rparr>"
  have "step os m s ?s1" by (rule call [OF refl assms(2-6)])
  moreover have "(step os m)\<^sup>*\<^sup>* ?s1 ?s2" by (rule exec_steps) (use assms(7) in simp_all)
  moreover have "step os m ?s2 (?s2\<lparr>procs := (procs ?s2)(p := \<lparr>inode = io, handles = (handles (procs ?s2 p))[j := fo], running = None\<rparr>)\<rparr>)"
    by (rule return [OF refl]) simp
  ultimately have "(step os m)\<^sup>*\<^sup>* s (?s2\<lparr>procs := (procs ?s2)(p := \<lparr>inode = io, handles = (handles (procs ?s2 p))[j := fo], running = None\<rparr>)\<rparr>)"
    by (rule converse_rtranclp_into_rtranclp [OF _ rtranclp.rtrancl_into_rtrancl])
  moreover have "?s2\<lparr>procs := (procs ?s2)(p := \<lparr>inode = io, handles = (handles (procs ?s2 p))[j := fo], running = None\<rparr>)\<rparr> =
      s\<lparr>procs := (procs s)(p := \<lparr>inode = io, handles = (handles (procs s p))[j := fo], running = None\<rparr>), kernel := k'\<rparr>"
    by (cases s) simp
  ultimately show ?thesis using assms(1) unfolding reachable_def by (metis rtranclp_trans)
qed

section \<open>A handle that is alone\<close>

definition alone :: "unixFile \<Rightarrow> unixInodeInfo \<Rightarrow> bool" where
  "alone f i \<longleftrightarrow> iFileLock i = eFileLock f \<and> nShared i = of_bool (eFileLock f \<noteq> NO_LOCK) \<and>
     nLock i = nShared i + of_bool (bProcessLock i) \<and> (\<not> bProcessLock i \<or> excl_mode f) \<and>
     (eFileLock f = NO_LOCK \<or> bProcessLock i = excl_mode f)"

lemma FileLock_cases:
  "unixFileLock f i l c = (if excl_mode f then
      if bProcessLock i then c None i else if nLock i \<noteq> 0 then Abort else
        SetLk (rng F_WRLCK) (\<lambda>e. case e of Some n \<Rightarrow> c (Some n) i | None \<Rightarrow> c None (i\<lparr>bProcessLock := True, nLock := nLock i + 1\<rparr>))
    else SetLk l (\<lambda>e. c e i))"
  by (simp add: unixFileLock_def)

lemma lock_alone:
  assumes a: "alone f i" and g: "\<forall>k l. fst (os_setlk os k p l) = None" and r: "lock_request f level"
  shows "\<exists>f' i' k'. exec os p (unixLock f i level) k = Some ((SQLITE_OK, f', i'), k') \<and> alone f' i' \<and>
    eFileLock f' = max level (eFileLock f) \<and> excl f' = excl f \<and> rdonly f' = rdonly f"
proof (cases "level \<le> eFileLock f")
  case True
  then show ?thesis using a by (auto simp: unixLock_def max_def)
next
  case False
  then have lv: "max level (eFileLock f) = level" by (simp add: max_def)
  show ?thesis
  proof (cases "excl_mode f")
    case m: True
    show ?thesis unfolding lv
      using False a g r m
      by (cases "eFileLock f"; cases level; cases "bProcessLock i")
        (simp_all add: alone_def lock_request_def unixLock_def lock_go_def lock_shared_def lock_raise_def lock_finish_def
          FileLock_first FileLock_locked)
  next
    case m: False
    show ?thesis unfolding lv
      using False a g r m
      by (cases "eFileLock f"; cases level)
        (simp_all add: alone_def lock_request_def unixLock_def lock_go_def lock_shared_def lock_raise_def lock_finish_def
          FileLock_normal)
  qed
qed

lemma exec_close_fds: "\<exists>k'. exec os p (close_fds hs c) k = exec os p c k'"
  by (induction hs arbitrary: k) auto

lemma unlock_count_alone:
  assumes "nLock i = 1 + of_bool (bProcessLock i)" "nShared i = 0" "iFileLock i = NO_LOCK" "\<not> bProcessLock i \<or> excl_mode f"
  shows "\<exists>f' i' k'. exec os p (unlock_count NO_LOCK SQLITE_OK f i) k = Some ((SQLITE_OK, f', i'), k') \<and> alone f' i' \<and>
    eFileLock f' = NO_LOCK \<and> excl f' = excl f \<and> rdonly f' = rdonly f"
proof (cases "bProcessLock i")
  case True
  then show ?thesis using assms by (simp add: unlock_count_def unlock_end_def alone_def Let_def)
next
  case False
  let ?i = "i\<lparr>nLock := 0, pUnused := []\<rparr>"
  obtain k' where "exec os p (close_fds (pUnused i) (unlock_end NO_LOCK SQLITE_OK f ?i)) k =
      exec os p (unlock_end NO_LOCK SQLITE_OK f ?i) k'"
    using exec_close_fds [of os p "pUnused i" "unlock_end NO_LOCK SQLITE_OK f ?i" k] by blast
  then show ?thesis
    using assms False by (simp add: unlock_count_def closePendingFds_def unlock_end_def alone_def Let_def)
qed

lemma unlock_alone:
  assumes a: "alone f i" and g: "\<forall>k l. fst (os_setlk os k p l) = None" and l: "level \<le> SHARED_LOCK"
  shows "\<exists>f' i' k'. exec os p (unixUnlock f i level) k = Some ((SQLITE_OK, f', i'), k') \<and> alone f' i' \<and>
    eFileLock f' = min level (eFileLock f) \<and> excl f' = excl f \<and> rdonly f' = rdonly f"
proof (cases "eFileLock f \<le> level")
  case True
  then show ?thesis using a l by (cases level) (simp_all add: unixUnlock_def posixUnlock_def min_def)
next
  case False
  then have lv: "min level (eFileLock f) = level" by (intro min.absorb1) (meson linear)
  show ?thesis
  proof (cases level)
    case NO_LOCK
    have ne: "eFileLock f \<noteq> NO_LOCK" using False NO_LOCK by auto
    have "nShared i = of_bool (eFileLock f \<noteq> NO_LOCK)" "nLock i = nShared i + of_bool (bProcessLock i)"
      and pm: "\<not> bProcessLock i \<or> excl_mode f"
      using a unfolding alone_def by blast+
    then have fi: "nLock i = 1 + of_bool (bProcessLock i)" using ne by simp
    have c: "\<exists>f' i' k'. exec os p (unlock_count NO_LOCK SQLITE_OK f
        (i\<lparr>nShared := 0, iFileLock := NO_LOCK\<rparr>)) k = Some ((SQLITE_OK, f', i'), k') \<and> alone f' i' \<and>
      eFileLock f' = NO_LOCK \<and> excl f' = excl f \<and> rdonly f' = rdonly f" for k
      by (rule unlock_count_alone) (use fi pm in simp_all)
    show ?thesis
    proof (cases "excl_mode f")
      case m: True
      show ?thesis unfolding lv using False a m c NO_LOCK
        by (cases "eFileLock f")
          (simp_all add: alone_def unixUnlock_def posixUnlock_def unlock_pending_def unlock_shared_def FileLock_locked Let_def)
    next
      case m: False
      show ?thesis unfolding lv using False a m g c NO_LOCK
        by (cases "eFileLock f")
          (simp_all add: alone_def unixUnlock_def posixUnlock_def unlock_pending_def unlock_shared_def FileLock_normal Let_def)
    qed
  next
    case SHARED_LOCK
    show ?thesis
    proof (cases "excl_mode f")
      case m: True
      show ?thesis unfolding lv using False a m SHARED_LOCK
        by (cases "eFileLock f")
          (simp_all add: alone_def unixUnlock_def posixUnlock_def unlock_pending_def unlock_shared_def unlock_end_def FileLock_locked Let_def)
    next
      case m: False
      show ?thesis unfolding lv using False a m g SHARED_LOCK
        by (cases "eFileLock f")
          (simp_all add: alone_def unixUnlock_def posixUnlock_def unlock_pending_def unlock_shared_def unlock_end_def FileLock_normal Let_def)
    qed
  qed (use l in simp_all)
qed

section \<open>Two processes and a kernel\<close>

text \<open>An instance of the operating system for two processes, which keeps the locks of each.\<close>

definition two_os :: "(bool, bool \<Rightarrow> view) os" where
  "two_os = \<lparr>
     os_setlk = (\<lambda>k p l.
       if l_type l \<noteq> F_UNLCK \<and> (l_len l = 0 \<or>
         (\<exists>b\<in>set [l_start l..<l_start l + l_len l]. \<not> compat (l_type l) (k (\<not> p) b)))
       then (Some 11, k) else (None, k(p := set_range (k p) l))),
     os_getlk = (\<lambda>k p b. Inr (k (\<not> p) b \<noteq> F_UNLCK)),
     os_close = (\<lambda>k p h. k(p := (\<lambda>_. F_UNLCK)))\<rparr>"

lemma two_os_posix: "posix_os two_os (\<lambda>k. k)"
proof -
  have "compat (l_type l) (k q b)"
    if "\<not> (l_type l \<noteq> F_UNLCK \<and> (l_len l = 0 \<or> (\<exists>b\<in>set [l_start l..<l_start l + l_len l]. \<not> compat (l_type l) (k (\<not> p) b))))"
      "q \<noteq> p" "in_range l b" for l p q b and k :: "bool \<Rightarrow> view"
  proof (cases "l_type l = F_UNLCK")
    case False
    moreover have "q = (\<not> p)" using that(2) by auto
    ultimately show ?thesis using that by (auto simp: in_range_def)
  qed simp
  then show ?thesis by (auto simp: posix_os_def two_os_def split: if_splits)
qed

definition new_handle :: unixFile where
  "new_handle = \<lparr>eFileLock = NO_LOCK, fd = 3, excl = False, rdonly = False, lastErrno = 0\<rparr>"

lemma reach_open:
  assumes "reachable os m k s" "running (procs s p) = None" "excl_mode f = m p" "eFileLock f = NO_LOCK"
  shows "reachable os m k (s\<lparr>procs := (procs s)(p := (procs s p)\<lparr>inode := Some (findInodeInfo (inode (procs s p))),
    handles := handles (procs s p) @ [Some f]\<rparr>)\<rparr>)"
proof -
  have "step os m s (s\<lparr>procs := (procs s)(p := (procs s p)\<lparr>inode := Some (findInodeInfo (inode (procs s p))),
    handles := handles (procs s p) @ [Some f]\<rparr>)\<rparr>)"
    by (rule open_file [OF refl]) (use assms in simp_all)
  with assms(1) show ?thesis unfolding reachable_def by (rule rtranclp.rtrancl_into_rtrancl)
qed

abbreviation ino0 :: unixInodeInfo where
  "ino0 \<equiv> \<lparr>nShared = 0, iFileLock = NO_LOCK, bProcessLock = False, nRef = 1, nLock = 0, pUnused = []\<rparr>"

text \<open>A reachable state in which one process has the exclusive lock and another has the file open.\<close>

lemma exclusive_reachable:
  "\<exists>s. reachable two_os (\<lambda>_. False) (\<lambda>_ _. F_UNLCK) s \<and> held (procs s True) 0 = EXCLUSIVE_LOCK \<and>
     length (handles (procs s False)) = 1"
proof -
  let ?K = "\<lambda>(_ :: bool) (_ :: nat). F_UNLCK"
  define s0 :: "(bool, bool \<Rightarrow> view) system" where "s0 = initial ?K"
  define s1 where "s1 = s0\<lparr>procs := (procs s0)(True := \<lparr>inode = Some ino0, handles = [Some new_handle], running = None\<rparr>)\<rparr>"
  define s2 where "s2 = s1\<lparr>procs := (procs s1)(False := \<lparr>inode = Some ino0, handles = [Some new_handle], running = None\<rparr>)\<rparr>"
  let ?R = "reachable two_os (\<lambda>_. False) ?K"
  have "?R s0" by (simp add: reachable_def s0_def)
  from reach_open [OF this, of True new_handle] have "?R s1"
    by (simp add: s1_def s0_def initial_def new_handle_def findInodeInfo_def)
  from reach_open [OF this, of False new_handle] have r2: "?R s2"
    by (simp add: s2_def s1_def s0_def initial_def new_handle_def findInodeInfo_def)
  have k2: "kernel s2 = ?K" by (simp add: s2_def s1_def s0_def initial_def)
  have p2: "procs s2 True = \<lparr>inode = Some ino0, handles = [Some new_handle], running = None\<rparr>"
    "procs s2 False = \<lparr>inode = Some ino0, handles = [Some new_handle], running = None\<rparr>"
    by (simp_all add: s2_def s1_def)
  let ?f = "new_handle\<lparr>eFileLock := SHARED_LOCK\<rparr>" and ?i = "ino0\<lparr>nLock := 1, nShared := 1, iFileLock := SHARED_LOCK\<rparr>"
  obtain k3 where e3: "exec two_os True (begin_call (Lock SHARED_LOCK) new_handle ino0) ?K = Some ((Some ?f, Some ?i), k3)"
    and k3: "k3 False = ?K False"
    by (simp add: exec_map unixLock_def lock_go_def lock_shared_def FileLock_normal lock_finish_def new_handle_def two_os_def)
  define s3 where "s3 = s2\<lparr>procs := (procs s2)(True := \<lparr>inode = Some ?i, handles = [Some ?f], running = None\<rparr>), kernel := k3\<rparr>"
  have r3: "?R s3"
    using reach_call [OF r2, of True 0 new_handle ino0 "Lock SHARED_LOCK" "Some ?f" "Some ?i" k3] e3
    by (simp add: p2 k2 lock_request_def new_handle_def s3_def)
  let ?f' = "?f\<lparr>eFileLock := EXCLUSIVE_LOCK\<rparr>" and ?i' = "?i\<lparr>iFileLock := EXCLUSIVE_LOCK\<rparr>"
  obtain k4 where e4: "exec two_os True (begin_call (Lock EXCLUSIVE_LOCK) ?f ?i) k3 = Some ((Some ?f', Some ?i'), k4)"
    using k3 by (simp add: exec_map unixLock_def lock_go_def lock_raise_def FileLock_normal lock_finish_def new_handle_def two_os_def)
  define s4 where "s4 = s3\<lparr>procs := (procs s3)(True := \<lparr>inode = Some ?i', handles = [Some ?f'], running = None\<rparr>), kernel := k4\<rparr>"
  have r4: "?R s4"
    using reach_call [OF r3, of True 0 ?f ?i "Lock EXCLUSIVE_LOCK" "Some ?f'" "Some ?i'" k4] e4
    by (simp add: lock_request_def new_handle_def s4_def s3_def)
  moreover have "held (procs s4 True) 0 = EXCLUSIVE_LOCK" "length (handles (procs s4 False)) = 1"
    by (simp_all add: s4_def s3_def p2 held_def held_handles_def)
  ultimately show ?thesis by blast
qed

section \<open>Properties\<close>

text \<open>
  Property C1. Mutual exclusion. Any number of processes, each with any number of handles on the
  file, lock and unlock and close in any order; their system calls interleave in any way and may
  fail in any way. While one handle has an exclusive lock no other handle, of this or another
  process, has any; at most one has a pending or exclusive lock; and at most one has a reserved
  lock. The operating system is only assumed to do what POSIX says of advisory locks.
\<close>

theorem lock_exclusion:
  assumes "reachable os m k s" and "posix_os os view" and "\<forall>p b. view k p b = F_UNLCK" and "(p, i) \<noteq> (q, j)"
  shows "(held (procs s p) i = EXCLUSIVE_LOCK \<longrightarrow> held (procs s q) j = NO_LOCK) \<and>
    (held (procs s p) i \<ge> PENDING_LOCK \<longrightarrow> held (procs s q) j < PENDING_LOCK) \<and>
    (held (procs s p) i = RESERVED_LOCK \<longrightarrow> held (procs s q) j \<noteq> RESERVED_LOCK)"
proof -
  have inv: "sys_inv m view s" by (rule reachable_inv [OF assms(1-3)])
  show ?thesis
    using excl_excludes [OF inv _ assms(4)] high_conflict [OF inv assms(4)]
    by (cases "held (procs s q) j") (auto simp: level_cases)
qed

theorem lock_exclusion_witness:
  "\<exists>s. reachable two_os (\<lambda>_. False) (\<lambda>_ _. F_UNLCK) s \<and> held (procs s True) 0 = EXCLUSIVE_LOCK \<and>
     length (handles (procs s False)) = 1 \<and> held (procs s False) 0 = NO_LOCK"
proof -
  obtain s where s: "reachable two_os (\<lambda>_. False) (\<lambda>_ _. F_UNLCK) s" "held (procs s True) 0 = EXCLUSIVE_LOCK"
    "length (handles (procs s False)) = 1" using exclusive_reachable by blast
  then show ?thesis using lock_exclusion [OF s(1) two_os_posix, of True 0 False 0] by blast
qed

text \<open>
  Property C10. What a handle relies on is held: as long as its level says so, and whatever the
  other handles of its process do, their closing included, its process has locks on the whole
  range of shared bytes; and when the level is exclusive no other process has a lock there.
\<close>

theorem lock_backed:
  assumes "reachable os m k s" and "posix_os os view" and "\<forall>p b. view k p b = F_UNLCK" and "b \<in> range_bytes"
  shows "(held (procs s p) i \<noteq> NO_LOCK \<longrightarrow> view (kernel s) p b \<noteq> F_UNLCK) \<and>
    (held (procs s p) i = EXCLUSIVE_LOCK \<longrightarrow> (\<forall>q. q \<noteq> p \<longrightarrow> view (kernel s) q b = F_UNLCK))"
proof -
  have "sys_inv m view s" by (rule reachable_inv [OF assms(1-3)])
  then obtain x where x: "x \<longrightarrow> (\<forall>q. q \<noteq> p \<longrightarrow> no_range (view (kernel s) q))" "proc_ok (m p) (procs s p) (view (kernel s) p) x"
    unfolding sys_inv_def by blast
  have "backed (m p) (view (kernel s) p) x (held (procs s p) i)" if "held (procs s p) i \<noteq> NO_LOCK"
    using proc_mid [OF x(2)] held_in [OF that] by (simp add: mid_def)
  then show ?thesis
    using x(1) assms(4) by (cases "held (procs s p) i") (auto simp: backed_def has_range_def no_range_def)
qed

theorem lock_backed_witness:
  "\<exists>s. reachable two_os (\<lambda>_. False) (\<lambda>_ _. F_UNLCK) s \<and> kernel s True SHARED_FIRST \<noteq> F_UNLCK \<and>
     kernel s False SHARED_FIRST = F_UNLCK"
proof -
  obtain s where s: "reachable two_os (\<lambda>_. False) (\<lambda>_ _. F_UNLCK) s" "held (procs s True) 0 = EXCLUSIVE_LOCK"
    using exclusive_reachable by blast
  then show ?thesis using lock_backed [OF s(1) two_os_posix, of SHARED_FIRST True 0] by auto
qed

text \<open>
  Property C18. No call that a client may make ever fails an assertion of the locking code, at any
  point of any interleaving.
\<close>

theorem lock_no_assert:
  assumes "reachable os m k s" and "posix_os os view" and "\<forall>p b. view k p b = F_UNLCK"
  shows "running (procs s p) \<noteq> Some (j, l, Abort)"
  using reachable_inv [OF assms] by (rule no_abort)

theorem lock_no_assert_witness:
  "\<exists>s. reachable two_os (\<lambda>_. False) (\<lambda>_ _. F_UNLCK) s \<and> held (procs s True) 0 = EXCLUSIVE_LOCK \<and>
     running (procs s True) \<noteq> Some (0, EXCLUSIVE_LOCK, Abort)"
proof -
  obtain s where s: "reachable two_os (\<lambda>_. False) (\<lambda>_ _. F_UNLCK) s" "held (procs s True) 0 = EXCLUSIVE_LOCK"
    using exclusive_reachable by blast
  then show ?thesis using lock_no_assert [OF s(1) two_os_posix, of True 0 EXCLUSIVE_LOCK] by blast
qed

text \<open>
  Property C19. Progress: when the system refuses nothing and the handle is the only one of its
  process, every legal request ends and is granted: locking gives the level asked for (or keeps a
  higher one), unlocking the lower one, and the handle can go on from there.
\<close>

theorem lock_progress:
  assumes "alone f i" and "\<forall>k l. fst (os_setlk os k p l) = None" and "lock_request f level" and "low \<le> SHARED_LOCK"
  shows "(\<exists>f' i' k'. exec os p (unixLock f i level) k = Some ((SQLITE_OK, f', i'), k') \<and> alone f' i' \<and>
      eFileLock f' = max level (eFileLock f)) \<and>
    (\<exists>f' i' k'. exec os p (unixUnlock f i low) k = Some ((SQLITE_OK, f', i'), k') \<and> alone f' i' \<and>
      eFileLock f' = min low (eFileLock f))"
  using lock_alone [OF assms(1-3), of k] unlock_alone [OF assms(1,2,4), of k] by blast

theorem lock_progress_witness:
  "\<exists>f' i' k'. exec \<lparr>os_setlk = (\<lambda>k p l. (None, k + 1)), os_getlk = (\<lambda>k p b. Inr False), os_close = (\<lambda>k p h. k)\<rparr> ()
      (unixLock new_handle ino0 SHARED_LOCK) (0 :: nat) = Some ((SQLITE_OK, f', i'), k') \<and> eFileLock f' = SHARED_LOCK"
proof -
  let ?os = "\<lparr>os_setlk = (\<lambda>(k :: nat) (p :: unit) l. (None, k + 1)), os_getlk = (\<lambda>k p b. Inr False), os_close = (\<lambda>k p h. k)\<rparr>"
  have "alone new_handle ino0" by (simp add: alone_def new_handle_def)
  moreover have "\<forall>k l. fst (os_setlk ?os k () l) = None" by simp
  moreover have "lock_request new_handle SHARED_LOCK" by (simp add: lock_request_def new_handle_def)
  moreover have "max SHARED_LOCK (eFileLock new_handle) = SHARED_LOCK" by (simp add: new_handle_def max_def)
  ultimately show ?thesis using lock_progress [of new_handle ino0 ?os "()" SHARED_LOCK SHARED_LOCK 0] by fastforce
qed

end
