(* ===== verification/LogEst.thy ===== *)
theory LogEst
  imports Prelude Complex_Main
begin

text \<open>
  The logarithmic estimates of the query planner, util.c: ten times the logarithm to base 2 of a
  number, as a \<open>LogEst\<close>, and the estimate of a sum of two numbers given by theirs. Both work with small tables, which
  are proved to hold the rounded values: the inequalities between logarithms are decided in integers, by powers.
\<close>

text \<open>A \<open>LogEst\<close> of the code is a signed 16-bit integer; sums that do not fit wrap.\<close>

type_synonym i16 = "16 word"

section \<open>Definitions\<close>

text \<open>The two loops that shift \<open>x\<close> right until it is below 16, in the portable code.\<close>

function log_reduce :: "u64 \<Rightarrow> i16 \<Rightarrow> u64 \<times> i16" where
  "log_reduce x y =
     (if x > 255 then log_reduce (drop_bit 4 x) (y + 40)
      else if x > 15 then log_reduce (drop_bit 1 x) (y + 10)
      else (x, y))"
  by pat_completeness auto
termination
proof (relation "measure (\<lambda>(x, y). unat x)")
  fix x :: u64
  show "255 < x \<Longrightarrow> ((drop_bit 4 x, y + 40), x, y) \<in> measure (\<lambda>(x, y). unat x)" for y
    unfolding in_measure prod.case unat_drop_bit by (simp add: word_less_nat_alt)
  show "15 < x \<Longrightarrow> ((drop_bit 1 x, y + 10), x, y) \<in> measure (\<lambda>(x, y). unat x)" for y
    unfolding in_measure prod.case unat_drop_bit by (simp add: word_less_nat_alt)
qed simp

text \<open>The loop that shifts a number below 8 left; it is entered with at least 2.\<close>

function log_raise :: "u64 \<Rightarrow> i16 \<Rightarrow> u64 \<times> i16" where
  "log_raise x y = (if 1 \<le> x \<and> x < 8 then log_raise (push_bit 1 x) (y - 10) else (x, y))"
  by pat_completeness auto
termination
proof (relation "measure (\<lambda>(x, y). 8 - unat x)")
  fix x :: u64 and y :: i16
  assume x: "1 \<le> x \<and> x < 8"
  then have u: "1 \<le> unat x" "unat x < 8" by (simp_all add: word_le_nat_alt word_less_nat_alt)
  then have "unat (push_bit 1 x) = 2 * unat x" by (simp add: push_bit_eq_mult unat_word_ariths(2))
  then show "((push_bit 1 x, y - 10), x, y) \<in> measure (\<lambda>(x, y). 8 - unat x)" using u by simp
qed simp

declare log_reduce.simps [simp del] log_raise.simps [simp del]

definition log_a :: "i16 list" where
  "log_a = [0, 2, 3, 5, 6, 7, 8, 9]"

definition sqlite3LogEst :: "u64 \<Rightarrow> i16" where
  "sqlite3LogEst x =
     (if x < 8 \<and> x < 2 then 0
      else let (x, y) = (if x < 8 then log_raise x 40 else log_reduce x 40)
           in log_a ! unat (x AND 7) + y - 10)"

definition log_x :: "u8 list" where
  "log_x =
     [10, 10,
      9, 9,
      8, 8,
      7, 7, 7,
      6, 6, 6,
      5, 5, 5,
      4, 4, 4, 4,
      3, 3, 3, 3, 3, 3,
      2, 2, 2, 2, 2, 2, 2]"

definition sqlite3LogEstAdd :: "i16 \<Rightarrow> i16 \<Rightarrow> i16" where
  "sqlite3LogEstAdd a b =
     (if sint a \<ge> sint b then
        if sint a > sint b + 49 then a
        else if sint a > sint b + 31 then a + 1
        else a + ucast (log_x ! nat (sint a - sint b))
      else
        if sint b > sint a + 49 then b
        else if sint b > sint a + 31 then b + 1
        else b + ucast (log_x ! nat (sint b - sint a)))"

section \<open>The estimate of a number\<close>

lemma above: "x > 255 \<longleftrightarrow> 255 < unat x" "x > 15 \<longleftrightarrow> 15 < unat x" for x :: u64
  by (simp_all add: word_less_nat_alt)

lemma log_reduce_ok:
  "2 ^ (k + 3) \<le> unat x \<Longrightarrow> unat x < 2 ^ (k + 4) \<Longrightarrow>
   \<exists>x'. log_reduce x y = (x', y + of_nat (10 * k)) \<and> unat x' = unat x div 2 ^ k"
proof (induction k arbitrary: x y rule: less_induct)
  case (less k)
  have less_pow: "unat x < n \<Longrightarrow> n = 2 ^ m \<Longrightarrow> k + 3 < m" for n m
  proof -
    assume "unat x < n" "n = 2 ^ m"
    then have "(2::nat) ^ (k + 3) < 2 ^ m" using less.prems(1) by linarith
    then show "k + 3 < m" by (simp only: power_strict_increasing_iff one_less_numeral_iff semiring_norm)
  qed
  have pow_less: "n \<le> unat x \<Longrightarrow> n = 2 ^ m \<Longrightarrow> m < k + 4" for n m
  proof -
    assume "n \<le> unat x" "n = 2 ^ m"
    then have "(2::nat) ^ m < 2 ^ (k + 4)" using less.prems(2) by linarith
    then show "m < k + 4" by (simp only: power_strict_increasing_iff one_less_numeral_iff semiring_norm)
  qed
  have step: "2 ^ (j + 3) \<le> unat (drop_bit i x)" "unat (drop_bit i x) < 2 ^ (j + 4)" "unat (drop_bit i x) div 2 ^ j = unat x div 2 ^ k"
    if "k = j + i" for i j
  proof -
    have p: "(2::nat) ^ (k + 3) = 2 ^ (j + 3) * 2 ^ i" "(2::nat) ^ (k + 4) = 2 ^ (j + 4) * 2 ^ i" "(2::nat) ^ k = 2 ^ i * 2 ^ j"
      unfolding that by (simp_all add: power_add)
    show "2 ^ (j + 3) \<le> unat (drop_bit i x)" "unat (drop_bit i x) < 2 ^ (j + 4)" "unat (drop_bit i x) div 2 ^ j = unat x div 2 ^ k"
      using less.prems unfolding unat_drop_bit p by (simp_all add: less_eq_div_iff_mult_less_eq div_less_iff_less_mult div_mult2_eq)
  qed
  consider "255 < unat x" | "15 < unat x" "unat x \<le> 255" | "unat x \<le> 15" by linarith
  then show ?case
  proof cases
    case 1
    then have "256 \<le> unat x" by simp
    then have "8 < k + 4" by (rule pow_less) simp
    then have "k = (k - 4) + 4" by simp
    then obtain j where j: "k = j + 4" by blast
    obtain x' where "log_reduce (drop_bit 4 x) (y + 40) = (x', y + 40 + of_nat (10 * j))" "unat x' = unat x div 2 ^ k"
      using less.IH [OF _ step(1,2) [OF j], of "y + 40"] step(3) [OF j] j by auto
    moreover have "y + 40 + of_nat (10 * j) = y + of_nat (10 * k)" unfolding j by simp
    ultimately show ?thesis using 1 by (subst log_reduce.simps) (simp add: above)
  next
    case 2
    then have "16 \<le> unat x" by simp
    then have "4 < k + 4" by (rule pow_less) simp
    then have "k = (k - 1) + 1" by simp
    then obtain j where j: "k = j + 1" by blast
    obtain x' where "log_reduce (drop_bit 1 x) (y + 10) = (x', y + 10 + of_nat (10 * j))" "unat x' = unat x div 2 ^ k"
      using less.IH [OF _ step(1,2) [OF j], of "y + 10"] step(3) [OF j] j by auto
    moreover have "y + 10 + of_nat (10 * j) = y + of_nat (10 * k)" unfolding j by simp
    ultimately show ?thesis using 2 by (subst log_reduce.simps) (simp add: above)
  next
    case 3
    then have "unat x < 16" by simp
    then have "k + 3 < 4" by (rule less_pow) simp
    then have "k = 0" by simp
    then show ?thesis using 3 by (subst log_reduce.simps) (simp add: above)
  qed
qed

text \<open>Rounding of \<open>10 * log2 t\<close>, decided in integers.\<close>

lemma round_log:
  fixes t e :: nat
  assumes "2 ^ (2 * e) < 2 * t ^ 20" "t ^ 20 < 2 * 2 ^ (2 * e)"
  shows "round (10 * log 2 (real t)) = int e"
proof -
  have t: "0 < t" using assms(1) by (cases t) auto
  then have lt: "log 2 (real (2 * t ^ 20)) = 1 + 20 * log 2 (real t)" by (simp add: log_mult log_nat_power)
  have le: "log 2 (real (2 ^ (2 * e))) = 2 * real e" "log 2 (real (2 * 2 ^ (2 * e))) = 1 + 2 * real e"
    by (simp_all add: log_mult log_nat_power)
  have mono: "log 2 (real a) < log 2 (real b)" if "a < b" "0 < a" for a b :: nat
    using that by (subst log_less_cancel_iff) simp_all
  have "log 2 (real (2 ^ (2 * e))) < log 2 (real (2 * t ^ 20))" using assms(1) by (intro mono) simp_all
  moreover have "log 2 (real (t ^ 20)) < log 2 (real (2 * 2 ^ (2 * e)))" using assms(2) t by (intro mono) simp_all
  moreover have "log 2 (real (t ^ 20)) = 20 * log 2 (real t)" using t by (simp add: log_nat_power)
  ultimately have "\<bar>10 * log 2 (real t) - real_of_int (int e)\<bar> < 1 / 2" unfolding lt le abs_less_iff of_int_of_nat_eq by linarith
  then show ?thesis by (rule round_unique')
qed

lemma log_a_rounds: "m \<in> {8..15} \<Longrightarrow> 2 ^ (60 + 2 * unat (log_a ! (m - 8))) < (2::nat) * m ^ 20 \<and> m ^ 20 < (2::nat) * 2 ^ (60 + 2 * unat (log_a ! (m - 8))) \<and> unat (log_a ! (m - 8)) \<le> 9"
proof -
  assume "m \<in> {8..15}"
  then have "m = 8 \<or> m = 9 \<or> m = 10 \<or> m = 11 \<or> m = 12 \<or> m = 13 \<or> m = 14 \<or> m = 15" by auto
  then show ?thesis by (elim disjE) (simp_all add: log_a_def)
qed

lemma sint_low: "unat (w :: i16) < 32768 \<Longrightarrow> sint w = int (unat w)"
proof -
  assume "unat w < 32768"
  moreover have u: "int (unat w) = uint w" by simp
  ultimately have "uint w < 32768" by linarith
  moreover have "- 32768 \<le> uint w" by (rule order_trans [OF _ unsigned_greater_eq]) simp
  ultimately show ?thesis unfolding sint_uint u by (subst signed_take_bit_int_eq_self) simp_all
qed

lemma LogEst_large:
  assumes "2 ^ (k + 3) \<le> unat x" "unat x < 2 ^ (k + 4)"
  shows "sint (sqlite3LogEst x) = round (10 * log 2 (real (unat x div 2 ^ k * 2 ^ k)))"
proof -
  obtain x' where x': "log_reduce x 40 = (x', 40 + of_nat (10 * k))" "unat x' = unat x div 2 ^ k"
    using log_reduce_ok [OF assms] by blast
  define m where "m = unat x div 2 ^ k"
  have "(2::nat) ^ (k + 3) = 8 * 2 ^ k" "(2::nat) ^ (k + 4) = 16 * 2 ^ k" by (simp_all add: power_add)
  then have m: "m \<in> {8..15}"
    using assms less_eq_div_iff_mult_less_eq [of "2 ^ k" 8 "unat x"] div_less_iff_less_mult [of "2 ^ k" "unat x" 16] by (simp add: m_def)
  have "(2::nat) ^ (k + 3) < 2 ^ 64" using assms(1) unsigned_less [of x, where 'a = nat] by simp
  then have "k + 3 < 64" by (simp only: power_strict_increasing_iff one_less_numeral_iff semiring_norm)
  then have k: "k \<le> 60" by simp
  have "8 \<le> unat x" using assms(1) power_increasing [of 3 "k + 3" "2::nat"] by simp
  then have big: "\<not> x < 8" by (simp add: word_less_nat_alt)
  have idx: "unat (x' AND 7) = m - 8"
  proof -
    have "unat (x' AND mask 3) = m mod 8" 
      unfolding m_def x'(2) [symmetric] by (simp only: take_bit_eq_mask [symmetric] unsigned_take_bit_eq) (simp add: take_bit_eq_mod)
    moreover have "(7 :: u64) = mask 3" by (simp add: mask_eq_exp_minus_1)
    moreover have "m mod 8 = m - 8" using m le_mod_geq [of 8 m] by auto
    ultimately show ?thesis by simp
  qed
  define a where "a = unat (log_a ! (m - 8))"
  note t = log_a_rounds [OF m, folded a_def]
  have est: "sqlite3LogEst x = of_nat (30 + 10 * k + a)"
    using big x'(1) idx by (simp add: sqlite3LogEst_def a_def)
  have "unat (of_nat (30 + 10 * k + a) :: i16) = 30 + 10 * k + a" using k t by (simp only: unat_of_nat) simp
  then have s: "sint (sqlite3LogEst x) = int (30 + 10 * k + a)" unfolding est using k t by (subst sint_low) simp_all
  have p: "(2::nat) ^ (2 * (30 + 10 * k + a)) = 2 ^ (60 + 2 * a) * (2 ^ k) ^ 20"
    by (simp add: power_add power_mult [symmetric] algebra_simps)
  have "round (10 * log 2 (real (m * 2 ^ k))) = int (30 + 10 * k + a)"
    using t by (intro round_log) (simp_all only: p power_mult_distrib mult.assoc [symmetric] mult_less_cancel2, simp_all)
  then show ?thesis unfolding s m_def by simp
qed

lemma LogEst_small: "sint (sqlite3LogEst 1) = round (10 * log 2 1)" "x \<in> {2, 3, 4, 5, 6, 7} \<Longrightarrow> sint (sqlite3LogEst x) = round (10 * log 2 (real (unat x)))"
proof -
  have v: "sint (sqlite3LogEst 2) = 10" "sint (sqlite3LogEst 3) = 16" "sint (sqlite3LogEst 4) = 20"
    "sint (sqlite3LogEst 5) = 23" "sint (sqlite3LogEst 6) = 26" "sint (sqlite3LogEst 7) = 28" by code_simp+
  have r: "round (10 * log 2 (real 2)) = int 10" "round (10 * log 2 (real 3)) = int 16" "round (10 * log 2 (real 4)) = int 20"
    "round (10 * log 2 (real 5)) = int 23" "round (10 * log 2 (real 6)) = int 26" "round (10 * log 2 (real 7)) = int 28"
    by (rule round_log; simp)+
  show "x \<in> {2, 3, 4, 5, 6, 7} \<Longrightarrow> sint (sqlite3LogEst x) = round (10 * log 2 (real (unat x)))"
    using v r by auto
  show "sint (sqlite3LogEst 1) = round (10 * log 2 1)" by (simp add: sqlite3LogEst_def)
qed

section \<open>The estimate of a sum\<close>

text \<open>
  The logarithm of a sum is that of the larger number and a correction for the difference \<open>d\<close> of
  the two. The table rounds it, which is decided with the powers of \<open>q20\<close>, the twentieth root of two.
\<close>

definition q20 :: real where
  "q20 = 2 powr (1 / 20)"

lemma q20_pos: "1 < q20" "0 < q20 ^ n"
  by (simp_all add: q20_def)

lemma q20_power: "q20 ^ n = 2 powr (real n / 20)"
  by (simp add: q20_def powr_realpow [symmetric] powr_powr)

lemma q20_20: "q20 ^ 20 = 2"
  by (simp add: q20_power)

lemma q20_split: "q20 ^ n = 2 ^ (n div 20) * q20 ^ (n mod 20)"
proof -
  have "q20 ^ n = q20 ^ (20 * (n div 20) + n mod 20)" by simp
  then show ?thesis by (simp only: power_add power_mult q20_20)
qed

definition q20_table :: "nat list" where
  "q20_table = [1048576, 1085553, 1123835, 1163467, 1204497, 1246974, 1290948, 1336473, 1383604, 1432397,
     1482910, 1535205, 1589344, 1645392, 1703416, 1763487, 1825676, 1890059, 1956712, 2025715]"

lemma q20_table_ok: "i < 20 \<Longrightarrow> (q20_table ! i) ^ 20 \<le> 2 ^ i * 1048576 ^ 20 \<and> 2 ^ i * 1048576 ^ 20 \<le> (q20_table ! i + 1) ^ 20"
proof -
  have "list_all (\<lambda>i. (q20_table ! i) ^ 20 \<le> 2 ^ i * 1048576 ^ 20 \<and> 2 ^ i * 1048576 ^ 20 \<le> (q20_table ! i + 1) ^ 20) [0..<20]"
    by (simp add: q20_table_def upt_rec)
  moreover assume "i < 20"
  ultimately show ?thesis unfolding list_all_iff by simp
qed

definition q20_low :: "nat \<Rightarrow> nat" where
  "q20_low n = 2 ^ (n div 20) * q20_table ! (n mod 20)"

definition q20_high :: "nat \<Rightarrow> nat" where
  "q20_high n = 2 ^ (n div 20) * (q20_table ! (n mod 20) + 1)"

lemma q20_between: "real (q20_low n) \<le> 1048576 * q20 ^ n" "1048576 * q20 ^ n \<le> real (q20_high n)"
proof -
  let ?i = "n mod 20" and ?t = "q20_table ! (n mod 20)"
  have t: "?t ^ 20 \<le> 2 ^ ?i * 1048576 ^ 20" "2 ^ ?i * 1048576 ^ 20 \<le> (?t + 1) ^ 20"
    using q20_table_ok [of ?i] by simp_all
  have p: "(1048576 * q20 ^ ?i) ^ 20 = real (2 ^ ?i * 1048576 ^ 20)"
    by (simp only: power_mult_distrib power_mult [symmetric] mult.commute [of ?i 20]) (simp only: power_mult q20_20, simp)
  have pos: "0 \<le> 1048576 * q20 ^ ?i" using q20_pos(2) [of ?i] by simp
  have "real ?t ^ 20 \<le> (1048576 * q20 ^ ?i) ^ 20" unfolding p using t(1) by (simp only: of_nat_power [symmetric] of_nat_le_iff)
  then have l: "real ?t \<le> 1048576 * q20 ^ ?i" using pos by (rule power_le_imp_le_base [where n = 19, simplified])
  have "(1048576 * q20 ^ ?i) ^ 20 \<le> real (?t + 1) ^ 20" unfolding p using t(2) by (simp only: of_nat_power [symmetric] of_nat_le_iff)
  then have h: "1048576 * q20 ^ ?i \<le> real (?t + 1)" by (rule power_le_imp_le_base [where n = 19, simplified]) simp
  show "real (q20_low n) \<le> 1048576 * q20 ^ n" "1048576 * q20 ^ n \<le> real (q20_high n)"
    unfolding q20_split [of n] q20_low_def q20_high_def mult.left_commute [of _ "2 ^ (n div 20)"] of_nat_mult of_nat_power of_nat_numeral
    using l h by (auto intro!: mult_left_mono)
qed

text \<open>The correction \<open>e\<close> is right for the difference \<open>d\<close>.\<close>

definition q20_check :: "nat \<Rightarrow> nat \<Rightarrow> bool" where
  "q20_check d e \<longleftrightarrow> (e = 0 \<or> q20_high (2 * d + 2 * e - 1) < q20_low (2 * d) + 1048576) \<and>
     q20_high (2 * d) + 1048576 < q20_low (2 * d + 2 * e + 1)"

lemma log_root: "log 2 (q20 ^ n) = real n / 20"
  by (simp add: q20_power)

definition correction :: "nat \<Rightarrow> real" where
  "correction d = 10 * log 2 (1 + 2 powr (- (real d / 10)))"

lemma correction_root: "correction d = 10 * log 2 (q20 ^ (2 * d) + 1) - real d"
proof -
  have "1 + 2 powr (- (real d / 10)) = (q20 ^ (2 * d) + 1) / q20 ^ (2 * d)"
    using q20_pos(2) [of "2 * d"] by (simp add: q20_power powr_minus field_simps)
  moreover have "0 < q20 ^ (2 * d)" "0 < q20 ^ (2 * d) + 1" using q20_pos(2) [of "2 * d"] by simp_all
  ultimately have "log 2 (1 + 2 powr (- (real d / 10))) = log 2 (q20 ^ (2 * d) + 1) - log 2 (q20 ^ (2 * d))"
    using q20_pos(1) by (simp add: log_divide)
  then show ?thesis unfolding correction_def log_root by simp
qed

lemma correction_between:
  assumes "e = 0 \<or> q20 ^ (2 * d + 2 * e - 1) < q20 ^ (2 * d) + 1" "q20 ^ (2 * d) + 1 < q20 ^ (2 * d + 2 * e + 1)"
  shows "round (correction d) = int e"
proof -
  have pos: "0 < q20 ^ n" "0 < q20 ^ n + 1" for n using q20_pos(2) [of n] by simp_all
  have mono: "log 2 a < log 2 b" if "a < b" "0 < a" for a b :: real using that by (subst log_less_cancel_iff) simp_all
  have "log 2 (q20 ^ (2 * d) + 1) < log 2 (q20 ^ (2 * d + 2 * e + 1))" by (rule mono [OF assms(2) pos(2)])
  then have u: "correction d < real e + 1 / 2" unfolding correction_root log_root by simp
  have "real e - 1 / 2 < correction d"
  proof (cases "e = 0")
    case True
    have "log 2 1 < log 2 (1 + 2 powr (- (real d / 10)))" by (intro mono) simp_all
    then have "0 < correction d" unfolding correction_def by simp
    then show ?thesis using True by simp
  next
    case False
    then have "log 2 (q20 ^ (2 * d + 2 * e - 1)) < log 2 (q20 ^ (2 * d) + 1)" using assms(1) by (intro mono [OF _ pos(1)]) simp
    then show ?thesis using False unfolding correction_root log_root by (simp add: of_nat_diff)
  qed
  with u have "\<bar>correction d - real_of_int (int e)\<bar> < 1 / 2" unfolding abs_less_iff of_int_of_nat_eq by linarith
  then show ?thesis by (rule round_unique')
qed

lemma q20_check_ok: "q20_check d e \<Longrightarrow> round (correction d) = int e"
proof (rule correction_between)
  assume c: "q20_check d e"
  have m: "1048576 * q20 ^ a < 1048576 * q20 ^ b + 1048576 \<Longrightarrow> q20 ^ a < q20 ^ b + 1"
    "1048576 * q20 ^ b + 1048576 < 1048576 * q20 ^ a \<Longrightarrow> q20 ^ b + 1 < q20 ^ a" for a b by linarith+
  show "e = 0 \<or> q20 ^ (2 * d + 2 * e - 1) < q20 ^ (2 * d) + 1"
  proof (cases "e = 0")
    case False
    then have "real (q20_high (2 * d + 2 * e - 1)) < real (q20_low (2 * d) + 1048576)" using c unfolding q20_check_def of_nat_less_iff by blast
    then have "q20 ^ (2 * d + 2 * e - 1) < q20 ^ (2 * d) + 1"
      using q20_between(2) [of "2 * d + 2 * e - 1"] q20_between(1) [of "2 * d"] by (intro m(1)) simp
    then show ?thesis by simp
  qed simp
  have "real (q20_high (2 * d) + 1048576) < real (q20_low (2 * d + 2 * e + 1))" using c unfolding q20_check_def of_nat_less_iff by blast
  then show "q20 ^ (2 * d) + 1 < q20 ^ (2 * d + 2 * e + 1)"
    using q20_between(2) [of "2 * d"] q20_between(1) [of "2 * d + 2 * e + 1"] by (intro m(2)) simp
qed

lemma correction_zero: "50 \<le> d \<Longrightarrow> round (correction d) = 0"
proof -
  assume d: "50 \<le> d"
  have "(32::real) = q20 ^ 100" by (simp add: q20_split [of 100])
  also have "\<dots> \<le> q20 ^ (2 * d)" using d q20_pos(1) by (intro power_increasing) simp_all
  finally have b: "32 \<le> q20 ^ (2 * d)" .
  have r: "1085553 \<le> 1048576 * q20" using q20_between(1) [of 1] by (simp add: q20_low_def q20_table_def)
  have "32 * (q20 - 1) \<le> q20 ^ (2 * d) * (q20 - 1)" using b q20_pos(1) by (intro mult_right_mono) simp_all
  moreover have "1 < 32 * (q20 - 1)" using r by simp
  ultimately have "1 < q20 ^ (2 * d) * (q20 - 1)" by (rule less_le_trans [rotated])
  then have "q20 ^ (2 * d) + 1 < q20 ^ (2 * d + 1)" by (simp add: algebra_simps)
  then show ?thesis using correction_between [of 0 d] by simp
qed

lemma log_x_rounds: "d < 49 \<Longrightarrow> round (correction d) = (if 31 < d then 1 else int (unat (log_x ! d)))"
proof -
  assume d: "d < 49"
  have "list_all (\<lambda>d. q20_check d (if 31 < d then 1 else unat (log_x ! d))) [0..<49]"
    by (simp add: q20_check_def q20_low_def q20_high_def q20_table_def log_x_def upt_rec)
  then have "q20_check d (if 31 < d then 1 else unat (log_x ! d))" using d unfolding list_all_iff by simp
  then show ?thesis by (auto dest: q20_check_ok)
qed

lemma log_sum:
  fixes A B :: int
  assumes "B \<le> A"
  shows "10 * log 2 (2 powr (A / 10) + 2 powr (B / 10)) = of_int A + correction (nat (A - B))"
proof -
  have "2 powr (A / 10) + 2 powr (B / 10) = 2 powr (A / 10) * (1 + 2 powr (- (real (nat (A - B)) / 10)))"
    using assms by (simp add: distrib_left powr_add [symmetric] field_simps)
  moreover have "0 < 1 + 2 powr (- (real (nat (A - B)) / 10))" by (simp add: add_pos_pos)
  ultimately show ?thesis by (simp add: log_mult correction_def)
qed

lemma round_int_add: "round (of_int z + y :: real) = z + round y"
  using floor_add_int [of "y + 1 / 2" z] by (simp add: round_def algebra_simps)

lemma sint_add_small:
  fixes a c :: i16
  assumes "unat c \<le> 10" "sint a + 10 < 32768"
  shows "sint (a + c) = sint a + int (unat c)"
proof -
  have c: "sint c = int (unat c)" using assms(1) by (intro sint_low) simp
  have "sint (a + c) = signed_take_bit 15 (sint a + int (unat c))" by (subst sint_word_ariths) (simp add: c)
  moreover have "- 32768 \<le> sint a" using sint_greater_eq [of a] by simp
  then have "- 32768 \<le> sint a + int (unat c)" "sint a + int (unat c) < 32768" using assms by linarith+
  then have "signed_take_bit 15 (sint a + int (unat c)) = sint a + int (unat c)" by (intro signed_take_bit_int_eq_self) simp_all
  ultimately show ?thesis by (rule trans)
qed

lemma log_x_small: "d \<le> 31 \<Longrightarrow> unat (log_x ! d) \<le> 10"
proof -
  have "\<forall>e\<in>set log_x. unat e \<le> 10" by (simp add: log_x_def)
  moreover assume "d \<le> 31"
  then have "log_x ! d \<in> set log_x" by (intro nth_mem) (simp add: log_x_def)
  ultimately show ?thesis by blast
qed

lemma LogEstAdd_larger:
  assumes "sint b \<le> sint a" "sint a + 10 < 32768"
  shows "sint (sqlite3LogEstAdd a b) = (if sint a - sint b = 49 then sint a + 1 else round (10 * log 2 (2 powr (sint a / 10) + 2 powr (sint b / 10)))) \<and>
    sqlite3LogEstAdd b a = sqlite3LogEstAdd a b"
proof -
  define d where "d = nat (sint a - sint b)"
  have d: "sint a - sint b = int d" "sint a > sint b + 49 \<longleftrightarrow> 49 < d" "sint a > sint b + 31 \<longleftrightarrow> 31 < d" using assms(1) by (auto simp: d_def)
  have add: "sqlite3LogEstAdd a b = (if 49 < d then a else if 31 < d then a + 1 else a + ucast (log_x ! d))"
    using assms(1) unfolding sqlite3LogEstAdd_def d by simp
  have r: "round (10 * log 2 (2 powr (sint a / 10) + 2 powr (sint b / 10))) = sint a + round (correction d)"
    unfolding log_sum [OF assms(1)] d_def by (rule round_int_add)
  have u: "unat (ucast w :: i16) = unat w" for w :: u8
    using unsigned_less [of w, where 'a = nat] by (simp add: unsigned_ucast_eq take_bit_eq_mod)
  have "sint (sqlite3LogEstAdd a b) = sint a + (if 49 < d then 0 else if 31 < d then 1 else int (unat (log_x ! d)))"
    using assms(2) sint_add_small [of 1 a] sint_add_small [of "ucast (log_x ! d)" a] log_x_small [of d]
    unfolding add u by simp
  moreover have "round (correction d) = (if 49 < d then 0 else if 31 < d then 1 else int (unat (log_x ! d)))" if "d \<noteq> 49"
    using that correction_zero [of d] log_x_rounds [of d] by auto
  moreover have "sqlite3LogEstAdd b a = sqlite3LogEstAdd a b"
    using assms(1) unfolding sqlite3LogEstAdd_def by (auto dest: signed_word_eqI [where 'a = int])
  ultimately show ?thesis unfolding r d(1) by auto
qed

section \<open>Properties\<close>

text \<open>
  Property C38. \<open>sqlite3LogEst x\<close> is \<open>10 * log2 x\<close>, rounded to the nearest integer, for \<open>x\<close> cut down to
  its four leading bits. \<open>sqlite3LogEstAdd\<close> is the rounded estimate of the sum of the two
  numbers that \<open>a\<close> and \<open>b\<close> estimate, in either order, where it fits in a \<open>LogEst\<close>; only at the difference 49 it is
  rounded up.
\<close>

theorem LogEst_rounds:
  assumes "2 ^ k \<le> unat x" and "unat x < 2 ^ (k + 1)" and "max (sint a) (sint b) + 10 < 32768"
  shows "sint (sqlite3LogEst x) = round (10 * log 2 (real (unat x div 2 ^ (k - 3) * 2 ^ (k - 3)))) \<and>
    sint (sqlite3LogEstAdd a b) =
      (if \<bar>sint a - sint b\<bar> = 49 then max (sint a) (sint b) + 1
       else round (10 * log 2 (2 powr (sint a / 10) + 2 powr (sint b / 10)))) \<and>
    sqlite3LogEstAdd a b = sqlite3LogEstAdd b a"
proof -
  have "sint (sqlite3LogEst x) = round (10 * log 2 (real (unat x div 2 ^ (k - 3) * 2 ^ (k - 3))))"
  proof (cases "3 \<le> k")
    case True
    then have "k - 3 + 3 = k" "k - 3 + 4 = k + 1" by simp_all
    then show ?thesis using assms(1,2) by (intro LogEst_large) simp_all
  next
    case False
    then have "k = 0 \<or> k = 1 \<or> k = 2" by linarith
    then have "unat x \<in> {1, 2, 3, 4, 5, 6, 7}" using assms(1,2) by auto
    then have "x = 1 \<or> x \<in> {2, 3, 4, 5, 6, 7}" by (auto simp: word_unat_eq_iff)
    moreover have "k - 3 = 0" using False by simp
    ultimately show ?thesis
    proof (elim disjE)
      assume "x = 1"
      then show ?thesis using LogEst_small(1) \<open>k - 3 = 0\<close> by (simp only: power_0 div_by_1 mult_1_right unat_1 of_nat_1)
    next
      assume x: "x \<in> {2, 3, 4, 5, 6, 7}"
      show ?thesis unfolding \<open>k - 3 = 0\<close> power_0 div_by_1 mult_1_right by (rule LogEst_small(2) [OF x])
    qed
  qed
  moreover have "sint (sqlite3LogEstAdd a b) =
      (if \<bar>sint a - sint b\<bar> = 49 then max (sint a) (sint b) + 1
       else round (10 * log 2 (2 powr (sint a / 10) + 2 powr (sint b / 10)))) \<and>
    sqlite3LogEstAdd a b = sqlite3LogEstAdd b a"
    using LogEstAdd_larger [of b a] LogEstAdd_larger [of a b] assms(3)
    by (cases "sint b \<le> sint a") (simp_all add: add.commute max_def)
  ultimately show ?thesis by blast
qed

theorem LogEst_rounds_witness:
  "sint (sqlite3LogEst 1000) = round (10 * log 2 (real 960)) \<and>
   sint (sqlite3LogEstAdd 33 30) = round (10 * log 2 (2 powr 3.3 + 2 powr 3))"
proof -
  have s: "sint (33 :: i16) = 33" "sint (30 :: i16) = 30" by simp_all
  have p: "2 ^ 9 \<le> unat (1000 :: u64)" "unat (1000 :: u64) < 2 ^ (9 + 1)" "max (sint (33 :: i16)) (sint (30 :: i16)) + 10 < 32768" by simp_all
  note t = LogEst_rounds [OF p]
  show ?thesis using conjunct1 [OF t] conjunct1 [OF conjunct2 [OF t]] by simp
qed

end
