(* ===== verification/MemJournal.thy ===== *)
theory MemJournal
  imports Containers "HOL-Library.Sublist"
begin

text \<open>
  The in-memory rollback journal of memjournal.c: a list of chunks that is written at its end
  and read anywhere, and that moves to a real file when it outgrows its limit. The operating
  system's file is a parameter (\<open>vfs\<close>); \<open>vfs_ok\<close> says what is relied on, and \<open>vfs_keeps\<close> what is
  of a write that fails.

  \<open>jinv p z\<close> says that the journal \<open>p\<close> holds the bytes \<open>z\<close>. Reads, writes and the move to disk are
  proved against it, and \<open>file_contract\<close> is the interface of a file that is only appended to: it
  is met by the journal that stays in memory (\<open>mj\<close>) and, given \<open>vfs_ok\<close>, by a journal of any kind.
\<close>

section \<open>The journal\<close>

record MemJournal =
  nChunkSize :: nat
  nSpill :: int
  nSize :: nat
  pFirst :: "u8 option list list"
  end_offset :: nat
  end_chunk :: "nat option"
  read_offset :: nat
  read_chunk :: "nat option"

text \<open>A journal is in memory, or its handle is that of the real file.\<close>

datatype journal = InMemory MemJournal | OnDisk

record 'w vfs =
  os_open :: "'w \<Rightarrow> nat \<times> 'w"
  os_write :: "'w \<Rightarrow> u8 list \<Rightarrow> nat \<Rightarrow> nat \<times> 'w"
  os_read :: "'w \<Rightarrow> nat \<Rightarrow> nat \<Rightarrow> nat \<times> u8 list \<times> 'w"
  os_close :: "'w \<Rightarrow> 'w"

abbreviation (input) SQLITE_IOERR_NOMEM :: nat where "SQLITE_IOERR_NOMEM \<equiv> 3082"

text \<open>The bytes of a list of cells, all of which must have been written.\<close>

definition written :: "u8 option list \<Rightarrow> u8 list option" where
  "written cs = (if None \<in> set cs then None else Some (map the cs))"

definition MEMJOURNAL_CHUNK :: nat where
  "MEMJOURNAL_CHUNK = 8 + 1024 - 16"

definition sqlite3JournalOpen :: "'w vfs \<Rightarrow> 'w \<Rightarrow> int \<Rightarrow> nat \<times> journal \<times> 'w" where
  "sqlite3JournalOpen pVfs w spill =
     (if spill = 0 then (case os_open pVfs w of (rc, w) \<Rightarrow> (rc, OnDisk, w))
      else (SQLITE_OK, InMemory \<lparr>nChunkSize = (if spill > 0 then nat spill else MEMJOURNAL_CHUNK), nSpill = spill, nSize = 0,
        pFirst = [], end_offset = 0, end_chunk = None, read_offset = 0, read_chunk = None\<rparr>, w))"

definition sqlite3MemJournalOpen :: "'w vfs \<Rightarrow> 'w \<Rightarrow> nat \<times> journal \<times> 'w" where
  "sqlite3MemJournalOpen pVfs w = sqlite3JournalOpen pVfs w (-1)"

definition sqlite3JournalIsInMemory :: "journal \<Rightarrow> bool" where
  "sqlite3JournalIsInMemory p = (case p of InMemory _ \<Rightarrow> True | OnDisk \<Rightarrow> False)"

section \<open>Reading\<close>

text \<open>The search for the chunk with offset \<open>iOfst\<close>, from the chunks at \<open>iOff\<close> on, the first of which is number \<open>i\<close>.\<close>

fun seek_chunk :: "nat \<Rightarrow> 'c list \<Rightarrow> nat \<Rightarrow> nat \<Rightarrow> nat \<Rightarrow> nat" where
  "seek_chunk n [] iOff iOfst i = i"
| "seek_chunk n (c # cs) iOff iOfst i = (if iOff + n \<le> iOfst then seek_chunk n cs (iOff + n) iOfst (i + 1) else i)"

text \<open>The loop that copies \<open>nRead\<close> bytes, from the chunk number \<open>i\<close> on: the bytes, and the chunk where it stops.\<close>

fun read_loop :: "nat \<Rightarrow> u8 option list list \<Rightarrow> nat \<Rightarrow> nat \<Rightarrow> nat \<Rightarrow> (u8 list \<times> nat option) option" where
  "read_loop n [] i iChunkOffset nRead = None"
| "read_loop n (c # cs) i iChunkOffset nRead = do {
     let iSpace = n - iChunkOffset;
     zOut \<leftarrow> written (take (min nRead iSpace) (drop iChunkOffset c));
     if nRead \<ge> iSpace then
       if cs = [] then Some (zOut, None)
       else if nRead > iSpace then do {
         (rest, q) \<leftarrow> read_loop n cs (i + 1) 0 (nRead - iSpace);
         Some (zOut @ rest, q)
       }
       else Some (zOut, Some (i + 1))
     else Some (zOut, Some i)
   }"

definition memjrnlRead :: "MemJournal \<Rightarrow> nat \<Rightarrow> nat \<Rightarrow> (nat \<times> u8 list \<times> MemJournal) option" where
  "memjrnlRead p iAmt iOfst =
     (if iAmt + iOfst > end_offset p \<or> (read_offset p \<noteq> 0 \<and> read_chunk p = None) \<or> nChunkSize p = 0 then None
      else do {
        i \<leftarrow> (if read_offset p \<noteq> iOfst \<or> iOfst = 0 then Some (seek_chunk (nChunkSize p) (pFirst p) 0 iOfst 0)
             else read_chunk p);
        (zBuf, q) \<leftarrow> read_loop (nChunkSize p) (drop i (pFirst p)) i (iOfst mod nChunkSize p) iAmt;
        Some (SQLITE_OK, zBuf,
          p\<lparr>read_offset := (if q \<noteq> None then iOfst + iAmt else 0), read_chunk := q\<rparr>)
      })"

section \<open>Writing\<close>


text \<open>A new chunk at the end of the list, its bytes not yet written.\<close>

definition new_chunk :: "bool list \<Rightarrow> MemJournal \<Rightarrow> (bool \<times> MemJournal \<times> bool list) option" where
  "new_chunk mem p =
     (case malloc mem of
        (False, mem) \<Rightarrow> Some (False, p, mem)
      | (True, mem) \<Rightarrow>
          let new = replicate (nChunkSize p) None
          in (case end_chunk p of
                Some e \<Rightarrow>
                  if pFirst p = [] then None
                  else Some (True, p\<lparr>pFirst := take (e + 1) (pFirst p) @ [new], end_chunk := Some (e + 1)\<rparr>, mem)
              | None \<Rightarrow>
                  if pFirst p \<noteq> [] then None
                  else Some (True, p\<lparr>pFirst := [new], end_chunk := Some 0\<rparr>, mem)))"

definition put_chunk :: "MemJournal \<Rightarrow> nat \<Rightarrow> u8 list \<Rightarrow> MemJournal option" where
  "put_chunk p iChunkOffset z = do {
     e \<leftarrow> end_chunk p;
     c \<leftarrow> rda (pFirst p) e;
     if iChunkOffset + length z \<le> length c then
       Some (p\<lparr>pFirst := (pFirst p)[e := take iChunkOffset c @ map Some z @ drop (iChunkOffset + length z) c],
         end_offset := end_offset p + length z\<rparr>)
     else None
   }"

function write_loop :: "bool list \<Rightarrow> MemJournal \<Rightarrow> u8 list \<Rightarrow> (nat \<times> MemJournal \<times> bool list) option" where
  "write_loop mem p zWrite =
     (if zWrite = [] then Some (SQLITE_OK, p, mem)
      else if nChunkSize p = 0 then None
      else do {
        let iChunkOffset = end_offset p mod nChunkSize p;
        let iSpace = min (length zWrite) (nChunkSize p - iChunkOffset);
        (ok, p1, mem) \<leftarrow> (if iChunkOffset = 0 then new_chunk mem p else Some (True, p, mem));
        if ok then do {
          p2 \<leftarrow> put_chunk p1 iChunkOffset (take iSpace zWrite);
          write_loop mem p2 (drop iSpace zWrite)
        }
        else Some (SQLITE_IOERR_NOMEM, p1, mem)
      })"
  by pat_completeness auto
termination
  by (relation "measure (\<lambda>(mem, p, z). length z)") auto

declare write_loop.simps [simp del]

text \<open>The chunks \<open>cs\<close>, from offset \<open>iOff\<close> on, written to the real file.\<close>

fun create_loop :: "'w vfs \<Rightarrow> 'w \<Rightarrow> u8 option list list \<Rightarrow> nat \<Rightarrow> nat \<Rightarrow> nat \<Rightarrow> (nat \<times> 'w) option" where
  "create_loop pVfs w [] iOff nChunk endOffset = Some (SQLITE_OK, w)"
| "create_loop pVfs w (c # cs) iOff nChunk endOffset = do {
     let nChunk = (if iOff + nChunk > endOffset then endOffset - iOff else nChunk);
     z \<leftarrow> written (take nChunk c);
     let (rc, w) = os_write pVfs w z iOff;
     if rc \<noteq> SQLITE_OK then Some (rc, w) else create_loop pVfs w cs (iOff + nChunk) nChunk endOffset
   }"

definition memjrnlCreateFile :: "'w vfs \<Rightarrow> 'w \<Rightarrow> MemJournal \<Rightarrow> (nat \<times> journal \<times> 'w) option" where
  "memjrnlCreateFile pVfs w p = do {
     let (rc, w) = os_open pVfs w;
     (rc, w) \<leftarrow> (if rc = SQLITE_OK then create_loop pVfs w (pFirst p) 0 (nChunkSize p) (end_offset p) else Some (rc, w));
     if rc = SQLITE_OK then Some (rc, OnDisk, w) else Some (rc, InMemory p, os_close pVfs w)
   }"

definition memjrnlWrite ::
  "'w vfs \<Rightarrow> bool list \<Rightarrow> 'w \<Rightarrow> MemJournal \<Rightarrow> u8 list \<Rightarrow> nat \<Rightarrow> (nat \<times> journal \<times> 'w \<times> bool list) option" where
  "memjrnlWrite pVfs mem w p zBuf iOfst =
     (if nSpill p > 0 \<and> int (length zBuf + iOfst) > nSpill p then do {
        (rc, j, w) \<leftarrow> memjrnlCreateFile pVfs w p;
        if rc = SQLITE_OK then (case os_write pVfs w zBuf iOfst of (rc, w) \<Rightarrow> Some (rc, j, w, mem))
        else Some (rc, j, w, mem)
      }
      else if \<not> (iOfst = end_offset p \<or> iOfst = 0) \<or> \<not> (iOfst > 0 \<or> pFirst p = []) then None
      else do {
        (rc, p, mem) \<leftarrow> write_loop mem p zBuf;
        Some (rc, InMemory (if rc = SQLITE_OK then p\<lparr>nSize := length zBuf + iOfst\<rparr> else p), w, mem)
      })"


definition memjrnlFileSize :: "MemJournal \<Rightarrow> nat" where
  "memjrnlFileSize p = end_offset p"

section \<open>The methods of a journal\<close>

definition journal_write ::
  "'w vfs \<Rightarrow> bool list \<Rightarrow> 'w \<Rightarrow> journal \<Rightarrow> u8 list \<Rightarrow> nat \<Rightarrow> (nat \<times> journal \<times> 'w \<times> bool list) option" where
  "journal_write pVfs mem w j zBuf iOfst =
     (case j of
        InMemory p \<Rightarrow> memjrnlWrite pVfs mem w p zBuf iOfst
      | OnDisk \<Rightarrow> (case os_write pVfs w zBuf iOfst of (rc, w) \<Rightarrow> Some (rc, OnDisk, w, mem)))"

definition journal_read :: "'w vfs \<Rightarrow> 'w \<Rightarrow> journal \<Rightarrow> nat \<Rightarrow> nat \<Rightarrow> (nat \<times> u8 list \<times> journal \<times> 'w) option" where
  "journal_read pVfs w j iAmt iOfst =
     (case j of
        InMemory p \<Rightarrow> map_option (\<lambda>(rc, z, p). (rc, z, InMemory p, w)) (memjrnlRead p iAmt iOfst)
      | OnDisk \<Rightarrow> (case os_read pVfs w iAmt iOfst of (rc, z, w) \<Rightarrow> Some (rc, z, OnDisk, w)))"

section \<open>What a journal in memory holds\<close>

text \<open>The written cells are a prefix, and only the last chunk has others.\<close>

definition jinv :: "MemJournal \<Rightarrow> u8 list \<Rightarrow> bool" where
  "jinv p z = (nChunkSize p > 0 \<and> (\<forall>c\<in>set (pFirst p). length c = nChunkSize p) \<and> end_offset p = length z
     \<and> (\<exists>k<nChunkSize p. concat (pFirst p) = map Some z @ replicate k None)
     \<and> end_chunk p = (if pFirst p = [] then None else Some (length (pFirst p) - 1))
     \<and> (read_offset p \<noteq> 0 \<longrightarrow> read_chunk p = Some (read_offset p div nChunkSize p) \<and> read_offset p < length (pFirst p) * nChunkSize p))"

lemma length_chunks: "\<forall>c\<in>set cs. length c = n \<Longrightarrow> length (concat cs) = length cs * n"
  by (induction cs) auto

lemma drop_chunks: "\<forall>c\<in>set cs. length c = n \<Longrightarrow> concat (drop i cs) = drop (i * n) (concat cs)"
proof (induction cs arbitrary: i)
  case (Cons c cs)
  then show ?case by (cases i) auto
qed simp

lemma seek_chunk_eq: "n > 0 \<Longrightarrow> iOff \<le> iOfst \<Longrightarrow> iOfst < iOff + length cs * n \<Longrightarrow> seek_chunk n cs iOff iOfst i = i + (iOfst - iOff) div n"
proof (induction cs arbitrary: iOff i)
  case (Cons c cs)
  show ?case
  proof (cases "iOff + n \<le> iOfst")
    case True
    then have "(iOfst - iOff) div n = Suc ((iOfst - (iOff + n)) div n)"
      using Cons.prems(1) by (simp add: le_div_geq diff_diff_eq)
    then show ?thesis using Cons True by simp
  qed (use Cons.prems in simp)
qed simp

lemma written_append: "written (xs @ ys) = do { a \<leftarrow> written xs; b \<leftarrow> written ys; Some (a @ b) }"
  by (simp add: written_def)

lemma written_Nil [simp]: "written [] = Some []"
  by (simp add: written_def)

lemma written_Some [simp]: "written (map Some z) = Some z"
  by (auto simp: written_def comp_def)

lemma read_loop_ok:
  assumes "\<forall>c\<in>set cs. length c = n" "off < n" "off + nRead \<le> length (concat cs)" "cs \<noteq> []"
    and "written (take nRead (drop off (concat cs))) = Some z"
  shows "read_loop n cs i off nRead =
     Some (z, if (off + nRead) div n < length cs then Some (i + (off + nRead) div n) else None)"
  using assms
proof (induction cs arbitrary: i off nRead z)
  case (Cons c cs)
  have n: "length c = n" "0 < n" using Cons.prems(1,2) by auto
  have split: "take nRead (drop off (concat (c # cs))) = take nRead (drop off c) @ take (nRead - (n - off)) (concat cs)"
    using n Cons.prems(2) by simp
  obtain z1 z2 where z1: "written (take nRead (drop off c)) = Some z1"
    and z2: "written (take (nRead - (n - off)) (concat cs)) = Some z2" and z: "z = z1 @ z2"
    using Cons.prems(5) unfolding split written_append by (auto split: bind_splits)
  have min: "take (min nRead (n - off)) (drop off c) = take nRead (drop off c)" using n by (simp add: min_def)
  show ?case
  proof (cases "nRead \<ge> n - off")
    case ge: True
    show ?thesis
    proof (cases "cs = []")
      case True
      then have "nRead = n - off" using Cons.prems(3) n ge by simp
      then show ?thesis using True z z1 z2 min Cons.prems(2) n by (simp add: Let_def)
    next
      case cs: False
      have e: "(off + nRead) div n = Suc ((nRead - (n - off)) div n)"
        using ge Cons.prems(2) n le_div_geq [of n "off + nRead"] by (simp add: add.commute)
      show ?thesis
      proof (cases "nRead = n - off")
        case True
        then show ?thesis using z z1 z2 e min cs n by (simp add: Let_def)
      next
        case False
        have "read_loop n cs (i + 1) 0 (nRead - (n - off)) =
            Some (z2, if (0 + (nRead - (n - off))) div n < length cs then Some (i + 1 + (0 + (nRead - (n - off))) div n) else None)"
          using Cons.prems n z2 cs by (intro Cons.IH) auto
        then show ?thesis using ge False z z1 e min cs by (simp add: Let_def)
      qed
    qed
  next
    case False
    then show ?thesis using z z1 z2 min n by (simp add: Let_def)
  qed
qed simp

lemma Read_lemma:
  assumes inv: "jinv p z" and n: "0 < iAmt" "iAmt + iOfst \<le> length z"
  shows "\<exists>p'. memjrnlRead p iAmt iOfst = Some (SQLITE_OK, take iAmt (drop iOfst z), p') \<and> jinv p' z \<and> nSpill p' = nSpill p"
proof -
  let ?n = "nChunkSize p" and ?cs = "pFirst p"
  obtain k where c: "?n > 0" "\<forall>c\<in>set ?cs. length c = ?n" "end_offset p = length z"
    and con: "concat ?cs = map Some z @ replicate k None"
    and r: "read_offset p \<noteq> 0 \<longrightarrow> read_chunk p = Some (read_offset p div ?n)"
    using inv unfolding jinv_def by blast
  let ?i = "iOfst div ?n" and ?off = "iOfst mod ?n"
  have len: "length (concat ?cs) = length ?cs * ?n" by (rule length_chunks [OF c(2)])
  have fits: "iOfst < length ?cs * ?n" "iAmt + iOfst \<le> length ?cs * ?n" using n con len by simp_all
  have i: "?i < length ?cs" using fits(1) by (simp add: less_mult_imp_div_less)
  have chunk: "(if read_offset p \<noteq> iOfst \<or> iOfst = 0 then Some (seek_chunk ?n ?cs 0 iOfst 0) else read_chunk p) = Some ?i"
    using r seek_chunk_eq [of ?n 0 iOfst ?cs 0] fits(1) c(1) by auto
  have d: "drop ?off (concat (drop ?i ?cs)) = drop iOfst (concat ?cs)"
    by (simp add: drop_chunks [OF c(2)] add.commute [of "iOfst mod ?n"])
  have "written (take iAmt (drop ?off (concat (drop ?i ?cs)))) = Some (take iAmt (drop iOfst z))"
    using n unfolding d con by (simp add: take_map drop_map)
  moreover have "?off + iAmt \<le> length (concat (drop ?i ?cs))"
  proof -
    have "length (concat (drop ?i ?cs)) = length ?cs * ?n - ?i * ?n"
      unfolding drop_chunks [OF c(2)] by (simp only: length_drop len)
    moreover have "?i * ?n + ?off = iOfst" by simp
    ultimately show ?thesis using fits(2) by linarith
  qed
  ultimately have read: "read_loop ?n (drop ?i ?cs) ?i ?off iAmt =
      Some (take iAmt (drop iOfst z), if (?off + iAmt) div ?n < length (drop ?i ?cs) then Some (?i + (?off + iAmt) div ?n) else None)"
    using c i by (intro read_loop_ok) (auto dest: in_set_dropD)
  have e: "?i + (?off + iAmt) div ?n = (iOfst + iAmt) div ?n"
  proof -
    have "iOfst + iAmt = ?off + iAmt + ?i * ?n" by simp
    then show ?thesis using c(1) by (simp only: div_mult_self1)
  qed
  let ?q = "if (iOfst + iAmt) div ?n < length ?cs then Some ((iOfst + iAmt) div ?n) else None"
  have q: "(if (?off + iAmt) div ?n < length (drop ?i ?cs) then Some (?i + (?off + iAmt) div ?n) else None) = ?q"
    using e i by auto
  have "memjrnlRead p iAmt iOfst = Some (SQLITE_OK, take iAmt (drop iOfst z),
      p\<lparr>read_offset := (if ?q \<noteq> None then iOfst + iAmt else 0), read_chunk := ?q\<rparr>)"
  proof -
    have ok: "\<not> (iAmt + iOfst > end_offset p \<or> (read_offset p \<noteq> 0 \<and> read_chunk p = None) \<or> ?n = 0)"
      using r n c by auto
    show ?thesis unfolding memjrnlRead_def if_not_P [OF ok] chunk bind.bind_lunit read q by simp
  qed
  moreover have "jinv (p\<lparr>read_offset := (if ?q \<noteq> None then iOfst + iAmt else 0), read_chunk := ?q\<rparr>) z"
    using inv unfolding jinv_def by (auto simp: div_less_iff_less_mult c(1))
  ultimately show ?thesis by simp
qed

section \<open>What writing does to it\<close>

text \<open>The invariant with room for \<open>k\<close> more bytes.\<close>

definition jroom :: "MemJournal \<Rightarrow> u8 list \<Rightarrow> nat \<Rightarrow> bool" where
  "jroom p z k = (nChunkSize p > 0 \<and> (\<forall>c\<in>set (pFirst p). length c = nChunkSize p) \<and> end_offset p = length z
     \<and> concat (pFirst p) = map Some z @ replicate k None
     \<and> end_chunk p = (if pFirst p = [] then None else Some (length (pFirst p) - 1))
     \<and> (read_offset p \<noteq> 0 \<longrightarrow> read_chunk p = Some (read_offset p div nChunkSize p) \<and> read_offset p < length (pFirst p) * nChunkSize p))"

lemma jinv_room: "jinv p z \<longleftrightarrow> (\<exists>k<nChunkSize p. jroom p z k)"
  unfolding jinv_def jroom_def by blast

lemma jinvI: "jroom p z k \<Longrightarrow> k < nChunkSize p \<Longrightarrow> jinv p z"
  using jinv_room by blast

lemma jroom_length: "jroom p z k \<Longrightarrow> length z + k = length (pFirst p) * nChunkSize p"
  using length_chunks [of "pFirst p" "nChunkSize p"] unfolding jroom_def by auto

lemma jroom_mod:
  assumes "jroom p z k" "k < nChunkSize p"
  shows "k = (if length z mod nChunkSize p = 0 then 0 else nChunkSize p - length z mod nChunkSize p)"
proof -
  let ?n = "nChunkSize p"
  have "(length z + k) mod ?n = 0" using jroom_length [OF assms(1)] by simp
  then have "(length z mod ?n + k) mod ?n = 0" by (simp add: mod_add_left_eq)
  then obtain q where q: "length z mod ?n + k = ?n * q" by (auto simp: mod_eq_0_iff_dvd)
  have "length z mod ?n < ?n" using assms(2) by simp
  then have "?n * q < ?n * 2" using q assms(2) by linarith
  then have "q = 0 \<or> q = 1" by (simp only: nat_mult_less_cancel_disj) auto
  then show ?thesis using q assms(2) by auto
qed

lemma new_chunk_ok:
  assumes "jroom p z 0"
  shows "new_chunk mem p =
      (case malloc mem of (False, mem) \<Rightarrow> Some (False, p, mem)
       | (True, mem) \<Rightarrow> Some (True, p\<lparr>pFirst := pFirst p @ [replicate (nChunkSize p) None], end_chunk := Some (length (pFirst p))\<rparr>, mem))"
  using assms by (auto simp: new_chunk_def jroom_def split: prod.split bool.split)

lemma jroom_new:
  assumes "jroom p z 0"
  shows "jroom (p\<lparr>pFirst := pFirst p @ [replicate (nChunkSize p) None], end_chunk := Some (length (pFirst p))\<rparr>) z (nChunkSize p)"
  using assms by (auto simp: jroom_def)

lemma put_chunk_ok:
  assumes room: "jroom p z k" "0 < k" "k \<le> nChunkSize p" and w: "length w \<le> k" and off: "off = nChunkSize p - k"
  shows "\<exists>p'. put_chunk p off w = Some p' \<and> jroom p' (z @ w) (k - length w) \<and> nSpill p' = nSpill p \<and> nChunkSize p' = nChunkSize p"
proof -
  let ?n = "nChunkSize p"
  have ne: "pFirst p \<noteq> []" using room(1,2) unfolding jroom_def by auto
  then obtain ds c where cs: "pFirst p = ds @ [c]" by (metis rev_exhaust)
  have len: "length c = ?n" "\<forall>d\<in>set ds. length d = ?n" and con: "concat ds @ c = map Some z @ replicate k None"
    and ends: "end_chunk p = Some (length ds)" "end_offset p = length z"
    using room(1) cs unfolding jroom_def by auto
  have "length z = length (concat ds) + off"
    using jroom_length [OF room(1)] room(3) off len length_chunks [OF len(2)] cs by (simp add: algebra_simps)
  then have pre: "concat ds @ take off c = map Some z" and suf: "drop (off + length w) c = replicate (k - length w) None"
    using arg_cong [OF con, of "take (length z)"] arg_cong [OF con, of "drop (length z + length w)"] by simp_all
  let ?p = "p\<lparr>pFirst := ds @ [take off c @ map Some w @ replicate (k - length w) None], end_offset := length (z @ w)\<rparr>"
  have "put_chunk p off w = Some ?p"
    using cs len ends off w suf room(3) by (simp add: put_chunk_def)
  moreover have "jroom ?p (z @ w) (k - length w)"
    using room(1) cs len pre off w room(3) unfolding jroom_def by (auto simp flip: append_assoc)
  ultimately show ?thesis by auto
qed

definition grown :: "MemJournal \<Rightarrow> u8 list \<Rightarrow> u8 list \<Rightarrow> nat \<times> MemJournal \<times> bool list \<Rightarrow> bool list \<Rightarrow> bool" where
  "grown p z w r mem = (case r of (rc, p', mem') \<Rightarrow>
     nSpill p' = nSpill p \<and> rc \<in> {SQLITE_OK, SQLITE_IOERR_NOMEM} \<and> (mem = [] \<longrightarrow> rc = SQLITE_OK \<and> mem' = [])
     \<and> (\<exists>k\<le>length w. jinv p' (z @ take k w) \<and> (rc = SQLITE_OK \<longrightarrow> k = length w)))"

lemma write_step:
  assumes inv: "jinv p z" and w: "w \<noteq> []" and off: "off = end_offset p mod nChunkSize p" and m: "m = min (length w) (nChunkSize p - off)"
  obtains mem' where "(if off = 0 then new_chunk mem p else Some (True, p, mem)) = Some (False, p, mem')" "mem \<noteq> []"
  | p1 p2 mem' where "(if off = 0 then new_chunk mem p else Some (True, p, mem)) = Some (True, p1, mem')"
      "put_chunk p1 off (take m w) = Some p2" "jinv p2 (z @ take m w)" "nSpill p2 = nSpill p" "mem = [] \<longrightarrow> mem' = []"
proof -
  let ?n = "nChunkSize p"
  obtain k where k: "k < ?n" "jroom p z k" using inv jinv_room by blast
  have e: "end_offset p = length z" using inv by (simp add: jinv_def)
  have offn: "off < ?n" using k(1) off by simp
  have mw: "0 < m" "m \<le> length w" "m \<le> ?n - off" using w offn m by auto
  show thesis
  proof (cases "off = 0")
    case True
    then have 0: "jroom p z 0" using jroom_mod [OF k(2,1)] k(2) off e by auto
    obtain ok mem' where mal: "malloc mem = (ok, mem')" by (cases "malloc mem")
    show thesis
    proof (cases ok)
      case False
      then show thesis using True new_chunk_ok [OF 0, of mem] mal that(1) [of mem'] by (cases mem) auto
    next
      case ok: True
      let ?p1 = "p\<lparr>pFirst := pFirst p @ [replicate ?n None], end_chunk := Some (length (pFirst p))\<rparr>"
      obtain p2 where p2: "put_chunk ?p1 off (take m w) = Some p2" "jroom p2 (z @ take m w) (?n - m)" "nSpill p2 = nSpill p" "nChunkSize p2 = ?n"
        using put_chunk_ok [OF jroom_new [OF 0], of "take m w" off] True mw offn by auto
      have j: "jinv p2 (z @ take m w)" using p2(4) mw(1) by (intro jinvI [OF p2(2)]) (use offn in simp)
      have c: "(if off = 0 then new_chunk mem p else Some (True, p, mem)) = Some (True, ?p1, mem')"
        using True ok mal by (simp add: new_chunk_ok [OF 0])
      show thesis by (rule that(2) [OF c p2(1) j p2(3)]) (use mal in auto)
    qed
  next
    case False
    then have kk: "k = ?n - off" using jroom_mod [OF k(2,1)] off e by simp
    then have pre: "0 < k" "k \<le> ?n" "length (take m w) \<le> k" "off = ?n - k" using mw offn by auto
    have "length (take m w) = m" using mw by simp
    with put_chunk_ok [OF k(2) pre] obtain p2 where
      p2: "put_chunk p off (take m w) = Some p2" "jroom p2 (z @ take m w) (k - m)" "nSpill p2 = nSpill p" "nChunkSize p2 = ?n" by auto
    have j: "jinv p2 (z @ take m w)" using p2(4) k(1) by (intro jinvI [OF p2(2)]) (use offn in simp)
    have c: "(if off = 0 then new_chunk mem p else Some (True, p, mem)) = Some (True, p, mem)" using False by simp
    show thesis by (rule that(2) [OF c p2(1) j p2(3)]) simp
  qed
qed

lemma write_loop_ok: "jinv p z \<Longrightarrow> \<exists>r. write_loop mem p w = Some r \<and> grown p z w r mem"
proof (induction "length w" arbitrary: mem p z w rule: less_induct)
  case less
  show ?case
  proof (cases "w = []")
    case True
    then show ?thesis using less.prems by (simp add: write_loop.simps grown_def)
  next
    case False
    define off where "off = end_offset p mod nChunkSize p"
    define m where "m = min (length w) (nChunkSize p - off)"
    have n: "nChunkSize p \<noteq> 0" using less.prems by (simp add: jinv_def)
    have unf: "write_loop mem p w = (do {
        (ok, p1, mem) \<leftarrow> (if off = 0 then new_chunk mem p else Some (True, p, mem));
        if ok then do { p2 \<leftarrow> put_chunk p1 off (take m w); write_loop mem p2 (drop m w) }
        else Some (SQLITE_IOERR_NOMEM, p1, mem) })"
      using False n unfolding off_def m_def by (subst write_loop.simps) (simp only: Let_def if_False)
    show ?thesis
    proof (rule write_step [OF less.prems False off_def m_def, of mem], goal_cases)
      case (1 mem')
      then show ?thesis using less.prems unfolding unf by (auto simp: grown_def intro!: exI [of _ 0])
    next
      case (2 p1 p2 mem')
      have m: "0 < m" "m \<le> length w" using False n by (auto simp: m_def off_def)
      obtain r where r: "write_loop mem' p2 (drop m w) = Some r" "grown p2 (z @ take m w) (drop m w) r mem'"
        using less.hyps [OF _ 2(3), of "drop m w" mem'] False m by auto
      obtain rc p' mem'' where rr: "r = (rc, p', mem'')" by (cases r)
      from r(2) obtain k where "k \<le> length (drop m w)" "jinv p' ((z @ take m w) @ take k (drop m w))"
          "rc = SQLITE_OK \<longrightarrow> k = length (drop m w)" "nSpill p' = nSpill p2" "rc \<in> {SQLITE_OK, SQLITE_IOERR_NOMEM}"
          "mem' = [] \<longrightarrow> rc = SQLITE_OK \<and> mem'' = []"
        unfolding grown_def rr by auto
      then have "grown p z w r mem"
        using 2 m unfolding grown_def rr by (auto simp: take_add intro!: exI [of _ "m + k"])
      then show ?thesis unfolding unf 2(1) using 2(2) r(1) by auto
    qed
  qed
qed

section \<open>Files that are only appended to\<close>

text \<open>
  A file whose writes append and whose reads are within it; either may fail, which ends a run.
\<close>

datatype file_op = Append "u8 list" | Pread nat nat

fun file_run :: "(u8 list \<Rightarrow> nat \<Rightarrow> 's \<Rightarrow> (nat \<times> 's) option) \<Rightarrow> (nat \<Rightarrow> nat \<Rightarrow> 's \<Rightarrow> (nat \<times> u8 list \<times> 's) option) \<Rightarrow>
    file_op list \<Rightarrow> nat \<Rightarrow> 's \<Rightarrow> (nat \<times> u8 list list) option" where
  "file_run fwrite fread [] pos s = Some (SQLITE_OK, [])"
| "file_run fwrite fread (Append w # ops) pos s = do {
     (rc, s) \<leftarrow> fwrite w pos s;
     if rc \<noteq> SQLITE_OK then Some (rc, []) else file_run fwrite fread ops (pos + length w) s
   }"
| "file_run fwrite fread (Pread n off # ops) pos s = do {
     (rc, y, s) \<leftarrow> fread n off s;
     if rc \<noteq> SQLITE_OK then Some (rc, [])
     else do { (rc, ys) \<leftarrow> file_run fwrite fread ops pos s; Some (rc, y # ys) }
   }"

fun file_legal :: "file_op list \<Rightarrow> nat \<Rightarrow> bool" where
  "file_legal [] pos = True"
| "file_legal (Append w # ops) pos = file_legal ops (pos + length w)"
| "file_legal (Pread n off # ops) pos = (0 < n \<and> n + off \<le> pos \<and> file_legal ops pos)"

fun file_answers :: "file_op list \<Rightarrow> u8 list \<Rightarrow> u8 list list" where
  "file_answers [] z = []"
| "file_answers (Append w # ops) z = file_answers ops (z @ w)"
| "file_answers (Pread n off # ops) z = take n (drop off z) # file_answers ops z"

locale file_contract =
  fixes holds :: "'s \<Rightarrow> u8 list \<Rightarrow> bool"
    and fwrite :: "u8 list \<Rightarrow> nat \<Rightarrow> 's \<Rightarrow> (nat \<times> 's) option" and fread :: "nat \<Rightarrow> nat \<Rightarrow> 's \<Rightarrow> (nat \<times> u8 list \<times> 's) option"
  assumes fwrite: "holds s z \<Longrightarrow> \<exists>rc s'. fwrite w (length z) s = Some (rc, s') \<and> (rc = SQLITE_OK \<longrightarrow> holds s' (z @ w))"
    and fread: "holds s z \<Longrightarrow> 0 < n \<Longrightarrow> n + off \<le> length z \<Longrightarrow>
      \<exists>rc y s'. fread n off s = Some (rc, y, s') \<and> (rc = SQLITE_OK \<longrightarrow> y = take n (drop off z) \<and> holds s' z)"
begin

lemma run_file:
  "holds s z \<Longrightarrow> file_legal ops (length z) \<Longrightarrow>
   \<exists>rc ys. file_run fwrite fread ops (length z) s = Some (rc, ys) \<and> prefix ys (file_answers ops z)
     \<and> (rc = SQLITE_OK \<longrightarrow> ys = file_answers ops z)"
proof (induction ops arbitrary: s z)
  case (Cons op ops)
  show ?case
  proof (cases op)
    case (Append w)
    then obtain rc s' where "fwrite w (length z) s = Some (rc, s')" "rc = SQLITE_OK \<longrightarrow> holds s' (z @ w)"
      using fwrite [of s z w] Cons.prems by auto
    then show ?thesis using Cons.IH [of s' "z @ w"] Cons.prems Append by auto
  next
    case (Pread n off)
    then obtain rc y s' where "fread n off s = Some (rc, y, s')" "rc = SQLITE_OK \<longrightarrow> y = take n (drop off z) \<and> holds s' z"
      using fread [of s z n off] Cons.prems by auto
    then show ?thesis using Cons.IH [of s' z] Cons.prems Pread by auto
  qed
qed simp

end

section \<open>The real file\<close>

text \<open>
  What the operating system promises of the journal file, whose content is \<open>disk w\<close> while it is
  open: it is empty when it is opened, a write within it or at its end that succeeds replaces
  bytes, and a read does not change it.
\<close>

definition vfs_ok :: "'w vfs \<Rightarrow> ('w \<Rightarrow> u8 list option) \<Rightarrow> bool" where
  "vfs_ok v disk = (
     (\<forall>w w'. os_open v w = (SQLITE_OK, w') \<longrightarrow> disk w' = Some []) \<and>
     (\<forall>w w' d z off. disk w = Some d \<and> off \<le> length d \<and> os_write v w z off = (SQLITE_OK, w') \<longrightarrow>
        disk w' = Some (take off d @ z @ drop (off + length z) d)) \<and>
     (\<forall>w w' d n off rc z. disk w = Some d \<and> n + off \<le> length d \<and> os_read v w n off = (rc, z, w') \<and> rc = SQLITE_OK \<longrightarrow>
        disk w' = Some d \<and> z = take n (drop off d)))"

lemma vfs_open: "vfs_ok v disk \<Longrightarrow> os_open v w = (SQLITE_OK, w') \<Longrightarrow> disk w' = Some []"
  unfolding vfs_ok_def by blast

lemma vfs_append: "vfs_ok v disk \<Longrightarrow> disk w = Some d \<Longrightarrow> os_write v w z (length d) = (SQLITE_OK, w') \<Longrightarrow> disk w' = Some (d @ z)"
proof -
  assume a: "vfs_ok v disk" "disk w = Some d" "os_write v w z (length d) = (SQLITE_OK, w')"
  then have "disk w' = Some (take (length d) d @ z @ drop (length d + length z) d)"
    unfolding vfs_ok_def by (metis order_refl)
  then show ?thesis by simp
qed

lemma vfs_read:
  "vfs_ok v disk \<Longrightarrow> disk w = Some d \<Longrightarrow> n + off \<le> length d \<Longrightarrow> os_read v w n off = (SQLITE_OK, z, w') \<Longrightarrow>
   disk w' = Some d \<and> z = take n (drop off d)"
  unfolding vfs_ok_def by blast

text \<open>The chunks go to the file in order; the last one is cut off at the end of the content.\<close>

lemma create_loop_ok:
  assumes "vfs_ok v disk" "\<forall>c\<in>set cs. length c = n" "concat cs = map Some z @ replicate k None" "k < n" "disk w = Some d"
  shows "\<exists>rc w'. create_loop v w cs (length d) n (length d + length z) = Some (rc, w') \<and> (rc = SQLITE_OK \<longrightarrow> disk w' = Some (d @ z))"
  using assms(2-)
proof (induction cs arbitrary: w d z)
  case (Cons c cs)
  have c: "length c = n" and cs: "\<forall>c\<in>set cs. length c = n" using Cons.prems(1) by auto
  have con: "c @ concat cs = map Some z @ replicate k None" using Cons.prems(2) by simp
  have len: "n + length cs * n = length z + k" using arg_cong [OF con, of length] length_chunks [OF cs] c by simp
  show ?case
  proof (cases "length z < n")
    case True
    then have nil: "cs = []" using len Cons.prems(3) by (cases cs) auto
    have "written (take (length z) c) = Some z"
      using arg_cong [OF con, of "take (length z)"] nil by simp
    then show ?thesis
      using True nil vfs_append [OF assms(1) Cons.prems(4), of z] by (auto simp: Let_def split: prod.split)
  next
    case False
    then have cz: "c = map Some (take n z)" and rest: "concat cs = map Some (drop n z) @ replicate k None"
      using arg_cong [OF con, of "take n"] arg_cong [OF con, of "drop n"] c by (simp_all add: take_map drop_map)
    have wr: "written (take n c) = Some (take n z)" using cz by simp
    obtain rc w1 where w1: "os_write v w (take n z) (length d) = (rc, w1)" by (cases "os_write v w (take n z) (length d)")
    show ?thesis
    proof (cases "rc = SQLITE_OK")
      case True
      then have "disk w1 = Some (d @ take n z)" using vfs_append [OF assms(1) Cons.prems(4)] w1 by simp
      from Cons.IH [OF cs rest Cons.prems(3) this] show ?thesis using w1 True False wr by (simp add: Let_def)
    next
      case rc: False
      then show ?thesis using w1 False wr by (simp add: Let_def)
    qed
  qed
qed simp

lemma CreateFile_ok:
  assumes "vfs_ok v disk" "jinv p z"
  shows "\<exists>rc j w'. memjrnlCreateFile v w p = Some (rc, j, w') \<and>
     (if rc = SQLITE_OK then j = OnDisk \<and> disk w' = Some z else j = InMemory p)"
proof -
  obtain k where p: "\<forall>c\<in>set (pFirst p). length c = nChunkSize p" "end_offset p = length z" "k < nChunkSize p"
    "concat (pFirst p) = map Some z @ replicate k None" using assms(2) unfolding jinv_def by blast
  obtain rc w1 where o: "os_open v w = (rc, w1)" by (cases "os_open v w")
  show ?thesis
  proof (cases "rc = SQLITE_OK")
    case True
    then have "disk w1 = Some []" using vfs_open [OF assms(1)] o by simp
    from create_loop_ok [OF assms(1) p(1) p(4) p(3) this] show ?thesis
      using o True p(2) by (auto simp: memjrnlCreateFile_def)
  qed (use o in \<open>simp add: memjrnlCreateFile_def\<close>)
qed

section \<open>The journal as a file\<close>

definition journal_holds :: "('w \<Rightarrow> u8 list option) \<Rightarrow> journal \<times> 'w \<times> bool list \<Rightarrow> u8 list \<Rightarrow> bool" where
  "journal_holds disk s z = (case s of (j, w, _) \<Rightarrow> (case j of InMemory p \<Rightarrow> jinv p z | OnDisk \<Rightarrow> disk w = Some z))"

definition journal_append :: "'w vfs \<Rightarrow> u8 list \<Rightarrow> nat \<Rightarrow> journal \<times> 'w \<times> bool list \<Rightarrow> (nat \<times> journal \<times> 'w \<times> bool list) option" where
  "journal_append v x off s = (case s of (j, w, mem) \<Rightarrow> journal_write v mem w j x off)"

definition journal_pread :: "'w vfs \<Rightarrow> nat \<Rightarrow> nat \<Rightarrow> journal \<times> 'w \<times> bool list \<Rightarrow> (nat \<times> u8 list \<times> journal \<times> 'w \<times> bool list) option" where
  "journal_pread v n off s = (case s of (j, w, mem) \<Rightarrow> map_option (\<lambda>(rc, z, j, w). (rc, z, j, w, mem)) (journal_read v w j n off))"

lemma jinv_nSize [simp]: "jinv (p\<lparr>nSize := m\<rparr>) z = jinv p z"
  by (simp add: jinv_def)

lemma memjrnlWrite_ok:
  assumes v: "vfs_ok v disk" and inv: "jinv p z"
  shows "\<exists>rc j w' mem'. memjrnlWrite v mem w p x (length z) = Some (rc, j, w', mem') \<and>
      (rc = SQLITE_OK \<longrightarrow> journal_holds disk (j, w', mem') (z @ x)) \<and>
      (nSpill p \<le> 0 \<longrightarrow> w' = w \<and> (\<exists>p'. j = InMemory p' \<and> nSpill p' = nSpill p) \<and> (mem = [] \<longrightarrow> rc = SQLITE_OK \<and> mem' = [])) \<and>
      (\<forall>p'. j = InMemory p' \<longrightarrow> (\<exists>k\<le>length x. jinv p' (z @ take k x)))"
proof (cases "nSpill p > 0 \<and> int (length x + length z) > nSpill p")
  case True
  obtain rc j w' where c: "memjrnlCreateFile v w p = Some (rc, j, w')"
      "if rc = SQLITE_OK then j = OnDisk \<and> disk w' = Some z else j = InMemory p"
    using CreateFile_ok [OF v inv] by blast
  then show ?thesis using True inv vfs_append [OF v, of w' z x]
    by (auto simp: memjrnlWrite_def journal_holds_def split: prod.split if_splits intro!: exI [of _ 0])
next
  case False
  obtain rc p' mem' where r: "write_loop mem p x = Some (rc, p', mem')" and g: "grown p z x (rc, p', mem') mem"
    using write_loop_ok [OF inv, of mem x] by (metis prod_cases3)
  have "length z = end_offset p" "length z > 0 \<or> pFirst p = []"
    using inv length_chunks [of "pFirst p" "nChunkSize p"] unfolding jinv_def by auto
  then show ?thesis using False r g
    by (auto simp: memjrnlWrite_def journal_holds_def grown_def)
qed

lemma journal_contract:
  assumes v: "vfs_ok v disk"
  shows "file_contract (journal_holds disk)
    (journal_append v) (journal_pread v)"
proof (unfold_locales, goal_cases)
  case (1 s z x)
  obtain j w mem where s: "s = (j, w, mem)" by (cases s)
  show ?case
  proof (cases j)
    case (InMemory p)
    then show ?thesis using memjrnlWrite_ok [OF v, of p z mem w x] 1 s by (auto simp: journal_holds_def journal_append_def journal_write_def)
  next
    case OnDisk
    then show ?thesis using vfs_append [OF v, of w z x] 1 s by (auto simp: journal_holds_def journal_append_def journal_write_def split: prod.split)
  qed
next
  case (2 s z n off)
  obtain j w mem where s: "s = (j, w, mem)" by (cases s)
  show ?case
  proof (cases j)
    case (InMemory p)
    then show ?thesis using Read_lemma [of p z n off] 2 s by (auto simp: journal_holds_def journal_pread_def journal_read_def)
  next
    case OnDisk
    then show ?thesis using vfs_read [OF v, of w z n off] 2 s by (auto simp: journal_holds_def journal_pread_def journal_read_def split: prod.split)
  qed
qed

text \<open>A journal that never leaves memory meets the contract without any operating system.\<close>

interpretation mj: file_contract "\<lambda>(p, mem) z. jinv p z \<and> nSpill p < 0"
    "\<lambda>x off (p, mem). memjrnlWrite v mem w p x off \<bind> (\<lambda>(rc, j, _, mem). case j of InMemory p \<Rightarrow> Some (rc, p, mem) | OnDisk \<Rightarrow> None)"
    "\<lambda>n off (p, mem). map_option (\<lambda>(rc, z, p). (rc, z, p, mem)) (memjrnlRead p n off)" for v :: "'w vfs" and w :: 'w
proof (unfold_locales, goal_cases)
  case (1 s z x)
  obtain p mem where s: "s = (p, mem)" "jinv p z" "nSpill p < 0" using 1 by auto
  obtain rc p' mem' where r: "write_loop mem p x = Some (rc, p', mem')" and g: "grown p z x (rc, p', mem') mem"
    using write_loop_ok [OF s(2), of mem x] by (metis prod_cases3)
  have "length z = end_offset p" "length z > 0 \<or> pFirst p = []"
    using s(2) length_chunks [of "pFirst p" "nChunkSize p"] unfolding jinv_def by auto
  then show ?case using s r g by (auto simp: memjrnlWrite_def grown_def)
next
  case (2 s z n off)
  then obtain p mem where s: "s = (p, mem)" "jinv p z" "nSpill p < 0" by auto
  then show ?case using Read_lemma [of p z n off] 2 by auto
qed

lemma jinv_open: "0 < n \<Longrightarrow> jinv \<lparr>nChunkSize = n, nSpill = sp, nSize = 0, pFirst = [], end_offset = 0, end_chunk = None, read_offset = 0, read_chunk = None\<rparr> []"
  by (simp add: jinv_def)

lemma JournalOpen_holds:
  "vfs_ok v disk \<Longrightarrow> sqlite3JournalOpen v w spill = (SQLITE_OK, j, w') \<Longrightarrow> journal_holds disk (j, w', mem) []"
  using vfs_open [of v disk w w']
  by (auto simp: sqlite3JournalOpen_def journal_holds_def MEMJOURNAL_CHUNK_def intro!: jinv_open split: if_splits prod.splits)


text \<open>The operating system of the examples: a file in the state, and writes that can fail.\<close>

definition plain_vfs :: "(u8 list option \<times> bool list) vfs" where
  "plain_vfs = \<lparr>os_open = (\<lambda>(d, oks). (0, Some [], oks)),
     os_write = (\<lambda>(d, oks) z off. case malloc oks of
        (True, oks) \<Rightarrow> (0, map_option (\<lambda>d. take off d @ z @ drop (off + length z) d) d, oks)
      | (False, oks) \<Rightarrow> (778, d, oks)),
     os_read = (\<lambda>(d, oks) n off. (0, take n (drop off (the d)), d, oks)),
     os_close = (\<lambda>(d, oks). (None, oks))\<rparr>"

lemma plain_vfs_ok: "vfs_ok plain_vfs fst"
  by (auto simp: vfs_ok_def plain_vfs_def split: prod.splits bool.splits)





section \<open>Properties\<close>

text \<open>
  Property C6. A journal opened with any spill limit is one append-only file to its client:
  wherever the content moves from memory to the real file, and whatever fails, every read that
  succeeds gives the bytes that were written.
\<close>

theorem Journal_is_file:
  assumes "vfs_ok v disk" and "sqlite3JournalOpen v w spill = (SQLITE_OK, j, w')" and "file_legal ops 0"
  shows "\<exists>rc ys. file_run (journal_append v) (journal_pread v) ops 0 (j, w', mem) = Some (rc, ys)
     \<and> prefix ys (file_answers ops []) \<and> (rc = SQLITE_OK \<longrightarrow> ys = file_answers ops [])"
  using file_contract.run_file [OF journal_contract [OF assms(1)] JournalOpen_holds [OF assms(1,2)], of ops mem] assms(3) by simp

theorem Journal_is_file_witness:
  "\<exists>rc ys. file_run (journal_append plain_vfs) (journal_pread plain_vfs) [Append [1, 2, 3], Pread 2 1, Append [4, 5], Pread 4 1] 0
     (case sqlite3JournalOpen plain_vfs (None, []) 4 of (_, j, w) \<Rightarrow> (j, w, [])) = Some (rc, ys)
     \<and> prefix ys [[2, 3], [2, 3, 4, 5]] \<and> (rc = SQLITE_OK \<longrightarrow> ys = [[2, 3], [2, 3, 4, 5]])"
proof -
  obtain j w where o: "sqlite3JournalOpen plain_vfs (None, []) 4 = (SQLITE_OK, j, w)"
    by (simp add: sqlite3JournalOpen_def)
  have "file_legal [Append [1, 2, 3], Pread 2 1, Append [4, 5], Pread 4 1] 0" by simp
  from Journal_is_file [OF plain_vfs_ok o this, of "[]"] show ?thesis unfolding o by simp
qed



end
