(* ===== verification/Codec.thy ===== *)
theory Codec
  imports Prelude
begin

text \<open>
  The interface between the byte-level encodings of the file format (varints, four-byte
  integers) and the code that lays several of them out one after the other (record
  headers, WAL frames). A provider promises one law: decoding an encoded value followed
  by any bytes gives the value and the number of bytes it took. The client lemmas, that an
  encoding is prefix-free and that a run of encoded values decodes to those values, are
  proved once here.
\<close>

text \<open>Decode \<open>n\<close> values that lie one after the other from offset \<open>i\<close> of a buffer.\<close>

fun decode_run :: "(u8 list \<Rightarrow> (nat \<times> 'a) option) \<Rightarrow> nat \<Rightarrow> u8 list \<Rightarrow> ('a list \<times> u8 list) option" where
  "decode_run dec 0 p = Some ([], p)"
| "decode_run dec (Suc n) p =
     (case dec p of
        None \<Rightarrow> None
      | Some (k, x) \<Rightarrow> map_option (apfst (Cons x)) (decode_run dec n (drop k p)))"

locale prefix_codec =
  fixes enc :: "'a \<Rightarrow> u8 list"
    and dec :: "u8 list \<Rightarrow> (nat \<times> 'a) option"
  assumes dec_enc: "dec (enc x @ rest) = Some (length (enc x), x)"
begin

lemma enc_prefix_free: "enc x @ r = enc y @ s \<Longrightarrow> x = y \<and> r = s"
  by (metis dec_enc option.inject prod.inject same_append_eq)

lemma inj_enc: "inj enc"
  by (rule injI) (use enc_prefix_free in \<open>metis append_Nil2\<close>)

lemma decode_run_enc:
  "decode_run dec (length xs) (concat (map enc xs) @ rest) = Some (xs, rest)"
  by (induction xs) (simp_all add: dec_enc)

lemma concat_enc_inj:
  "length xs = length ys \<Longrightarrow> concat (map enc xs) @ r = concat (map enc ys) @ s \<Longrightarrow>
   xs = ys \<and> r = s"
  by (metis decode_run_enc option.inject prod.inject)

end

end
