(* ===== verification/Varint.thy ===== *)
theory Varint
  imports Codec
begin

text \<open>
  The variable-length integers of the file format (util.c, \<open>putVarint64\<close> to
  \<open>sqlite3VarintLen\<close>) and the four-byte big-endian integers (\<open>sqlite3Get4byte\<close>,
  \<open>sqlite3Put4byte\<close>).

  A writer returns the number the C function returns together with the bytes it stores at
  \<open>p[0], p[1], \<dots>\<close>. A reader takes the bytes from \<open>p\<close> on and returns the number of bytes
  used with the value stored in \<open>*v\<close>, or \<open>None\<close> when it would read past the buffer.
  \<open>varint_loop\<close> is the format as the comment before \<open>putVarint64\<close> describes it; the
  unrolled reader of the code is proved equal to it.
\<close>

section \<open>Writers\<close>

fun put9_loop :: "nat \<Rightarrow> u64 \<Rightarrow> u8 list \<Rightarrow> u8 list" where
  "put9_loop 0 v acc = acc"
| "put9_loop (Suc i) v acc =
     put9_loop i (drop_bit 7 v) ((ucast (v AND 0x7f) OR 0x80) # acc)"

function varint_buf :: "u64 \<Rightarrow> u8 list" where
  "varint_buf v =
     (ucast (v AND 0x7f) OR 0x80) #
     (if drop_bit 7 v \<noteq> 0 then varint_buf (drop_bit 7 v) else [])"
  by pat_completeness auto
termination
  by (relation "measure unat") (auto intro: drop_bit_less_self)

declare varint_buf.simps [simp del]

definition putVarint64 :: "u64 \<Rightarrow> nat \<times> u8 list" where
  "putVarint64 v =
     (if v AND push_bit 32 0xff000000 \<noteq> 0
      then (9, put9_loop 8 (drop_bit 8 v) [ucast v])
      else let buf = varint_buf v; n = length buf;
               buf' = buf[0 := buf ! 0 AND 0x7f]
           in (n, rev buf'))"

definition sqlite3PutVarint :: "u64 \<Rightarrow> nat \<times> u8 list" where
  "sqlite3PutVarint v =
     (if v \<le> 0x7f then (1, [ucast (v AND 0x7f)])
      else if v \<le> 0x3fff
      then (2, [ucast ((drop_bit 7 v AND 0x7f) OR 0x80), ucast (v AND 0x7f)])
      else putVarint64 v)"

function varint_len_from :: "nat \<Rightarrow> u64 \<Rightarrow> nat" where
  "varint_len_from i v =
     (if drop_bit 7 v \<noteq> 0 then varint_len_from (Suc i) (drop_bit 7 v) else i)"
  by pat_completeness auto
termination
  by (relation "measure (unat \<circ> snd)") (auto intro: drop_bit_less_self)

declare varint_len_from.simps [simp del]

definition sqlite3VarintLen :: "u64 \<Rightarrow> nat" where
  "sqlite3VarintLen v = varint_len_from 1 v"

section \<open>Readers\<close>

abbreviation SLOT_2_0 :: u32 where
  "SLOT_2_0 \<equiv> 0x001fc07f"

abbreviation SLOT_4_2_0 :: u32 where
  "SLOT_4_2_0 \<equiv> 0xf01fc07f"

abbreviation join32 :: "u32 \<Rightarrow> u32 \<Rightarrow> u64" where
  "join32 s a \<equiv> push_bit 32 (ucast s) OR ucast a"

definition sqlite3GetVarint :: "u8 list \<Rightarrow> (nat \<times> u64) option" where
  "sqlite3GetVarint p = do {
     a \<leftarrow> rd32 p 0;
     if a AND 0x80 = 0 then Some (1, ucast a) else do {
     b \<leftarrow> rd32 p 1;
     if b AND 0x80 = 0 then Some (2, ucast (push_bit 7 (a AND 0x7f) OR b)) else do {
     p2 \<leftarrow> rd32 p 2;
     let a = push_bit 14 a OR p2;
     if a AND 0x80 = 0
     then Some (3, ucast ((a AND SLOT_2_0) OR push_bit 7 (b AND 0x7f))) else do {
     let a = a AND SLOT_2_0;
     p3 \<leftarrow> rd32 p 3;
     let b = push_bit 14 b OR p3;
     if b AND 0x80 = 0
     then Some (4, ucast (push_bit 7 a OR (b AND SLOT_2_0))) else do {
     let b = b AND SLOT_2_0;
     let s = a;
     p4 \<leftarrow> rd32 p 4;
     let a = push_bit 14 a OR p4;
     if a AND 0x80 = 0
     then Some (5, join32 (drop_bit 18 s) (a OR push_bit 7 b)) else do {
     let s = push_bit 7 s OR b;
     p5 \<leftarrow> rd32 p 5;
     let b = push_bit 14 b OR p5;
     if b AND 0x80 = 0
     then Some (6, join32 (drop_bit 18 s) (push_bit 7 (a AND SLOT_2_0) OR b)) else do {
     p6 \<leftarrow> rd32 p 6;
     let a = push_bit 14 a OR p6;
     if a AND 0x80 = 0
     then Some (7, join32 (drop_bit 11 s)
                     ((a AND SLOT_4_2_0) OR push_bit 7 (b AND SLOT_2_0))) else do {
     let a = a AND SLOT_2_0;
     p7 \<leftarrow> rd32 p 7;
     let b = push_bit 14 b OR p7;
     if b AND 0x80 = 0
     then Some (8, join32 (drop_bit 4 s) (push_bit 7 a OR (b AND SLOT_4_2_0))) else do {
     p8 \<leftarrow> rd32 p 8;
     let a = push_bit 15 a OR p8;
     let a = a OR push_bit 8 (b AND SLOT_2_0);
     let s = push_bit 4 s;
     b \<leftarrow> rd32 p 4;
     let s = s OR drop_bit 3 (b AND 0x7f);
     Some (9, join32 s a)
   }}}}}}}}}"

text \<open>
  The macro \<open>getVarint32\<close> handles the single-byte case, so the function behind it is
  compiled without that case.
\<close>

definition sqlite3GetVarint32 :: "u8 list \<Rightarrow> (nat \<times> u32) option" where
  "sqlite3GetVarint32 p = do {
     a \<leftarrow> rd32 p 0;
     b \<leftarrow> rd32 p 1;
     if b AND 0x80 = 0 then Some (2, push_bit 7 (a AND 0x7f) OR b) else do {
     p2 \<leftarrow> rd32 p 2;
     let a = push_bit 14 a OR p2;
     if a AND 0x80 = 0
     then Some (3, (a AND SLOT_2_0) OR push_bit 7 (b AND 0x7f)) else do {
     (n, v64) \<leftarrow> sqlite3GetVarint p;
     Some (n, if v64 AND 0xffffffff \<noteq> v64 then 0xffffffff else ucast v64)
   }}}"

definition getVarint32 :: "u8 list \<Rightarrow> (nat \<times> u32) option" where
  "getVarint32 p = do {
     a \<leftarrow> rd8 p 0;
     if a < 0x80 then Some (1, ucast a) else sqlite3GetVarint32 p
   }"

definition sqlite3Get4byte :: "u8 list \<Rightarrow> u32 option" where
  "sqlite3Get4byte p = do {
     p0 \<leftarrow> rd32 p 0; p1 \<leftarrow> rd32 p 1; p2 \<leftarrow> rd32 p 2; p3 \<leftarrow> rd32 p 3;
     Some (push_bit 24 p0 OR push_bit 16 p1 OR push_bit 8 p2 OR p3)
   }"

definition sqlite3Put4byte :: "u32 \<Rightarrow> u8 list" where
  "sqlite3Put4byte v =
     [ucast (drop_bit 24 v), ucast (drop_bit 16 v), ucast (drop_bit 8 v), ucast v]"

section \<open>The format as a loop\<close>

fun varint_loop :: "nat \<Rightarrow> u64 \<Rightarrow> u8 list \<Rightarrow> (nat \<times> u64) option" where
  "varint_loop n acc [] = None"
| "varint_loop n acc (b # p) =
     (if n = 8 then Some (9, push_bit 8 acc OR ucast b)
      else if b AND 0x80 = 0 then Some (Suc n, push_bit 7 acc OR ucast b)
      else varint_loop (Suc n) (push_bit 7 acc OR ucast (b AND 0x7f)) p)"

definition varint_spec :: "u8 list \<Rightarrow> (nat \<times> u64) option" where
  "varint_spec p = varint_loop 0 0 p"

section \<open>The unrolled reader follows the format\<close>

lemmas reader_defs = sqlite3GetVarint_def varint_spec_def rd32_def Let_def

text \<open>A varint is decided by at most nine bytes.\<close>

lemma list9_cases:
  fixes p :: "'a list"
  obtains
    "p = []"
  | b0 where "p = [b0]"
  | b0 b1 where "p = [b0, b1]"
  | b0 b1 b2 where "p = [b0, b1, b2]"
  | b0 b1 b2 b3 where "p = [b0, b1, b2, b3]"
  | b0 b1 b2 b3 b4 where "p = [b0, b1, b2, b3, b4]"
  | b0 b1 b2 b3 b4 b5 where "p = [b0, b1, b2, b3, b4, b5]"
  | b0 b1 b2 b3 b4 b5 b6 where "p = [b0, b1, b2, b3, b4, b5, b6]"
  | b0 b1 b2 b3 b4 b5 b6 b7 where "p = [b0, b1, b2, b3, b4, b5, b6, b7]"
  | b0 b1 b2 b3 b4 b5 b6 b7 b8 q where "p = b0 # b1 # b2 # b3 # b4 # b5 # b6 # b7 # b8 # q"
  by pat_completeness

lemma getVarint_stops:
  "\<not> bit b0 7 \<Longrightarrow>
     sqlite3GetVarint (b0 # q) = varint_spec (b0 # q)"
  "bit b0 7 \<Longrightarrow> \<not> bit b1 7 \<Longrightarrow>
     sqlite3GetVarint (b0 # b1 # q) = varint_spec (b0 # b1 # q)"
  "bit b0 7 \<Longrightarrow> bit b1 7 \<Longrightarrow> \<not> bit b2 7 \<Longrightarrow>
     sqlite3GetVarint (b0 # b1 # b2 # q) = varint_spec (b0 # b1 # b2 # q)"
  "bit b0 7 \<Longrightarrow> bit b1 7 \<Longrightarrow> bit b2 7 \<Longrightarrow> \<not> bit b3 7 \<Longrightarrow>
     sqlite3GetVarint (b0 # b1 # b2 # b3 # q) = varint_spec (b0 # b1 # b2 # b3 # q)"
  "bit b0 7 \<Longrightarrow> bit b1 7 \<Longrightarrow> bit b2 7 \<Longrightarrow> bit b3 7 \<Longrightarrow> \<not> bit b4 7 \<Longrightarrow>
     sqlite3GetVarint (b0 # b1 # b2 # b3 # b4 # q) = varint_spec (b0 # b1 # b2 # b3 # b4 # q)"
  "bit b0 7 \<Longrightarrow> bit b1 7 \<Longrightarrow> bit b2 7 \<Longrightarrow> bit b3 7 \<Longrightarrow> bit b4 7 \<Longrightarrow> \<not> bit b5 7 \<Longrightarrow>
     sqlite3GetVarint (b0 # b1 # b2 # b3 # b4 # b5 # q) = varint_spec (b0 # b1 # b2 # b3 # b4 # b5 # q)"
  "bit b0 7 \<Longrightarrow> bit b1 7 \<Longrightarrow> bit b2 7 \<Longrightarrow> bit b3 7 \<Longrightarrow> bit b4 7 \<Longrightarrow> bit b5 7 \<Longrightarrow> \<not> bit b6 7 \<Longrightarrow>
     sqlite3GetVarint (b0 # b1 # b2 # b3 # b4 # b5 # b6 # q) = varint_spec (b0 # b1 # b2 # b3 # b4 # b5 # b6 # q)"
  "bit b0 7 \<Longrightarrow> bit b1 7 \<Longrightarrow> bit b2 7 \<Longrightarrow> bit b3 7 \<Longrightarrow> bit b4 7 \<Longrightarrow> bit b5 7 \<Longrightarrow> bit b6 7 \<Longrightarrow> \<not> bit b7 7 \<Longrightarrow>
     sqlite3GetVarint (b0 # b1 # b2 # b3 # b4 # b5 # b6 # b7 # q) = varint_spec (b0 # b1 # b2 # b3 # b4 # b5 # b6 # b7 # q)"
  "bit b0 7 \<Longrightarrow> bit b1 7 \<Longrightarrow> bit b2 7 \<Longrightarrow> bit b3 7 \<Longrightarrow> bit b4 7 \<Longrightarrow> bit b5 7 \<Longrightarrow> bit b6 7 \<Longrightarrow> bit b7 7 \<Longrightarrow>
     sqlite3GetVarint (b0 # b1 # b2 # b3 # b4 # b5 # b6 # b7 # b8 # q) = varint_spec (b0 # b1 # b2 # b3 # b4 # b5 # b6 # b7 # b8 # q)"
  apply (simp_all add: reader_defs bit_simps del: push_bit_and push_bit_or)
         apply (rule u64_eq_by_bits; simp add: bits_unfold del: push_bit_and push_bit_or)+
  done

lemma getVarint_truncated:
  "\<forall>b\<in>set p. bit b 7 \<Longrightarrow> length p < 9 \<Longrightarrow> sqlite3GetVarint p = varint_spec p"
  by (cases p rule: list9_cases) (simp_all add: reader_defs bit_simps)

lemma sqlite3GetVarint_eq_spec: "sqlite3GetVarint p = varint_spec p"
  by (cases p rule: list9_cases; hypsubst; rule ccontr; insert getVarint_truncated [of p]; simp;
      metis getVarint_stops)

section \<open>The reader inverts the writer\<close>

definition varint_fold :: "u64 \<Rightarrow> u8 list \<Rightarrow> u64" where
  "varint_fold acc bs = fold (\<lambda>b a. push_bit 7 a OR ucast (b AND 0x7f)) bs acc"

lemma varint_loop_continue:
  "\<forall>b\<in>set cs. bit b 7 \<Longrightarrow> n + length cs \<le> 8 \<Longrightarrow>
   varint_loop n acc (cs @ p) = varint_loop (n + length cs) (varint_fold acc cs) p"
  by (induction cs arbitrary: n acc) (simp_all add: varint_fold_def)

lemma varint_buf_bits: "b \<in> set (varint_buf v) \<Longrightarrow> bit b 7"
  by (induction v rule: varint_buf.induct)
    (subst (asm) varint_buf.simps, auto simp: bit_simps split: if_splits)

lemma low7_byte:
  "ucast ((ucast (v AND 0x7f) OR 0x80 :: u8) AND 0x7f) = (v :: u64) AND 0x7f"
  by (rule u64_eq_by_bits) (simp add: bits_unfold bitblast)

lemma push7_drop7: "push_bit 7 (drop_bit 7 v) OR (v AND 0x7f) = (v :: u64)"
  by (rule u64_eq_by_bits) (simp add: bits_unfold bitblast)

lemma varint_fold_rev_buf: "varint_fold 0 (rev (varint_buf v)) = v"
proof (induction v rule: varint_buf.induct)
  case (1 v)
  show ?case
  proof (cases "drop_bit 7 v = 0")
    case True
    then have "v AND 0x7f = v"
      using push7_drop7 [of v] by simp
    with True show ?thesis
      using low7_byte [of v] by (simp add: varint_buf.simps [of v] varint_fold_def low7_byte del: push_bit_and)
  next
    case False
    then show ?thesis
      using 1 by (simp add: varint_buf.simps [of v] varint_fold_def low7_byte push7_drop7)
  qed
qed

lemma length_varint_buf: "unat v < 2 ^ (7 * k) \<Longrightarrow> 0 < k \<Longrightarrow> length (varint_buf v) \<le> k"
proof (induction k arbitrary: v)
  case (Suc k)
  have *: "unat (drop_bit 7 v) = unat v div 2 ^ 7"
    by (simp add: unat_drop_bit)
  show ?case
  proof (cases "drop_bit 7 v = 0")
    case True
    then show ?thesis by (simp add: varint_buf.simps [of v])
  next
    case False
    then have "unat (drop_bit 7 v) \<noteq> 0"
      by (simp add: unat_eq_zero)
    with Suc.prems(1) have k: "0 < k" 
      unfolding * by (cases k) auto
    from Suc.prems(1) have "unat (drop_bit 7 v) < 2 ^ (7 * k)"
      unfolding * by (simp add: less_mult_imp_div_less power_add mult.commute)
    then show ?thesis
      using Suc.IH k False by (simp add: varint_buf.simps [of v])
  qed
qed simp

lemma length_varint_buf_lower: "2 ^ (7 * k) \<le> unat v \<Longrightarrow> k < length (varint_buf v)"
proof (induction k arbitrary: v)
  case 0
  then show ?case by (simp add: varint_buf.simps [of v])
next
  case (Suc k)
  then have *: "2 ^ (7 * k) \<le> unat (drop_bit 7 v)"
    by (simp add: unat_drop_bit power_add less_eq_div_iff_mult_less_eq mult.commute)
  then have "drop_bit 7 v \<noteq> 0"
    using not_less by (fastforce simp: unat_eq_zero)
  with Suc.IH [OF *] show ?case
    by (simp add: varint_buf.simps [of v])
qed

lemma high_byte_zero: "v AND 0xff00000000000000 = 0 \<longleftrightarrow> unat (v :: u64) < 2 ^ 56"
proof -
  have "v AND 0xff00000000000000 = 0 \<longleftrightarrow> drop_bit 56 v = 0"
    unfolding u64_eq_iff [of _ 0] by (simp add: bits_unfold)
  also have "\<dots> \<longleftrightarrow> unat v < 2 ^ 56"
    by (simp add: unat_drop_bit div_eq_0_iff flip: unat_eq_zero)
  finally show ?thesis .
qed

lemma varint_len_from_eq: "varint_len_from i v = i + length (varint_buf v) - 1"
  apply (induction i v rule: varint_len_from.induct)
  apply (subst varint_len_from.simps, subst varint_buf.simps)
  apply (auto simp: varint_buf.simps)
  done

lemma le_7f: "v \<le> 0x7f \<longleftrightarrow> drop_bit 7 v = 0" for v :: u64
  using unat_less_iff_drop_bit [of v 7] by (simp add: word_le_nat_alt less_Suc_eq_le [symmetric])

lemma le_3fff: "v \<le> 0x3fff \<longleftrightarrow> drop_bit 14 v = 0" for v :: u64
  using unat_less_iff_drop_bit [of v 14] by (simp add: word_le_nat_alt less_Suc_eq_le [symmetric])

lemma put9_loop_numeral:
  "put9_loop (numeral k) v acc =
     put9_loop (pred_numeral k) (drop_bit 7 v) ((ucast (v AND 0x7f) OR 0x80) # acc)"
  by (simp add: numeral_eq_Suc)

lemma put9_loop_8: "varint_spec (put9_loop 8 (drop_bit 8 v) [ucast v] @ rest) = Some (9, v)"
  apply (simp add: varint_spec_def put9_loop_numeral bit_simps del: push_bit_and push_bit_or)
  apply (rule u64_eq_by_bits)
  apply (simp add: bits_unfold)
  done

lemma one_byte: "drop_bit 7 v = 0 \<Longrightarrow> v AND 0x7f = (v :: u64)"
  using push7_drop7 [of v] by simp

lemma small_drop: "drop_bit 7 v = 0 \<Longrightarrow> drop_bit 14 v = (0::u64)"
  using unat_less_iff_drop_bit [of v 7] unat_less_iff_drop_bit [of v 14] by simp

lemma varint_spec_rev_buf:
  assumes "unat v < 2 ^ 56"
  shows "varint_spec (rev ((varint_buf v)[0 := varint_buf v ! 0 AND 0x7f]) @ rest) = Some (length (varint_buf v), v)"
proof -
  obtain b bs where b: "varint_buf v = b # bs" by (metis varint_buf.simps)
  have len: "length (varint_buf v) \<le> 8"
    using length_varint_buf [of v 8] assms by simp
  have v: "push_bit 7 (varint_fold 0 (rev bs)) OR ucast (b AND 0x7f) = v"
    using varint_fold_rev_buf [of v] b by (simp add: varint_fold_def)
  have "varint_loop 0 0 (rev bs @ (b AND 0x7f) # rest) =
      varint_loop (length bs) (varint_fold 0 (rev bs)) ((b AND 0x7f) # rest)"
    using varint_loop_continue [of "rev bs" 0 0] len b varint_buf_bits [of _ v] by simp
  also have "\<dots> = Some (length (varint_buf v), v)"
    using len b v by (simp add: bit_simps bitblast)
  finally show ?thesis
    by (simp add: varint_spec_def b)
qed

lemma sqlite3PutVarint_roundtrip:
  "sqlite3GetVarint (snd (sqlite3PutVarint v) @ rest) = Some (fst (sqlite3PutVarint v), v)"
proof -
  consider (one) "drop_bit 7 v = 0" | (two) "drop_bit 7 v \<noteq> 0" "drop_bit 14 v = 0"
    | (more) "drop_bit 7 v \<noteq> 0" "drop_bit 14 v \<noteq> 0"
    by blast
  then show ?thesis
  proof cases
    case one
    have "ucast (ucast v :: u8) = v" "\<not> bit (ucast v :: u8) 7"
      using one unfolding u64_eq_iff by (simp_all add: bits_unfold)
    with one show ?thesis
      by (simp add: sqlite3PutVarint_def le_7f one_byte sqlite3GetVarint_eq_spec varint_spec_def)
  next
    case two
    then have "push_bit 7 (ucast (ucast (drop_bit 7 v AND 127 OR 128) AND 127 :: u8)) OR ucast (ucast (v AND 127) :: u8) = v" "\<not> bit (ucast (v AND 127) :: u8) 7"
       unfolding u64_eq_iff by (simp_all add: bits_unfold)
    with two show ?thesis
      by (simp add: sqlite3PutVarint_def le_7f le_3fff sqlite3GetVarint_eq_spec varint_spec_def bit_simps
          del: push_bit_and push_bit_or)
  next
    case more
    then show ?thesis
      using varint_spec_rev_buf [of v rest] put9_loop_8 [of v rest]
      by (simp add: sqlite3PutVarint_def putVarint64_def le_7f le_3fff sqlite3GetVarint_eq_spec
          high_byte_zero Let_def)
  qed
qed

lemma fst_PutVarint: "fst (sqlite3PutVarint v) = (if unat v < 2 ^ 56 then length (varint_buf v) else 9)"
proof -
  have "drop_bit 7 v = 0 \<Longrightarrow> length (varint_buf v) = 1"
    by (simp add: varint_buf.simps [of v])
  moreover have "length (varint_buf v) = 2" if "drop_bit 7 v \<noteq> 0" "drop_bit 14 v = 0"
  proof -
    have "drop_bit 7 (drop_bit 7 v) = 0"
      using that by simp
    then show ?thesis
      using that(1) by (simp add: varint_buf.simps [of v] varint_buf.simps [of "drop_bit 7 v"])
  qed
  moreover have "drop_bit 14 v = 0 \<Longrightarrow> unat v < 2 ^ 56"
    by (simp add: unat_drop_bit div_eq_0_iff flip: unat_eq_zero)
  ultimately show ?thesis
    using small_drop [of v] by (auto simp: sqlite3PutVarint_def putVarint64_def le_7f le_3fff high_byte_zero Let_def)
qed

lemma sqlite3PutVarint_length:
  "length (snd (sqlite3PutVarint v)) = fst (sqlite3PutVarint v) \<and> 1 \<le> fst (sqlite3PutVarint v) \<and> fst (sqlite3PutVarint v) \<le> 9"
proof -
  have "length (snd (sqlite3PutVarint v)) = fst (sqlite3PutVarint v)"
    by (simp add: sqlite3PutVarint_def putVarint64_def Let_def put9_loop_numeral)
  moreover have "unat v < 2 ^ 56 \<Longrightarrow> length (varint_buf v) \<le> 9"
    using length_varint_buf [of v 9] by simp
  moreover have "0 < length (varint_buf v)"
    by (simp add: varint_buf.simps)
  ultimately show ?thesis
    by (simp add: fst_PutVarint Suc_le_eq)
qed

lemma drop_bit_step:
  assumes "drop_bit (7 * n) acc = 0" "\<not> bit (b::u8) 7"
  shows "drop_bit (7 * Suc n) (push_bit 7 acc OR ucast b) = (0::u64)"
proof -
  have "\<not> bit acc k" if "7 * n \<le> k" for k
    using arg_cong [where f = "\<lambda>w. bit w (k - 7 * n)", OF assms(1)] that by (simp add: bit_simps)
  then show ?thesis
    using assms(2) by (intro bit_word_eqI) (auto simp: bit_simps)
qed

lemma drop_bit_step':
  assumes "drop_bit (7 * n) acc = 0"
  shows "drop_bit (7 * Suc n) (push_bit 7 acc OR ucast (b AND 0x7f :: u8)) = (0::u64)"
  using assms by (intro drop_bit_step) (simp_all add: bit_simps)

lemma varint_loop_bound:
  "varint_loop n acc p = Some (k, v) \<Longrightarrow> drop_bit (7 * n) acc = 0 \<Longrightarrow> n \<le> 8 \<Longrightarrow>
   n < k \<and> k \<le> 9 \<and> (k < 9 \<longrightarrow> drop_bit (7 * k) v = 0)"
proof (induction n acc p rule: varint_loop.induct)
  case (2 n acc b p)
  show ?case
  proof (cases "n = 8 \<or> \<not> bit b 7")
    case True
    then show ?thesis
      using "2.prems" drop_bit_step [of n acc b] by (auto split: if_splits)
  next
    case False
    then show ?thesis
      using "2.prems" "2.IH" drop_bit_step' [of n acc b] by fastforce
  qed
qed simp

definition clamp32 :: "u64 \<Rightarrow> u32" where
  "clamp32 v = (if v \<le> 0xffffffff then ucast v else 0xffffffff)"

lemma bits_le_u32: "v AND 0xffffffff = v \<longleftrightarrow> v \<le> (0xffffffff :: u64)"
proof -
  have "v AND 0xffffffff = v \<longleftrightarrow> drop_bit 32 v = 0"
    unfolding u64_eq_iff by (simp add: bits_unfold)
  also have "\<dots> \<longleftrightarrow> v \<le> 0xffffffff"
    using unat_less_iff_drop_bit [of v 32] by (simp add: word_le_nat_alt less_Suc_eq_le [symmetric])
  finally show ?thesis .
qed

lemma clamp32_ucast: "clamp32 (ucast y) = y"
proof -
  have "(ucast y :: u64) \<le> 0xffffffff"
    using unsigned_less [of y, where 'a = nat] by (simp add: word_le_nat_alt unsigned_ucast_eq take_bit_nat_eq_self)
  then show ?thesis by (simp add: clamp32_def)
qed

lemma clamp32_u8: "clamp32 (ucast (b :: u8)) = ucast b"
  using clamp32_ucast [of "ucast b"] by simp

lemma getVarint32_join:
  "clamp32 (push_bit 7 (ucast (b0 AND 0x7f :: u8)) OR ucast (b1 :: u8)) = push_bit 7 (ucast b0 AND 0x7f) OR ucast b1"
  "\<not> bit b2 7 \<Longrightarrow> clamp32 (push_bit 7 (push_bit 7 (ucast (b0 AND 0x7f)) OR ucast (b1 AND 0x7f)) OR ucast (b2::u8)) =
    (push_bit 14 (ucast b0) OR ucast b2) AND SLOT_2_0 OR push_bit 7 (ucast b1 AND 0x7f)"
  apply (subst clamp32_ucast [symmetric], rule arg_cong [where f = clamp32], rule u64_eq_by_bits, simp add: bits_unfold del: push_bit_and push_bit_or)
  apply (subst clamp32_ucast [symmetric], rule arg_cong [where f = clamp32], rule u64_eq_by_bits, simp add: bits_unfold del: push_bit_and push_bit_or)
  done

lemma getVarint32_eq: "getVarint32 p = map_option (\<lambda>(n, v). (n, clamp32 v)) (sqlite3GetVarint p)"
proof -
  have ge3: ?thesis if "p = b0 # b1 # b2 # q" "bit b0 7" "bit b1 7" "bit b2 7" for b0 b1 b2 q
    using that by (cases "sqlite3GetVarint p")
     (auto simp: getVarint32_def sqlite3GetVarint32_def rd32_def u8_lt_80_iff Let_def bit_simps bits_le_u32 clamp32_def)
  have le2: ?thesis if "p = b0 # b1 # b2 # q" "\<not> (bit b0 7 \<and> bit b1 7 \<and> bit b2 7)" for b0 b1 b2 q
    using that by (auto simp: getVarint32_def sqlite3GetVarint32_def rd32_def u8_lt_80_iff Let_def bit_simps sqlite3GetVarint_eq_spec varint_spec_def getVarint32_join  clamp32_u8 simp del: push_bit_and push_bit_or)
  have short: ?thesis if "p = [] \<or> p = [b0] \<or> p = [b0, b1]" for b0 b1
    using that by (auto simp: getVarint32_def sqlite3GetVarint32_def rd32_def u8_lt_80_iff Let_def bit_simps sqlite3GetVarint_eq_spec varint_spec_def getVarint32_join clamp32_u8 simp del: push_bit_and push_bit_or)
  from ge3 le2 short show ?thesis
    by (metis list.exhaust)
qed

lemma sqlite3Put4byte_roundtrip: "sqlite3Get4byte (sqlite3Put4byte v @ rest) = Some v"
  by (simp add: sqlite3Get4byte_def sqlite3Put4byte_def rd32_def)
    (rule u32_eq_by_bits, simp add: bits_unfold)

section \<open>The encodings as prefix codecs\<close>

interpretation vc: prefix_codec "\<lambda>v. snd (sqlite3PutVarint v)" sqlite3GetVarint
  by unfold_locales (simp add: sqlite3PutVarint_roundtrip sqlite3PutVarint_length)

interpretation be4: prefix_codec sqlite3Put4byte "\<lambda>p. map_option (Pair 4) (sqlite3Get4byte p)"
  by unfold_locales (simp add: sqlite3Put4byte_roundtrip, simp add: sqlite3Put4byte_def)

section \<open>Properties\<close>

text \<open>
  Property C28. The unrolled reader of the code, which keeps the seven-bit groups of a varint
  in two 32-bit words and joins them with shifts and masks, computes on every buffer what
  the format says, including a varint that the end of the buffer cuts off.
\<close>

theorem GetVarint_follows_format: "sqlite3GetVarint p = varint_spec p"
  by (rule sqlite3GetVarint_eq_spec)

text \<open>
  Property C27. Reading back what \<open>sqlite3PutVarint\<close> wrote gives the value and the
  number of bytes it returned, whatever follows; that number is the number of bytes
  written and lies between 1 and 9.
\<close>

theorem varint_roundtrip:
  "sqlite3GetVarint (snd (sqlite3PutVarint v) @ rest) = Some (fst (sqlite3PutVarint v), v) \<and>
   length (snd (sqlite3PutVarint v)) = fst (sqlite3PutVarint v) \<and>
   1 \<le> fst (sqlite3PutVarint v) \<and> fst (sqlite3PutVarint v) \<le> 9"
  using sqlite3PutVarint_roundtrip [of v rest] sqlite3PutVarint_length [of v] by simp

text \<open>
  Property C32. No encoding that the reader accepts for a value is shorter than the one
  \<open>sqlite3PutVarint\<close> writes.
\<close>

theorem sqlite3PutVarint_shortest:
  assumes "sqlite3GetVarint p = Some (n, v)"
  shows "fst (sqlite3PutVarint v) \<le> n"
proof -
  have n: "0 < n" "n \<le> 9" "n < 9 \<longrightarrow> unat v < 2 ^ (7 * n)"
    using varint_loop_bound [of 0 0 p n v] assms
    by (simp_all add: sqlite3GetVarint_eq_spec varint_spec_def unat_less_iff_drop_bit)
  show ?thesis
  proof (cases "n = 9")
    case True
    then show ?thesis using sqlite3PutVarint_length [of v] by simp
  next
    case False
    then have "7 * n \<le> 56" "unat v < 2 ^ (7 * n)" using n by simp_all
    then have "unat v < 2 ^ 56" using power_increasing [of "7 * n" 56 "2::nat"] by linarith
    moreover have "length (varint_buf v) \<le> n"
      using length_varint_buf n False by simp
    ultimately show ?thesis by (simp add: fst_PutVarint)
  qed
qed

theorem sqlite3PutVarint_shortest_witness:
  "sqlite3GetVarint [0x80, 0x05] = Some (2, 5) \<and> fst (sqlite3PutVarint 5) \<le> 2"
proof -
  have "sqlite3GetVarint [0x80, 0x05] = Some (2, 5)"
    by code_simp
  then show ?thesis
    using sqlite3PutVarint_shortest [of "[0x80, 0x05]" 2 5] by simp
qed

text \<open>
  Property C33. \<open>sqlite3VarintLen\<close> gives the number of bytes \<open>sqlite3PutVarint\<close>
  writes for every value below \<open>2 ^ 63\<close>. From \<open>2 ^ 63\<close> on it gives 10, although the
  encoding takes 9 bytes.
\<close>

theorem VarintLen_agrees:
  "sqlite3VarintLen v = (if v < 2 ^ 63 then fst (sqlite3PutVarint v) else 10)"
proof -
  have v63: "v < 0x8000000000000000 \<longleftrightarrow> unat v < 2 ^ 63" by (simp add: word_less_nat_alt)
  have "length (varint_buf v) \<le> 10"
    using length_varint_buf [of v 10] unsigned_less [of v, where 'a = nat] by simp
  moreover have "\<not> unat v < 2 ^ 63 \<Longrightarrow> 9 < length (varint_buf v)"
    using length_varint_buf_lower [of 9 v] by simp
  moreover have "unat v < 2 ^ 63 \<Longrightarrow> length (varint_buf v) \<le> 9"
    using length_varint_buf [of v 9] by simp
  moreover have "\<not> unat v < 2 ^ 56 \<Longrightarrow> 8 < length (varint_buf v)"
    using length_varint_buf_lower [of 8 v] by simp
  ultimately show ?thesis
    by (auto simp: sqlite3VarintLen_def varint_len_from_eq fst_PutVarint v63)
qed

text \<open>
  Property C34. The 32-bit reader, with its single-byte case inlined by the macro, reads the
  same bytes as the 64-bit reader and gives its value, cut to \<open>0xffffffff\<close> when it is
  larger.
\<close>

theorem getVarint32_clamps:
  "getVarint32 p = map_option (\<lambda>(n, v). (n, clamp32 v)) (sqlite3GetVarint p)"
  by (rule getVarint32_eq)

end
