(* ===== verification/Serial.thy ===== *)
theory Serial
  imports Varint
begin

text \<open>
  Values and their serial types (vdbeaux.c, \<open>sqlite3VdbeSerialType\<close> to
  \<open>sqlite3VdbeSerialGet\<close> and \<open>vdbeRecordDecodeInt\<close>).

  A \<open>Mem\<close> is the cell of the virtual machine (\<open>struct sqlite3_value\<close>): the flag bits as a
  set, the members of the union \<open>u\<close> as separate fields, and \<open>z\<close> with its \<open>n\<close> bytes as a
  byte list, so that \<open>n\<close> is its length. A double is kept as its 64 bits; \<open>sqlite3IsNaN\<close>
  reads them as IEEE 754 says.
  A reader returns \<open>None\<close> when the value would reach past the end of the buffer.
\<close>

section \<open>Memory cells\<close>

datatype memflag =
  MEM_Null | MEM_Str | MEM_Int | MEM_Real | MEM_Blob | MEM_Zero | MEM_Ephem

record Mem =
  flags :: "memflag set"
  u_i :: i64
  u_r :: u64
  u_nZero :: nat
  z :: "u8 list"

definition sqlite3IsNaN :: "u64 \<Rightarrow> bool" where
  "sqlite3IsNaN r \<longleftrightarrow> (drop_bit 52 r AND 0x7ff = 0x7ff) \<and> r AND 0xfffffffffffff \<noteq> 0"

text \<open>
  The SQL value a cell stands for; the flags are tested in the order of
  \<open>sqlite3VdbeSerialType\<close>. A cell is storable when it has a value, its bytes are below
  the limit \<open>SQLITE_MAX_LENGTH\<close> (which is below \<open>2 ^ 30\<close>) and it holds no NaN, which
  the code never leaves under \<open>MEM_Real\<close>.
\<close>

datatype sqlval = VNull | VInt i64 | VReal u64 | VText "u8 list" | VBlob "u8 list"

definition mem_value :: "Mem \<Rightarrow> sqlval" where
  "mem_value m =
     (if MEM_Null \<in> flags m then VNull
      else if MEM_Int \<in> flags m then VInt (u_i m)
      else if MEM_Real \<in> flags m then VReal (u_r m)
      else (if MEM_Str \<in> flags m then VText else VBlob)
             (z m @ (if MEM_Zero \<in> flags m then replicate (u_nZero m) 0 else [])))"

definition storable :: "Mem \<Rightarrow> bool" where
  "storable m \<longleftrightarrow>
     length (z m) + (if MEM_Zero \<in> flags m then u_nZero m else 0) < 2 ^ 30 \<and>
     (MEM_Real \<in> flags m \<longrightarrow> \<not> sqlite3IsNaN (u_r m)) \<and>
     (flags m \<inter> {MEM_Null, MEM_Int, MEM_Real, MEM_Str, MEM_Blob} \<noteq> {})"

section \<open>Serial types\<close>

definition sqlite3VdbeSerialType :: "Mem \<Rightarrow> nat \<Rightarrow> u32 \<times> u32" where
  "sqlite3VdbeSerialType m file_format =
     (if MEM_Null \<in> flags m then (0, 0)
      else if MEM_Int \<in> flags m then
        let i = u_i m;
            u = (if i <s 0 then NOT i else i)
        in if u \<le> 127 then
             if i AND 1 = i \<and> 4 \<le> file_format then (8 + ucast u, 0) else (1, 1)
           else if u \<le> 32767 then (2, 2)
           else if u \<le> 8388607 then (3, 3)
           else if u \<le> 2147483647 then (4, 4)
           else if u \<le> push_bit 32 0x00008000 - 1 then (5, 6)
           else (6, 8)
      else if MEM_Real \<in> flags m then (7, 8)
      else
        let n = of_nat (length (z m)) + (if MEM_Zero \<in> flags m then of_nat (u_nZero m) else 0)
        in (n * 2 + 12 + (if MEM_Str \<in> flags m then 1 else 0), n))"

definition sqlite3SmallTypeSizes :: "nat list" where
  "sqlite3SmallTypeSizes =
     [0, 1, 2, 3, 4, 6, 8, 8, 0, 0,
      0, 0, 0, 0, 1, 1, 2, 2, 3, 3,
      4, 4, 5, 5, 6, 6, 7, 7, 8, 8,
      9, 9, 10, 10, 11, 11, 12, 12, 13, 13,
      14, 14, 15, 15, 16, 16, 17, 17, 18, 18,
      19, 19, 20, 20, 21, 21, 22, 22, 23, 23,
      24, 24, 25, 25, 26, 26, 27, 27, 28, 28,
      29, 29, 30, 30, 31, 31, 32, 32, 33, 33,
      34, 34, 35, 35, 36, 36, 37, 37, 38, 38,
      39, 39, 40, 40, 41, 41, 42, 42, 43, 43,
      44, 44, 45, 45, 46, 46, 47, 47, 48, 48,
      49, 49, 50, 50, 51, 51, 52, 52, 53, 53,
      54, 54, 55, 55, 56, 56, 57, 57]"

definition sqlite3VdbeSerialTypeLen :: "u32 \<Rightarrow> nat" where
  "sqlite3VdbeSerialTypeLen serial_type =
     (if 128 \<le> serial_type then unat ((serial_type - 12) div 2)
      else sqlite3SmallTypeSizes ! unat serial_type)"

section \<open>Writing and reading a value\<close>

fun put_be :: "nat \<Rightarrow> u64 \<Rightarrow> u8 list \<Rightarrow> u8 list" where
  "put_be 0 v acc = acc"
| "put_be (Suc i) v acc = put_be i (drop_bit 8 v) (ucast (v AND 0xff) # acc)"

definition sqlite3VdbeSerialPut :: "Mem \<Rightarrow> u32 \<Rightarrow> u8 list" where
  "sqlite3VdbeSerialPut m serial_type =
     (if serial_type \<le> 7 \<and> 0 < serial_type then
        let v = (if serial_type = 7 then u_r m else u_i m)
        in put_be (sqlite3SmallTypeSizes ! unat serial_type) v []
      else if 12 \<le> serial_type then z m
      else [])"

definition ONE_BYTE_INT :: "u8 list \<Rightarrow> i64 option" where
  "ONE_BYTE_INT x = do { x0 \<leftarrow> rd8 x 0; Some (scast x0) }"

definition TWO_BYTE_INT :: "u8 list \<Rightarrow> u32 option" where
  "TWO_BYTE_INT x = do { x0 \<leftarrow> rd8 x 0; x1 \<leftarrow> rd32 x 1; Some (256 * scast x0 OR x1) }"

definition THREE_BYTE_INT :: "u8 list \<Rightarrow> u32 option" where
  "THREE_BYTE_INT x = do {
     x0 \<leftarrow> rd8 x 0; x1 \<leftarrow> rd32 x 1; x2 \<leftarrow> rd32 x 2;
     Some (65536 * scast x0 OR push_bit 8 x1 OR x2)
   }"

definition FOUR_BYTE_UINT :: "u8 list \<Rightarrow> u32 option" where
  "FOUR_BYTE_UINT x = do {
     x0 \<leftarrow> rd32 x 0; x1 \<leftarrow> rd32 x 1; x2 \<leftarrow> rd32 x 2; x3 \<leftarrow> rd32 x 3;
     Some (push_bit 24 x0 OR push_bit 16 x1 OR push_bit 8 x2 OR x3)
   }"

definition FOUR_BYTE_INT :: "u8 list \<Rightarrow> u32 option" where
  "FOUR_BYTE_INT x = do {
     x0 \<leftarrow> rd8 x 0; x1 \<leftarrow> rd32 x 1; x2 \<leftarrow> rd32 x 2; x3 \<leftarrow> rd32 x 3;
     Some (16777216 * scast x0 OR push_bit 16 x1 OR push_bit 8 x2 OR x3)
   }"

definition SIX_BYTE_INT :: "u8 list \<Rightarrow> i64 option" where
  "SIX_BYTE_INT buf = do {
     lo \<leftarrow> FOUR_BYTE_UINT (drop 2 buf);
     hi \<leftarrow> TWO_BYTE_INT buf;
     Some (ucast lo + push_bit 32 1 * scast hi)
   }"

definition serialGet :: "u8 list \<Rightarrow> u32 \<Rightarrow> Mem \<Rightarrow> (nat \<times> Mem) option" where
  "serialGet buf serial_type m = do {
     x \<leftarrow> FOUR_BYTE_UINT buf;
     y \<leftarrow> FOUR_BYTE_UINT (drop 4 buf);
     let x = push_bit 32 (ucast x) + ucast y;
     Some (8,
       if serial_type = 6 then m\<lparr>u_i := x, flags := {MEM_Int}\<rparr>
       else m\<lparr>u_r := x, flags := (if sqlite3IsNaN x then {MEM_Null} else {MEM_Real})\<rparr>)
   }"

definition sqlite3VdbeSerialGet :: "u8 list \<Rightarrow> u32 \<Rightarrow> Mem \<Rightarrow> (nat \<times> Mem) option" where
  "sqlite3VdbeSerialGet buf serial_type m =
     (if serial_type = 10 then
        Some (0, m\<lparr>flags := {MEM_Null, MEM_Zero}, z := [], u_nZero := 0\<rparr>)
      else if serial_type = 11 \<or> serial_type = 0 then Some (0, m\<lparr>flags := {MEM_Null}\<rparr>)
      else if serial_type = 1 then
        do { i \<leftarrow> ONE_BYTE_INT buf; Some (1, m\<lparr>u_i := i, flags := {MEM_Int}\<rparr>) }
      else if serial_type = 2 then
        do { i \<leftarrow> TWO_BYTE_INT buf; Some (2, m\<lparr>u_i := scast i, flags := {MEM_Int}\<rparr>) }
      else if serial_type = 3 then
        do { i \<leftarrow> THREE_BYTE_INT buf; Some (3, m\<lparr>u_i := scast i, flags := {MEM_Int}\<rparr>) }
      else if serial_type = 4 then
        do { i \<leftarrow> FOUR_BYTE_INT buf; Some (4, m\<lparr>u_i := scast i, flags := {MEM_Int}\<rparr>) }
      else if serial_type = 5 then
        do { i \<leftarrow> SIX_BYTE_INT buf; Some (6, m\<lparr>u_i := i, flags := {MEM_Int}\<rparr>) }
      else if serial_type = 6 \<or> serial_type = 7 then serialGet buf serial_type m
      else if serial_type = 8 \<or> serial_type = 9 then
        Some (0, m\<lparr>u_i := ucast (serial_type - 8), flags := {MEM_Int}\<rparr>)
      else
        let n = unat ((serial_type - 12) div 2)
        in if length buf < n then None
           else Some (n, m\<lparr>z := take n buf,
             flags := (if serial_type AND 1 = 0 then {MEM_Blob, MEM_Ephem} else {MEM_Str, MEM_Ephem})\<rparr>))"

definition vdbeRecordDecodeInt :: "u32 \<Rightarrow> u8 list \<Rightarrow> i64 option" where
  "vdbeRecordDecodeInt serial_type aKey =
     (if serial_type = 0 \<or> serial_type = 1 then ONE_BYTE_INT aKey
      else if serial_type = 2 then map_option scast (TWO_BYTE_INT aKey)
      else if serial_type = 3 then map_option scast (THREE_BYTE_INT aKey)
      else if serial_type = 4 then map_option scast (FOUR_BYTE_UINT aKey)
      else if serial_type = 5 then SIX_BYTE_INT aKey
      else if serial_type = 6 then
        do {
          x \<leftarrow> FOUR_BYTE_UINT aKey;
          y \<leftarrow> FOUR_BYTE_UINT (drop 4 aKey);
          Some (push_bit 32 (ucast x) OR ucast y)
        }
      else Some (ucast (serial_type - 8)))"

section \<open>How many bytes an integer needs\<close>

text \<open>\<open>fits k i\<close>: all bits of \<open>i\<close> from \<open>k\<close> on are copies of its sign.\<close>

definition fits :: "nat \<Rightarrow> i64 \<Rightarrow> bool" where
  "fits k i \<longleftrightarrow> (\<forall>n<64. k \<le> n \<longrightarrow> bit i n = bit i 63)"

lemma sless_zero_iff: "(i :: i64) <s 0 \<longleftrightarrow> bit i 63"
  by (simp add: word_sless_alt bit_last_iff [symmetric])

abbreviation (input) int_mag :: "i64 \<Rightarrow> u64" where
  "int_mag i \<equiv> (if i <s 0 then NOT i else i)"

lemma fits_iff: "drop_bit k (int_mag i) = 0 \<longleftrightarrow> fits k i"
  unfolding drop_bit_eq_0_iff fits_def sless_zero_iff
  by (cases "bit i 63") (auto simp: bit_not_iff)

lemma mag_le_iff:
  "int_mag i \<le> 127 \<longleftrightarrow> fits 7 i"
  "int_mag i \<le> 32767 \<longleftrightarrow> fits 15 i"
  "int_mag i \<le> 8388607 \<longleftrightarrow> fits 23 i"
  "int_mag i \<le> 2147483647 \<longleftrightarrow> fits 31 i"
  "int_mag i \<le> push_bit 32 0x00008000 - 1 \<longleftrightarrow> fits 47 i"
  unfolding fits_iff [symmetric] unat_less_iff_drop_bit [symmetric]
  by (simp_all add: word_le_nat_alt less_Suc_eq_le [symmetric] del: if_split)

section \<open>Big-endian integers\<close>

lemmas byte_int_defs = ONE_BYTE_INT_def TWO_BYTE_INT_def THREE_BYTE_INT_def FOUR_BYTE_INT_def SIX_BYTE_INT_def FOUR_BYTE_UINT_def rd32_def

lemma mult_as_push: "256 * (x :: u32) = push_bit 8 x" "65536 * (x :: u32) = push_bit 16 x" "16777216 * (x :: u32) = push_bit 24 x"
  "push_bit 32 1 * (y :: u64) = push_bit 32 y"
  by (simp_all add: push_bit_eq_mult mult.commute)

lemma put_be_eq:
  "put_be (numeral k) v acc = put_be (pred_numeral k) (drop_bit 8 v) (ucast (v AND 0xff) # acc)"
  by (simp add: numeral_eq_Suc)

lemma get1: "fits 7 i \<Longrightarrow> ONE_BYTE_INT (put_be 1 i [] @ q) = Some i"
  apply (simp add: byte_int_defs )
  apply (rule u64_eq_by_bits)
  apply (simp add: fits_def bits_unfold)
  done
lemma get2: "fits 15 i \<Longrightarrow> map_option scast (TWO_BYTE_INT (put_be 2 i [] @ q)) = Some i"
  apply (simp only: byte_int_defs mult_as_push) apply (simp add: put_be_eq del: push_bit_and push_bit_or)
  apply (rule u64_eq_by_bits)
  apply (simp add: fits_def bits_unfold)
  done
lemma get3: "fits 23 i \<Longrightarrow> map_option scast (THREE_BYTE_INT (put_be 3 i [] @ q)) = Some i"
  apply (simp only: byte_int_defs mult_as_push) apply (simp add: put_be_eq del: push_bit_and push_bit_or)
  apply (rule u64_eq_by_bits)
  apply (simp add: fits_def bits_unfold)
  done
lemma get4: "fits 31 i \<Longrightarrow> map_option scast (FOUR_BYTE_INT (put_be 4 i [] @ q)) = Some i"
  apply (simp only: byte_int_defs mult_as_push) apply (simp add: put_be_eq del: push_bit_and push_bit_or)
  apply (rule u64_eq_by_bits)
  apply (simp add: fits_def bits_unfold)
  done

lemma plus_or: "ucast (a::u32) + push_bit 32 (b :: u64) = ucast a OR push_bit 32 b"
  by (rule disjunctive_add) (auto simp: bit_simps)

lemma get6: "fits 47 i \<Longrightarrow> SIX_BYTE_INT (put_be 6 i [] @ q) = Some i"
  apply (simp only: byte_int_defs mult_as_push plus_or) apply (simp add: put_be_eq del: push_bit_and push_bit_or)
  apply (rule u64_eq_by_bits)
  apply (simp add: fits_def bits_unfold)
  done

section \<open>Text and blob types\<close>

definition text_type :: "nat \<Rightarrow> bool \<Rightarrow> u32" where
  "text_type n b = of_nat n * 2 + 12 + (if b then 1 else 0)"

lemma unat_text_type: "n < 2 ^ 30 \<Longrightarrow> unat (text_type n b) = 2 * n + 12 + of_bool b"
  by (simp add: text_type_def unat_word_ariths unat_of_nat)

lemma text_type_ge:
  assumes "n < 2 ^ 30"
  shows "12 \<le> text_type n b" "\<not> text_type n b \<le> 7" "text_type n b \<noteq> 0" "text_type n b \<noteq> 1"
   "text_type n b \<noteq> 2" "text_type n b \<noteq> 3" "text_type n b \<noteq> 4" "text_type n b \<noteq> 5" "text_type n b \<noteq> 6" "text_type n b \<noteq> 7" "text_type n b \<noteq> 8"
   "text_type n b \<noteq> 9" "text_type n b \<noteq> 10" "text_type n b \<noteq> 11" 
  using unat_text_type [OF assms, of b] by (auto simp: word_le_nat_alt)

lemma text_type_half:
  assumes "n < 2 ^ 30"
  shows "unat ((text_type n b - 12) div 2) = n"
proof -
  have "unat (text_type n b - 12) = 2 * n + of_bool b"
    using unat_text_type [OF assms, of b] text_type_ge(1) [OF assms, of b] by (simp add: unat_sub)
  then show ?thesis
    by (simp add: unat_div)
qed

lemma text_type_odd: "n < 2 ^ 30 \<Longrightarrow> text_type n b AND 1 = 0 \<longleftrightarrow> \<not> b"
proof -
  assume n: "n < 2 ^ 30"
  have "text_type n b AND 1 = 0 \<longleftrightarrow> unat (text_type n b mod 2) = 0"
    by (simp only: and_one_eq unat_eq_zero)
  also have "\<dots> \<longleftrightarrow> \<not> b"
    using unat_text_type [OF n, of b] by (simp add: unat_mod)
  finally show ?thesis .
qed

lemma small_type_sizes_text: "12 \<le> k \<Longrightarrow> k < 128 \<Longrightarrow> sqlite3SmallTypeSizes ! k = (k - 12) div 2"
proof -
  have all: "\<forall>k\<in>set [12..<128]. sqlite3SmallTypeSizes ! k = (k - 12) div 2"
    by code_simp
  show "12 \<le> k \<Longrightarrow> k < 128 \<Longrightarrow> sqlite3SmallTypeSizes ! k = (k - 12) div 2"
    by (rule bspec [OF all]) (simp only: set_upt atLeastLessThan_iff)
qed

lemma SerialTypeLen_text:
  assumes "12 \<le> t"
  shows "sqlite3VdbeSerialTypeLen t = unat ((t - 12) div 2)"
  using assms small_type_sizes_text [of "unat t"]
  by (auto simp: sqlite3VdbeSerialTypeLen_def word_le_nat_alt unat_div unat_sub)

lemma small_type_sizes [simp]:
  "sqlite3SmallTypeSizes ! 0 = 0"
  "sqlite3SmallTypeSizes ! Suc 0 = 1" "sqlite3SmallTypeSizes ! 2 = 2" "sqlite3SmallTypeSizes ! 3 = 3"
  "sqlite3SmallTypeSizes ! 4 = 4" "sqlite3SmallTypeSizes ! 5 = 6" "sqlite3SmallTypeSizes ! 6 = 8"
  "sqlite3SmallTypeSizes ! 7 = 8" "sqlite3SmallTypeSizes ! 8 = 0" "sqlite3SmallTypeSizes ! 9 = 0"
  "sqlite3SmallTypeSizes ! 10 = 0" "sqlite3SmallTypeSizes ! 11 = 0"
  by (simp_all add: sqlite3SmallTypeSizes_def)

section \<open>Reading inverts writing\<close>

lemma SerialType_int:
  assumes "MEM_Null \<notin> flags m" "MEM_Int \<in> flags m"
  shows "sqlite3VdbeSerialType m ff =
    (if fits 7 (u_i m) then
       if u_i m AND 1 = u_i m \<and> 4 \<le> ff then (8 + ucast (u_i m), 0) else (1, 1)
     else if fits 15 (u_i m) then (2, 2) else if fits 23 (u_i m) then (3, 3)
     else if fits 31 (u_i m) then (4, 4) else if fits 47 (u_i m) then (5, 6) else (6, 8))"
proof -
  have mag: "(if u_i m <s 0 then NOT (u_i m) else u_i m) = u_i m" if "u_i m AND 1 = u_i m"
  proof -
    have "\<not> bit (u_i m) 63"
      using arg_cong [OF that, of "\<lambda>w. bit w 63"] by (simp add: bit_simps)
    then show ?thesis by (simp add: sless_zero_iff)
  qed
  show ?thesis
    unfolding sqlite3VdbeSerialType_def Let_def mag_le_iff
    using assms mag by (simp only: if_False if_True simp_thms cong: if_cong)
qed

lemma SerialType_real:
  "MEM_Null \<notin> flags m \<Longrightarrow> MEM_Int \<notin> flags m \<Longrightarrow> MEM_Real \<in> flags m \<Longrightarrow> sqlite3VdbeSerialType m ff = (7, 8)"
  by (simp add: sqlite3VdbeSerialType_def)

lemma SerialType_text:
  "flags m \<inter> {MEM_Null, MEM_Int, MEM_Real, MEM_Zero} = {} \<Longrightarrow>
    sqlite3VdbeSerialType m ff = (text_type (length (z m)) (MEM_Str \<in> flags m), of_nat (length (z m)))"
  by (auto simp: sqlite3VdbeSerialType_def text_type_def Let_def)

lemma one_bit_cases: "(i :: i64) AND 1 = i \<Longrightarrow> i = 0 \<or> i = 1"
  by (metis and_one_eq bit.disj_cancel_right mod2_eq_if)

lemma get8: "serialGet (put_be 8 i [] @ q) 6 m = Some (8, m\<lparr>u_i := i, flags := {MEM_Int}\<rparr>)"
  "serialGet (put_be 8 i [] @ q) 7 m = Some (8, m\<lparr>u_r := i, flags := (if sqlite3IsNaN i then {MEM_Null} else {MEM_Real})\<rparr>)"
proof -
  have "FOUR_BYTE_UINT (put_be 8 i [] @ q) = Some (ucast (drop_bit 32 i))"
    "FOUR_BYTE_UINT (drop 4 (put_be 8 i [] @ q)) = Some (ucast i)"
    by (simp_all only: byte_int_defs) (simp_all add: put_be_eq del: push_bit_and push_bit_or, (rule u32_eq_by_bits, simp add: bits_unfold)+)
  moreover have "push_bit 32 (ucast (ucast (drop_bit 32 i) :: u32)) + ucast (ucast i :: u32) = i"
    unfolding add.commute [of "push_bit 32 _"] plus_or by (rule u64_eq_by_bits) (simp add: bits_unfold)
  ultimately show "serialGet (put_be 8 i [] @ q) 6 m = Some (8, m\<lparr>u_i := i, flags := {MEM_Int}\<rparr>)"
   "serialGet (put_be 8 i [] @ q) 7 m = Some (8, m\<lparr>u_r := i, flags := (if sqlite3IsNaN i then {MEM_Null} else {MEM_Real})\<rparr>)"
    by (simp_all add: serialGet_def Let_def)
qed

lemma SerialPut_int [simp]:
  "sqlite3VdbeSerialPut m 0 = []"
  "sqlite3VdbeSerialPut m 1 = put_be 1 (u_i m) []"
  "sqlite3VdbeSerialPut m 2 = put_be 2 (u_i m) []"
  "sqlite3VdbeSerialPut m 3 = put_be 3 (u_i m) []"
  "sqlite3VdbeSerialPut m 4 = put_be 4 (u_i m) []"
  "sqlite3VdbeSerialPut m 5 = put_be 6 (u_i m) []"
  "sqlite3VdbeSerialPut m 6 = put_be 8 (u_i m) []"
  "sqlite3VdbeSerialPut m 7 = put_be 8 (u_r m) []"
  "sqlite3VdbeSerialPut m 8 = []"
  "sqlite3VdbeSerialPut m 9 = []"
  "sqlite3VdbeSerialPut m 10 = []"
  by (simp_all add: sqlite3VdbeSerialPut_def)

lemma length_put_be [simp]: "length (put_be k v acc) = k + length acc"
  by (induction k v acc rule: put_be.induct) simp_all

text \<open>The serial types that a value can get, each with the bytes behind it.\<close>

lemma serial_cases [consumes 2, case_names null int0 int1 int2 int3 int4 int6 int8 real bytes]:
  assumes "storable m" "MEM_Zero \<notin> flags m"
  obtains (null) "MEM_Null \<in> flags m" "sqlite3VdbeSerialType m ff = (0, 0)"
  | (int0) "MEM_Null \<notin> flags m" "MEM_Int \<in> flags m" "u_i m = 0 \<and> sqlite3VdbeSerialType m ff = (8, 0) \<or> u_i m = 1 \<and> sqlite3VdbeSerialType m ff = (9, 0)"
  | (int1) "MEM_Null \<notin> flags m" "MEM_Int \<in> flags m" "fits 7 (u_i m)" "sqlite3VdbeSerialType m ff = (1, 1)"
  | (int2) "MEM_Null \<notin> flags m" "MEM_Int \<in> flags m" "fits 15 (u_i m)" "sqlite3VdbeSerialType m ff = (2, 2)"
  | (int3) "MEM_Null \<notin> flags m" "MEM_Int \<in> flags m" "fits 23 (u_i m)" "sqlite3VdbeSerialType m ff = (3, 3)"
  | (int4) "MEM_Null \<notin> flags m" "MEM_Int \<in> flags m" "fits 31 (u_i m)" "sqlite3VdbeSerialType m ff = (4, 4)"
  | (int6) "MEM_Null \<notin> flags m" "MEM_Int \<in> flags m" "fits 47 (u_i m)" "sqlite3VdbeSerialType m ff = (5, 6)"
  | (int8) "MEM_Null \<notin> flags m" "MEM_Int \<in> flags m" "sqlite3VdbeSerialType m ff = (6, 8)"
  | (real) "MEM_Null \<notin> flags m" "MEM_Int \<notin> flags m" "MEM_Real \<in> flags m" "\<not> sqlite3IsNaN (u_r m)" "sqlite3VdbeSerialType m ff = (7, 8)"
  | (bytes) n b where "flags m \<inter> {MEM_Null, MEM_Int, MEM_Real, MEM_Zero} = {}" "n = length (z m)" "n < 2 ^ 30"
      "b = (MEM_Str \<in> flags m)" "sqlite3VdbeSerialType m ff = (text_type n b, of_nat n)"
proof (cases "MEM_Null \<in> flags m")
  case True
  then show ?thesis using null by (simp add: sqlite3VdbeSerialType_def)
next
  case nn: False
  show ?thesis
  proof (cases "MEM_Int \<in> flags m")
    case True
    then show ?thesis
      using SerialType_int [OF nn True, of ff] one_bit_cases [of "u_i m"] nn int0 int1 int2 int3 int4 int6 int8
      by (auto split: if_splits)
  next
    case ni: False
    show ?thesis
    proof (cases "MEM_Real \<in> flags m")
      case True
      then show ?thesis using real nn ni assms by (simp add: storable_def SerialType_real)
    next
      case False
      then show ?thesis using bytes [of "length (z m)"] nn ni assms
        by (simp add: storable_def SerialType_text)
    qed
  qed
qed

lemma serial_roundtrip_lemma:
  assumes "storable m" "MEM_Zero \<notin> flags m" and t: "t = fst (sqlite3VdbeSerialType m ff)"
  shows "map_option (apsnd mem_value) (sqlite3VdbeSerialGet (sqlite3VdbeSerialPut m t @ rest) t m0) =
      Some (length (sqlite3VdbeSerialPut m t), mem_value m)"
  using assms(1,2)
proof (cases rule: serial_cases [where ff = ff])
  case null
  then show ?thesis by (simp add: t sqlite3VdbeSerialGet_def mem_value_def)
next
  case int0
  from int0(3) show ?thesis
  proof
    assume "u_i m = 0 \<and> sqlite3VdbeSerialType m ff = (8, 0)"
    then show ?thesis using int0(1,2) by (simp add: t sqlite3VdbeSerialGet_def mem_value_def)
  next
    assume "u_i m = 1 \<and> sqlite3VdbeSerialType m ff = (9, 0)"
    then show ?thesis using int0(1,2) by (simp add: t sqlite3VdbeSerialGet_def mem_value_def)
  qed
next
  case int1
  then show ?thesis using get1 [of "u_i m" rest] by (simp add: t sqlite3VdbeSerialGet_def mem_value_def)
next
  case int2
  then show ?thesis using get2 [of "u_i m" rest]
    by (cases "TWO_BYTE_INT (put_be 2 (u_i m) [] @ rest)") (simp_all add: t sqlite3VdbeSerialGet_def mem_value_def)
next
  case int3
  then show ?thesis using get3 [of "u_i m" rest]
    by (cases "THREE_BYTE_INT (put_be 3 (u_i m) [] @ rest)") (simp_all add: t sqlite3VdbeSerialGet_def mem_value_def)
next
  case int4
  then show ?thesis using get4 [of "u_i m" rest]
    by (cases "FOUR_BYTE_INT (put_be 4 (u_i m) [] @ rest)") (simp_all add: t sqlite3VdbeSerialGet_def mem_value_def)
next
  case int6
  then show ?thesis using get6 [of "u_i m" rest] by (auto simp: t sqlite3VdbeSerialGet_def mem_value_def)
next
  case int8
  then show ?thesis using get8(1) [of "u_i m" rest m0] by (auto simp: t sqlite3VdbeSerialGet_def mem_value_def)
next
  case real
  then show ?thesis using get8(2) [of "u_r m" rest m0] by (auto simp: t sqlite3VdbeSerialGet_def mem_value_def)
next
  case (bytes n b)
  then show ?thesis
    by (auto simp: t sqlite3VdbeSerialGet_def sqlite3VdbeSerialPut_def mem_value_def Let_def text_type_ge text_type_half text_type_odd)
qed

lemma serial_length_lemma:
  assumes "storable m" "MEM_Zero \<notin> flags m" and t: "t = fst (sqlite3VdbeSerialType m ff)"
  shows "length (sqlite3VdbeSerialPut m t) = sqlite3VdbeSerialTypeLen t"
    and "snd (sqlite3VdbeSerialType m ff) = of_nat (sqlite3VdbeSerialTypeLen t)"
proof -
  have "length (sqlite3VdbeSerialPut m t) = sqlite3VdbeSerialTypeLen t \<and> snd (sqlite3VdbeSerialType m ff) = of_nat (sqlite3VdbeSerialTypeLen t)"
    using assms(1,2)
  proof (cases rule: serial_cases [where ff = ff])
    case (bytes n b)
    then show ?thesis
      by (simp add: t SerialTypeLen_text text_type_ge text_type_half sqlite3VdbeSerialPut_def)
  qed (auto simp: t sqlite3VdbeSerialTypeLen_def word_le_nat_alt)
  then show "length (sqlite3VdbeSerialPut m t) = sqlite3VdbeSerialTypeLen t"
    and "snd (sqlite3VdbeSerialType m ff) = of_nat (sqlite3VdbeSerialTypeLen t)" by simp_all
qed

lemma four_byte: "map_option scast (FOUR_BYTE_UINT buf) = (map_option scast (FOUR_BYTE_INT buf) :: i64 option)"
proof -
  have "push_bit 24 (ucast x0) OR y = (16777216 * scast x0 :: u32) OR y" for x0 :: u8 and y
    unfolding mult_as_push by (rule u32_eq_by_bits) (simp add: bits_unfold)
  then show ?thesis
    by (simp add: FOUR_BYTE_UINT_def FOUR_BYTE_INT_def rd32_def Option.bind_map_option cong: option.case_cong split: bind_splits)
qed
lemma or_plus: "push_bit 32 (ucast (a :: u32)) OR ucast (b :: u32) = push_bit 32 (ucast a) + (ucast b :: u64)"
  by (metis plus_or add.commute or.commute)

lemma DecodeInt_get:
  assumes "t \<in> {1, 2, 3, 4, 5, 6, 8, 9}"
  shows "vdbeRecordDecodeInt t buf = map_option (u_i \<circ> snd) (sqlite3VdbeSerialGet buf t m)"
proof -
  have b: "map_option f (x \<bind> g) = x \<bind> (\<lambda>a. map_option f (g a))" for f :: "'x \<Rightarrow> 'y" and x :: "'z option" and g
    by (cases x) simp_all
  have m: "map_option f x = x \<bind> (\<lambda>a. Some (f a))" for f :: "'x \<Rightarrow> 'y" and x
    by (cases x) simp_all
  show ?thesis
    using assms four_byte [of buf, unfolded m]
    by (auto simp: vdbeRecordDecodeInt_def sqlite3VdbeSerialGet_def four_byte serialGet_def or_plus b Let_def m)
qed

text \<open>
  The zeros at the end of a blob with \<open>MEM_Zero\<close>: they belong to its value and its serial type,
  but \<open>sqlite3VdbeSerialPut\<close> leaves them to its caller, \<open>OP_MakeRecord\<close>.
\<close>

definition zero_tail :: "Mem \<Rightarrow> u8 list" where
  "zero_tail m = (if MEM_Zero \<in> flags m \<and> flags m \<inter> {MEM_Null, MEM_Int, MEM_Real} = {} then replicate (u_nZero m) 0 else [])"

definition tail_written :: "Mem \<Rightarrow> Mem" where
  "tail_written m = m\<lparr>z := z m @ zero_tail m, flags := flags m - {MEM_Zero}\<rparr>"

lemma tail_written:
  assumes "storable m"
  shows "storable (tail_written m)" "MEM_Zero \<notin> flags (tail_written m)"
    and "mem_value (tail_written m) = mem_value m"
    and "sqlite3VdbeSerialType (tail_written m) ff = sqlite3VdbeSerialType m ff"
proof -
  show "storable (tail_written m)" "MEM_Zero \<notin> flags (tail_written m)" "mem_value (tail_written m) = mem_value m"
    using assms by (auto simp: tail_written_def zero_tail_def storable_def mem_value_def)
  show "sqlite3VdbeSerialType (tail_written m) ff = sqlite3VdbeSerialType m ff"
    by (auto simp: tail_written_def zero_tail_def sqlite3VdbeSerialType_def Let_def)
qed

lemma SerialPut_tail:
  assumes "storable m" and "t = fst (sqlite3VdbeSerialType m ff)"
  shows "sqlite3VdbeSerialPut m t @ zero_tail m = sqlite3VdbeSerialPut (tail_written m) t"
proof (cases "zero_tail m = []")
  case True
  then show ?thesis by (simp add: sqlite3VdbeSerialPut_def tail_written_def)
next
  case False
  note w = tail_written [OF assms(1)]
  have f: "flags m \<inter> {MEM_Null, MEM_Int, MEM_Real} = {}" using False by (auto simp: zero_tail_def split: if_splits)
  have "12 \<le> t"
    using w(1,2) unfolding assms(2) w(4) [of ff, symmetric]
    by (cases rule: serial_cases [where ff = ff]) (use f in \<open>auto simp: tail_written_def text_type_ge\<close>)
  then show ?thesis by (auto simp: sqlite3VdbeSerialPut_def tail_written_def word_le_nat_alt)
qed

section \<open>Properties\<close>

text \<open>
  Property C26. The bytes \<open>sqlite3VdbeSerialPut\<close> writes for the serial type chosen for a
  storable cell, with the zero-filled tail that the caller writes after the bytes of a blob, and followed by anything,
  are read back as the same value, using exactly those bytes;
  their number is what \<open>sqlite3VdbeSerialTypeLen\<close> and the length output of
  \<open>sqlite3VdbeSerialType\<close> say.
\<close>

theorem serial_value_roundtrip:
  assumes "storable m" and "t = fst (sqlite3VdbeSerialType m file_format)"
  shows "map_option (apsnd mem_value)
           (sqlite3VdbeSerialGet (sqlite3VdbeSerialPut m t @ zero_tail m @ rest) t m0) =
         Some (sqlite3VdbeSerialTypeLen t, mem_value m) \<and>
         length (sqlite3VdbeSerialPut m t @ zero_tail m) = sqlite3VdbeSerialTypeLen t \<and>
         snd (sqlite3VdbeSerialType m file_format) = of_nat (sqlite3VdbeSerialTypeLen t)"
proof -
  note w = tail_written [OF assms(1)]
  have t: "t = fst (sqlite3VdbeSerialType (tail_written m) file_format)" by (simp only: w(4) assms(2))
  show ?thesis
    using serial_roundtrip_lemma [OF w(1,2) t, of rest m0] serial_length_lemma [OF w(1,2) t]
    by (simp only: SerialPut_tail [OF assms, symmetric] append_assoc w(3,4))
qed

theorem serial_value_roundtrip_witness:
  "let m = \<lparr>flags = {MEM_Int}, u_i = -129, u_r = 0, u_nZero = 0, z = []\<rparr>;
       t = fst (sqlite3VdbeSerialType m 4);
       b = \<lparr>flags = {MEM_Blob, MEM_Zero}, u_i = 0, u_r = 0, u_nZero = 2, z = [5]\<rparr>
   in t = 2 \<and> map_option (apsnd mem_value) (sqlite3VdbeSerialGet (sqlite3VdbeSerialPut m t @ [7]) t m) = Some (2, VInt (-129)) \<and>
     map_option (apsnd mem_value) (sqlite3VdbeSerialGet (sqlite3VdbeSerialPut b 18 @ [0, 0] @ [7]) 18 m) = Some (3, VBlob [5, 0, 0])"
proof -
  let ?m = "\<lparr>flags = {MEM_Int}, u_i = -129, u_r = 0, u_nZero = 0, z = []\<rparr>"
  let ?b = "\<lparr>flags = {MEM_Blob, MEM_Zero}, u_i = 0, u_r = 0, u_nZero = 2, z = [5]\<rparr>"
  have st: "storable ?m" "storable ?b" by (simp_all add: storable_def)
  have t: "fst (sqlite3VdbeSerialType ?m 4) = 2" "18 = fst (sqlite3VdbeSerialType ?b 4)" by code_simp+
  have l: "sqlite3VdbeSerialTypeLen 2 = 2" "sqlite3VdbeSerialTypeLen 18 = 3" by code_simp+
  have z: "zero_tail ?m = []" "zero_tail ?b = [0, 0]" by (simp_all add: zero_tail_def numeral_2_eq_2)
  have v: "mem_value ?m = VInt (-129)" "mem_value ?b = VBlob [5, 0, 0]" by (simp_all add: mem_value_def numeral_2_eq_2)
  show ?thesis
    unfolding Let_def t(1)
    using conjunct1 [OF serial_value_roundtrip [OF st(1) t(1) [symmetric], of "[7]" ?m]]
      conjunct1 [OF serial_value_roundtrip [OF st(2) t(2), of "[7]" ?m]]
    by (simp only: l z v append_Nil simp_thms)
qed

end
