(* ===== verification/RecordFmt.thy ===== *)
theory RecordFmt
  imports Serial
begin

text \<open>
  Building and unpacking records: the opcode \<open>OP_MakeRecord\<close> (vdbe.c) from the point where
  the affinities have been applied, and \<open>sqlite3VdbeRecordUnpack\<close> (vdbeaux.c).

  The opcode scans its registers from the last to the first to size the record, and
  then writes the serial types at \<open>i\<close> and the values at \<open>j\<close> of one buffer. \<open>mr_scan\<close> and
  \<open>mr_write\<close> are these two loops. \<open>alloc n\<close> says whether the allocator delivers \<open>n\<close>
  bytes; \<open>junk\<close> is what a fresh buffer holds. The outer \<open>option\<close> of the result is \<open>None\<close>
  for a store outside the buffer; the inner sum holds the two error exits of the opcode.
\<close>

section \<open>OP_MakeRecord\<close>

datatype rec_error = Too_big | No_mem

definition sqlite3VdbeMemExpandBlob :: "(nat \<Rightarrow> bool) \<Rightarrow> Mem \<Rightarrow> Mem option" where
  "sqlite3VdbeMemExpandBlob alloc m =
     (let nByte = length (z m) + u_nZero m;
          nByte = (if nByte \<le> 0 then 1 else nByte)
      in if \<not> alloc nByte then None
         else Some (m\<lparr>z := z m @ replicate (u_nZero m) 0, flags := flags m - {MEM_Zero}\<rparr>))"

record mr_state =
  nData :: nat
  nHdr :: nat
  nZero :: nat
  cells :: "(Mem \<times> u32) list"

definition mr_step :: "(nat \<Rightarrow> bool) \<Rightarrow> nat \<Rightarrow> Mem \<Rightarrow> mr_state \<Rightarrow> rec_error + mr_state" where
  "mr_step alloc file_format pRec s =
     (let (serial_type, len) = sqlite3VdbeSerialType pRec file_format;
          count = (\<lambda>p t l nz. Inr \<lparr>nData = nData s + l,
                     nHdr = nHdr s + (if t \<le> 127 then 1 else sqlite3VarintLen (ucast t)),
                     nZero = nz, cells = (p, t) # cells s\<rparr>)
      in if MEM_Zero \<in> flags pRec then
           if serial_type = 0 then count pRec 10 (unat len) (nZero s)
           else if nData s \<noteq> 0 then
             (case sqlite3VdbeMemExpandBlob alloc pRec of
                None \<Rightarrow> Inl No_mem
              | Some p \<Rightarrow> count p serial_type (unat len) (nZero s))
           else count pRec serial_type (unat len - u_nZero pRec) (nZero s + u_nZero pRec)
         else count pRec serial_type (unat len) (nZero s))"

fun mr_scan :: "(nat \<Rightarrow> bool) \<Rightarrow> nat \<Rightarrow> Mem list \<Rightarrow> mr_state \<Rightarrow> rec_error + mr_state" where
  "mr_scan alloc file_format [] s = Inr s"
| "mr_scan alloc file_format (pRec # rest) s =
     (case mr_step alloc file_format pRec s of
        Inl e \<Rightarrow> Inl e
      | Inr s' \<Rightarrow> mr_scan alloc file_format rest s')"

definition header_size :: "nat \<Rightarrow> nat" where
  "header_size n =
     (if n \<le> 126 then n + 1
      else let nVarint = sqlite3VarintLen (of_nat n);
               n = n + nVarint
           in if nVarint < sqlite3VarintLen (of_nat n) then n + 1 else n)"

definition putVarint32 :: "u32 \<Rightarrow> nat \<times> u8 list" where
  "putVarint32 v = (if v < 0x80 then (1, [ucast v]) else sqlite3PutVarint (ucast v))"

fun mr_write :: "(Mem \<times> u32) list \<Rightarrow> nat \<Rightarrow> nat \<Rightarrow> u8 list \<Rightarrow> u8 list option" where
  "mr_write [] i j buf = Some buf"
| "mr_write ((pRec, serial_type) # cs) i j buf = do {
     let (n, bs) = putVarint32 serial_type;
     buf \<leftarrow> blit buf i bs;
     let data = sqlite3VdbeSerialPut pRec serial_type;
     buf \<leftarrow> blit buf j data;
     mr_write cs (i + n) (j + length data) buf
   }"

definition OP_MakeRecord ::
  "(nat \<Rightarrow> bool) \<Rightarrow> u8 \<Rightarrow> nat \<Rightarrow> nat \<Rightarrow> Mem list \<Rightarrow> Mem \<Rightarrow> (rec_error + Mem) option" where
  "OP_MakeRecord alloc junk limit file_format regs pOut =
     (case mr_scan alloc file_format (rev regs) \<lparr>nData = 0, nHdr = 0, nZero = 0, cells = []\<rparr> of
        Inl e \<Rightarrow> Some (Inl e)
      | Inr s \<Rightarrow>
          let hdr = header_size (nHdr s);
              nByte = hdr + nData s
          in if limit < nByte + nZero s then Some (Inl Too_big)
             else if \<not> alloc nByte then Some (Inl No_mem)
             else do {
               let (i, bs) = putVarint32 (of_nat hdr);
               buf \<leftarrow> blit (replicate nByte junk) 0 bs;
               buf \<leftarrow> mr_write (cells s) i hdr buf;
               Some (Inr (if nZero s = 0 then pOut\<lparr>z := buf, flags := {MEM_Blob}\<rparr>
                          else pOut\<lparr>z := buf, flags := {MEM_Blob, MEM_Zero}, u_nZero := nZero s\<rparr>))
             })"

section \<open>sqlite3VdbeRecordUnpack\<close>

text \<open>
  The cells \<open>p->aMem[0], p->aMem[1], \<dots>\<close> that the loop may still fill are its recursion
  argument; it leaves the loop when the last one is filled (\<open>++u >= p->nField\<close>).
\<close>

fun unpack_loop :: "u8 list \<Rightarrow> nat \<Rightarrow> nat \<Rightarrow> nat \<Rightarrow> Mem list \<Rightarrow> Mem list option" where
  "unpack_loop aKey szHdr idx d [] = Some []"
| "unpack_loop aKey szHdr idx d (m # ms) =
     (if idx < szHdr \<and> d \<le> length aKey then do {
        (n, serial_type) \<leftarrow> getVarint32 (drop idx aKey);
        (k, m') \<leftarrow> sqlite3VdbeSerialGet (drop d aKey) serial_type (m\<lparr>z := []\<rparr>);
        rest \<leftarrow> unpack_loop aKey szHdr (idx + n) (d + k) ms;
        Some (m' # rest)
      }
      else Some [])"

definition sqlite3VdbeRecordUnpack :: "u8 list \<Rightarrow> Mem list \<Rightarrow> Mem list option" where
  "sqlite3VdbeRecordUnpack aKey aMem = do {
     (idx, szHdr) \<leftarrow> getVarint32 aKey;
     unpack_loop aKey (unat szHdr) idx (unat szHdr) aMem
   }"

section \<open>The size of the header\<close>

definition varint_bytes :: "u64 \<Rightarrow> u8 list" where
  "varint_bytes v = snd (sqlite3PutVarint v)"

lemma putVarint32_eq: "putVarint32 v = (length (varint_bytes (ucast v)), varint_bytes (ucast v))"
proof (cases "v < 0x80")
  case True
  then have "unat v < 128" by (simp add: word_less_nat_alt)
  then have "(ucast v :: u64) \<le> 0x7f" "unat (ucast v :: u64) < 128"
    by (simp_all add: word_le_nat_alt unsigned_ucast_eq take_bit_nat_eq_self)
  then have "sqlite3PutVarint (ucast v) = (1, [ucast v])"
    by (simp add: sqlite3PutVarint_def le_7f one_byte) (rule bit_word_eqI, simp add: bit_simps)
  with True show ?thesis by (simp add: putVarint32_def varint_bytes_def)
next
  case False
  then show ?thesis
    using sqlite3PutVarint_length [of "ucast v"]
    by (simp add: putVarint32_def varint_bytes_def prod_eq_iff)
qed

lemma getVarint32_bytes: "getVarint32 (varint_bytes (ucast v) @ rest) = Some (length (varint_bytes (ucast v)), v)"
  using sqlite3PutVarint_roundtrip [of "ucast v" rest] sqlite3PutVarint_length [of "ucast v"]
  by (simp add: getVarint32_eq varint_bytes_def clamp32_ucast)

lemma length_varint_bytes: "length (varint_bytes v) = fst (sqlite3PutVarint v)"
  using sqlite3PutVarint_length [of v] by (simp add: varint_bytes_def)

lemma varint_buf_ne [simp]: "varint_buf v \<noteq> []"
  by (simp add: varint_buf.simps)

lemma length_varint_buf_upper_bound: "unat v < 2 ^ (7 * length (varint_buf v))"
  using length_varint_buf_lower [of "length (varint_buf v)" v] not_less by blast

lemma VarintLen_small:
  assumes "unat v < 2 ^ 56"
  shows "sqlite3VarintLen v = length (varint_buf v)" "length (varint_bytes v) = length (varint_buf v)"
  using assms by (simp_all add: sqlite3VarintLen_def varint_len_from_eq length_varint_bytes fst_PutVarint)

lemma header_size_eq:
  assumes "n < 2 ^ 31"
  shows "length (varint_bytes (of_nat (header_size n))) + n = header_size n" "header_size n < 2 ^ 32"
proof -
  define L where "L = (\<lambda>m. length (varint_buf (of_nat m)))"
  have u: "unat (of_nat m :: u64) = m" if "m < 2 ^ 56" for m
    using that by (simp add: unat_of_nat)
  have V: "sqlite3VarintLen (of_nat m) = L m" "length (varint_bytes (of_nat m)) = L m" if "m < 2 ^ 56" for m
    using VarintLen_small [of "of_nat m"] u that by (simp_all add: L_def)
  have up: "m < 2 ^ (7 * L m)" and le: "\<And>k. m < 2 ^ (7 * k) \<Longrightarrow> 0 < k \<Longrightarrow> L m \<le> k" and pos: "0 < L m" if "m < 2 ^ 56" for m
    using length_varint_buf_upper_bound [of "of_nat m"] length_varint_buf [of "of_nat m"] u [OF that]
    by (simp_all add: L_def)
  have "L (header_size n) + n = header_size n \<and> header_size n < 2 ^ 32"
  proof (cases "n \<le> 126")
    case True
    then have "n + 1 < 2 ^ 7" by simp
    then have "L (n + 1) = 1" using le [of "n + 1" 1] pos [of "n + 1"] by simp
    with True show ?thesis by (simp add: header_size_def)
  next
    case False
    let ?v = "L n"
    have n: "n < 2 ^ 56" using assms by simp
    have v: "?v \<le> 5" "0 < ?v" using le [of n 5] pos [of n] assms by simp_all
    then have nv: "n + ?v < 2 ^ 56" "n + ?v + 1 < 2 ^ 56" using assms by simp_all
    have grow: "(2::nat) ^ (7 * ?v) + 6 < 2 ^ (7 * Suc ?v)"
    proof -
      have "(2::nat) ^ 7 \<le> 2 ^ (7 * ?v)" using v by (intro power_increasing) simp_all
      moreover have "(2::nat) ^ (7 * Suc ?v) = 128 * 2 ^ (7 * ?v)" by (simp only: mult_Suc_right power_add) simp
      ultimately show ?thesis by simp
    qed
    have hi: "n + ?v + 1 < 2 ^ (7 * Suc ?v)" using up [OF n] v grow by linarith
    show ?thesis
    proof (cases "?v < L (n + ?v)")
      case True
      have "\<not> n + ?v + 1 < 2 ^ (7 * ?v)"
        using True le [OF nv(1), of ?v] v by linarith
      have "?v < L (n + ?v + 1)"
      proof (rule ccontr)
        assume "\<not> ?v < L (n + ?v + 1)"
        then have "(2::nat) ^ (7 * L (n + ?v + 1)) \<le> 2 ^ (7 * ?v)"
          by (intro power_increasing) simp_all
        with up [OF nv(2)] \<open>\<not> n + ?v + 1 < 2 ^ (7 * ?v)\<close> show False by linarith
      qed
      moreover have "L (n + ?v + 1) \<le> Suc ?v" using le [OF nv(2) hi] by simp
      ultimately have "L (n + ?v + 1) = Suc ?v" by simp
      then show ?thesis using False True V [OF n] V [OF nv(1)] v assms by (simp add: header_size_def Let_def)
    next
      case False': False
      have "?v \<le> L (n + ?v)"
      proof (rule ccontr)
        assume "\<not> ?v \<le> L (n + ?v)"
        then have lt: "L (n + ?v) < ?v" by simp
        have "n < 2 ^ (7 * L (n + ?v))" using up [OF nv(1)] by linarith
        then have "?v \<le> L (n + ?v)" using le [OF n] pos [OF nv(1)] by blast
        with lt show False by simp
      qed
      with False' have "L (n + ?v) = ?v" by simp
      then show ?thesis using False V [OF n] V [OF nv(1)] v assms by (simp add: header_size_def Let_def)
    qed
  qed
  then show "length (varint_bytes (of_nat (header_size n))) + n = header_size n" "header_size n < 2 ^ 32"
    using V [of "header_size n"] by simp_all
qed

section \<open>What the record should contain\<close>

text \<open>
  A zero-filled tail (\<open>MEM_Zero\<close>) belongs to a blob, or marks an unchanged column when the
  cell is null. \<open>record_image\<close> is the record as the file format describes it: the size of
  the header, the serial types, the values with their tails written out.
\<close>

definition zero_ok :: "Mem \<Rightarrow> bool" where
  "zero_ok m \<longleftrightarrow> (MEM_Zero \<in> flags m \<longrightarrow> flags m \<inter> {MEM_Int, MEM_Real, MEM_Str} = {})"

definition record_type :: "nat \<Rightarrow> Mem \<Rightarrow> u32" where
  "record_type ff m = (if {MEM_Null, MEM_Zero} \<subseteq> flags m then 10 else fst (sqlite3VdbeSerialType m ff))"

definition expanded :: "Mem \<Rightarrow> Mem" where
  "expanded m = (if MEM_Zero \<in> flags m \<and> MEM_Null \<notin> flags m
     then m\<lparr>z := z m @ replicate (u_nZero m) 0, flags := flags m - {MEM_Zero}\<rparr> else m)"

definition record_data :: "nat \<Rightarrow> Mem \<Rightarrow> u8 list" where
  "record_data ff m = sqlite3VdbeSerialPut (expanded m) (record_type ff m)"

definition cell_bytes :: "(Mem \<times> u32) list \<Rightarrow> u8 list" where
  "cell_bytes cs = concat (map (\<lambda>(p, t). sqlite3VdbeSerialPut p t) cs)"

definition header_types :: "u32 list \<Rightarrow> u8 list" where
  "header_types ts = concat (map (\<lambda>t. varint_bytes (ucast t)) ts)"

definition record_image :: "nat \<Rightarrow> Mem list \<Rightarrow> u8 list" where
  "record_image ff ms =
     (let types = header_types (map (record_type ff) ms)
      in varint_bytes (of_nat (header_size (length types))) @ types @ concat (map (record_data ff) ms))"

section \<open>The scan\<close>

text \<open>What the scan has established when it has seen the last cells \<open>ms\<close>.\<close>

definition scanned :: "nat \<Rightarrow> Mem list \<Rightarrow> mr_state \<Rightarrow> bool" where
  "scanned ff ms s \<longleftrightarrow>
     map snd (cells s) = map (record_type ff) ms \<and>
     cell_bytes (cells s) @ replicate (nZero s) 0 = concat (map (record_data ff) ms) \<and>
     nData s = length (cell_bytes (cells s)) \<and>
     nHdr s = length (header_types (map snd (cells s)))"

lemma cell_bytes_simps [simp]:
  "cell_bytes [] = []"
  "cell_bytes ((p, t) # cs) = sqlite3VdbeSerialPut p t @ cell_bytes cs"
  by (simp_all add: cell_bytes_def)

lemma header_types_simps [simp]:
  "header_types [] = []"
  "header_types (t # ts) = varint_bytes (ucast t) @ header_types ts"
  by (simp_all add: header_types_def)

lemma type_len: "(if t \<le> 127 then 1 else sqlite3VarintLen (ucast (t::u32))) = length (varint_bytes (ucast t))"
proof -
  have "unat (ucast t :: u64) < 2 ^ 56"
    using unsigned_less [of t, where 'a = nat] by (simp add: unsigned_ucast_eq take_bit_nat_eq_self)
  then have *: "sqlite3VarintLen (ucast t) = length (varint_bytes (ucast t))" by (simp add: VarintLen_small)
  have le: "t \<le> 127 \<longleftrightarrow> t < 0x80"
    by (auto simp: word_le_nat_alt word_less_nat_alt)
  show ?thesis
    unfolding le using putVarint32_eq [of t] * by (cases "t < 0x80") (simp_all add: putVarint32_def)
qed

lemma type_zero_blob:
  assumes "storable m" "zero_ok m" "MEM_Zero \<in> flags m" "MEM_Null \<notin> flags m"
  shows "fst (sqlite3VdbeSerialType m ff) = text_type (length (z m) + u_nZero m) False" "snd (sqlite3VdbeSerialType m ff) = of_nat (length (z m) + u_nZero m)"
  using assms by (auto simp: zero_ok_def sqlite3VdbeSerialType_def text_type_def Let_def)

lemma serial_put_small:
  assumes "storable m" "MEM_Zero \<notin> flags m"
  shows "length (sqlite3VdbeSerialPut m (fst (sqlite3VdbeSerialType m ff))) < 2 ^ 30"
  using assms by (cases rule: serial_cases [where ff = ff]) (auto simp: sqlite3VdbeSerialPut_def text_type_ge)

lemma mr_step_ok:
  assumes s: "scanned ff ms s" and p: "storable p" "zero_ok p" and ok: "mr_step alloc ff p s = Inr s'"
  shows "scanned ff (p # ms) s'"
proof (cases "MEM_Zero \<in> flags p")
  case False
  have len: "unat (snd (sqlite3VdbeSerialType p ff)) = length (sqlite3VdbeSerialPut p (fst (sqlite3VdbeSerialType p ff)))"
    using serial_length_lemma [OF p(1) False refl, of ff] serial_put_small [OF p(1) False, of ff]
    by (simp add: unat_of_nat)
  show ?thesis
    using s ok False len
    by (auto simp: scanned_def mr_step_def record_type_def record_data_def expanded_def Let_def type_len split: prod.splits)
next
  case z: True
  show ?thesis
  proof (cases "MEM_Null \<in> flags p")
    case True
    then have "sqlite3VdbeSerialType p ff = (0, 0)" by (simp add: sqlite3VdbeSerialType_def)
    then show ?thesis
    using s ok z True 
    by (auto simp: scanned_def mr_step_def record_type_def record_data_def expanded_def Let_def type_len split: prod.splits)
  next
    case nn: False
    have nb: "length (z p) + u_nZero p < 2 ^ 30" using p z by (simp add: storable_def)
    note ty = type_zero_blob [OF p z nn, of ff]
    have put: "sqlite3VdbeSerialPut q (text_type n False) = z q" if "n < 2 ^ 30" for q n
      using text_type_ge [OF that, of False] by (simp add: sqlite3VdbeSerialPut_def)
    have len: "unat (of_nat (length (z p) + u_nZero p) :: u32) = length (z p) + u_nZero p" using nb by (simp add: unat_of_nat del: of_nat_add)
    show ?thesis
    proof (cases "nData s = 0")
      case True
      then have cb: "cell_bytes (cells s) = []" using s by (simp add: scanned_def)
      have "replicate (nZero s + u_nZero p) 0 = replicate (u_nZero p) 0 @ replicate (nZero s) (0::u8)"
        by (metis add.commute replicate_add)
      then show ?thesis
        using cb s ok z nn ty nb put [OF nb] len True text_type_ge [OF nb, of False]
        by (cases "sqlite3VdbeSerialType p ff") (auto simp: scanned_def mr_step_def record_type_def record_data_def expanded_def Let_def type_len)
    next
      case False
      then show ?thesis
        using s ok z nn ty nb put [OF nb] len text_type_ge [OF nb, of False]
        by (cases "sqlite3VdbeSerialType p ff") (auto simp: scanned_def mr_step_def record_type_def record_data_def expanded_def Let_def type_len sqlite3VdbeMemExpandBlob_def split: if_splits)
    qed
  qed
qed

lemma mr_scan_ok:
  "scanned ff ms s \<Longrightarrow> \<forall>p\<in>set ps. storable p \<and> zero_ok p \<Longrightarrow> mr_scan alloc ff ps s = Inr s' \<Longrightarrow>
   scanned ff (rev ps @ ms) s'"
proof (induction ps arbitrary: ms s)
  case (Cons p ps)
  then obtain s1 where "mr_step alloc ff p s = Inr s1" "mr_scan alloc ff ps s1 = Inr s'"
    by (auto split: sum.splits)
  with Cons show ?case
    using mr_step_ok [of ff ms s p alloc s1] by fastforce
qed simp

lemma mr_scan_error:
  "mr_scan alloc ff ps s = Inl e \<Longrightarrow> e = No_mem \<and> (\<exists>n. \<not> alloc n)"
proof (induction ps arbitrary: s)
  case (Cons p ps)
  then show ?case
    by (auto simp: mr_step_def sqlite3VdbeMemExpandBlob_def Let_def split: sum.splits if_splits prod.splits option.splits)
qed simp

section \<open>Writing the record\<close>

lemma blit_middle:
  "length ys = length xs \<Longrightarrow> i = length a \<Longrightarrow> blit (a @ xs @ b) i ys = Some (a @ ys @ b)"
  by (simp add: blit_def)

lemma mr_write_ok:
  assumes "length j1 = length (header_types (map snd cs))" "length j2 = length (cell_bytes cs)"
  shows "mr_write cs (length a) (length a + length j1 + length d) (a @ j1 @ d @ j2) =
    Some (a @ header_types (map snd cs) @ d @ cell_bytes cs)"
  using assms
proof (induction cs arbitrary: a d j1 j2)
  case (Cons c cs)
  obtain p t where c: "c = (p, t)" by (cases c)
  let ?h = "varint_bytes (ucast t)" and ?v = "sqlite3VdbeSerialPut p t"
  define j1a j1b where "j1a = take (length ?h) j1" and "j1b = drop (length ?h) j1"
  define j2a j2b where "j2a = take (length ?v) j2" and "j2b = drop (length ?v) j2"
  have j1: "j1 = j1a @ j1b" "length j1a = length ?h" and j2: "j2 = j2a @ j2b" "length j2a = length ?v"
    using Cons.prems by (simp_all add: c j1a_def j1b_def j2a_def j2b_def)
  have "blit (a @ j1 @ d @ j2) (length a) ?h = Some ((a @ ?h) @ j1b @ d @ j2)"
    using blit_middle [of ?h j1a "length a" a "j1b @ d @ j2"] by (simp add: j1)
  moreover have "blit ((a @ ?h) @ j1b @ d @ j2) (length a + length j1 + length d) ?v = Some ((a @ ?h) @ j1b @ (d @ ?v) @ j2b)"
    using blit_middle [of ?v j2a "length a + length j1 + length d" "a @ ?h @ j1b @ d" j2b] by (simp add: j1 j2)
  moreover have "mr_write cs (length (a @ ?h)) (length (a @ ?h) + length j1b + length (d @ ?v)) ((a @ ?h) @ j1b @ (d @ ?v) @ j2b) =
      Some ((a @ ?h) @ header_types (map snd cs) @ (d @ ?v) @ cell_bytes cs)"
    by (rule Cons.IH) (use Cons.prems j1 j2 in \<open>simp_all add: c\<close>)
  ultimately show ?case
    by (simp add: c putVarint32_eq j1 add.assoc)
qed simp

lemma length_header_types: "length (header_types ts) \<le> 9 * length ts"
proof (induction ts)
  case (Cons t ts)
  then show ?case using sqlite3PutVarint_length [of "ucast t"] by (simp add: length_varint_bytes)
qed simp

lemma ucast_of_nat: "n < 2 ^ 32 \<Longrightarrow> ucast (of_nat n :: u32) = (of_nat n :: u64)"
  by (simp add: unsigned_of_nat take_bit_nat_eq_self)

lemma MakeRecord_correct_lemma:
  assumes ms: "\<forall>m\<in>set ms. storable m \<and> zero_ok m" "length ms \<le> 32767"
  shows "case OP_MakeRecord alloc junk limit ff ms pOut of
           None \<Rightarrow> False
         | Some (Inl Too_big) \<Rightarrow> limit < length (record_image ff ms)
         | Some (Inl No_mem) \<Rightarrow> (\<exists>n. \<not> alloc n)
         | Some (Inr out) \<Rightarrow> mem_value out = VBlob (record_image ff ms) \<and> length (record_image ff ms) \<le> limit"
proof (cases "mr_scan alloc ff (rev ms) \<lparr>nData = 0, nHdr = 0, nZero = 0, cells = []\<rparr>")
  case (Inl e)
  then show ?thesis using mr_scan_error [OF Inl] by (simp add: OP_MakeRecord_def)
next
  case (Inr s)
  have "scanned ff (rev (rev ms) @ []) s"
    by (rule mr_scan_ok [OF _ _ Inr]) (use ms in \<open>simp_all add: scanned_def\<close>)
  then have s: "map snd (cells s) = map (record_type ff) ms"
     "cell_bytes (cells s) @ replicate (nZero s) 0 = concat (map (record_data ff) ms)"
     "nData s = length (cell_bytes (cells s))" "nHdr s = length (header_types (map snd (cells s)))"
    by (simp_all add: scanned_def)
  let ?T = "header_types (map (record_type ff) ms)"
  have T: "nHdr s = length ?T" by (simp add: s)
  have "length ?T < 2 ^ 31" using length_header_types [of "map (record_type ff) ms"] ms(2) by simp
  note hs = header_size_eq [OF this]
  let ?h = "header_size (nHdr s)" and ?H = "varint_bytes (of_nat (header_size (nHdr s)))"
  have len: "length (record_image ff ms) = ?h + nData s + nZero s"
    using hs arg_cong [OF s(2), of length] by (simp add: record_image_def T s(3) Let_def)
  have put: "putVarint32 (of_nat ?h) = (length ?H, ?H)"
    using hs by (simp add: putVarint32_eq ucast_of_nat T)
  have b1: "blit (replicate (?h + nData s) junk) 0 ?H = Some (?H @ replicate (nHdr s) junk @ [] @ replicate (nData s) junk)"
    using hs by (simp add: blit_def T flip: replicate_add)
  have b2: "mr_write (cells s) (length ?H) ?h (?H @ replicate (nHdr s) junk @ [] @ replicate (nData s) junk) =
     Some (?H @ ?T @ cell_bytes (cells s))"
    using mr_write_ok [of "replicate (nHdr s) junk" "cells s" "replicate (nData s) junk" ?H "[]"] hs s by (simp add: T)
  have img: "record_image ff ms = (?H @ ?T @ cell_bytes (cells s)) @ replicate (nZero s) 0"
    using s(2) by (simp add: record_image_def Let_def T)
  show ?thesis
    using len img by (auto simp: OP_MakeRecord_def Inr put b1 b2 [simplified] Let_def mem_value_def)
qed

section \<open>Unpacking\<close>

lemma record_field_get:
  assumes "storable m" "zero_ok m"
  shows "\<exists>m'. sqlite3VdbeSerialGet (record_data ff m @ rest) (record_type ff m) m0 = Some (length (record_data ff m), m') \<and>
      mem_value m' = mem_value m"
proof (cases "{MEM_Null, MEM_Zero} \<subseteq> flags m")
  case True
  then show ?thesis
    by (simp add: record_data_def record_type_def sqlite3VdbeSerialGet_def mem_value_def)
next
  case False
  have st: "storable (expanded m)" "MEM_Zero \<notin> flags (expanded m)" "mem_value (expanded m) = mem_value m"
    "record_type ff m = fst (sqlite3VdbeSerialType (expanded m) ff)"
    using assms False by (auto simp: expanded_def storable_def zero_ok_def record_type_def mem_value_def sqlite3VdbeSerialType_def Let_def split: if_splits)
  show ?thesis
    using serial_roundtrip_lemma [OF st(1,2,4), of rest m0] st(3) by (auto simp: record_data_def)
qed

lemma unpack_loop_image:
  assumes "\<forall>m\<in>set ms. storable m \<and> zero_ok m" "length slots = length ms"
    and "drop idx aKey = header_types (map (record_type ff) ms) @ x"
    and "drop d aKey = concat (map (record_data ff) ms) @ y" "d \<le> length aKey"
    and "szHdr = idx + length (header_types (map (record_type ff) ms))"
  shows "map_option (map mem_value) (unpack_loop aKey szHdr idx d slots) = Some (map mem_value ms)"
  using assms
proof (induction ms arbitrary: idx d slots)
  case (Cons m ms)
  obtain s0 slots' where sl: "slots = s0 # slots'" using Cons.prems by (cases slots) auto
  let ?h = "varint_bytes (ucast (record_type ff m))" and ?v = "record_data ff m"
  have ne: "0 < length ?h" using sqlite3PutVarint_length [of "ucast (record_type ff m)"] by (simp add: length_varint_bytes)
  obtain m' where m': "sqlite3VdbeSerialGet (drop d aKey) (record_type ff m) (s0\<lparr>z := []\<rparr>) = Some (length ?v, m')" "mem_value m' = mem_value m"
    using record_field_get [of m ff "concat (map (record_data ff) ms) @ y"] Cons.prems by auto
  have t: "getVarint32 (drop idx aKey) = Some (length ?h, record_type ff m)"
    using Cons.prems getVarint32_bytes [of "record_type ff m"] by simp
  have "map_option (map mem_value) (unpack_loop aKey szHdr (idx + length ?h) (d + length ?v) slots') = Some (map mem_value ms)"
  proof (rule Cons.IH)
    show "drop (idx + length ?h) aKey = header_types (map (record_type ff) ms) @ x"
      using arg_cong [OF Cons.prems(3), of "drop (length ?h)"] by (simp add: add.commute)
    show "drop (d + length ?v) aKey = concat (map (record_data ff) ms) @ y"
      using arg_cong [OF Cons.prems(4), of "drop (length ?v)"] by (simp add: add.commute)
    show "d + length ?v \<le> length aKey"
      using arg_cong [OF Cons.prems(4), of length] Cons.prems(5) by simp
  qed (use Cons.prems sl in auto)
  then show ?case
    using ne t m' Cons.prems by (auto simp: sl)
qed simp

lemma unpack_image_lemma:
  assumes "\<forall>m\<in>set ms. storable m \<and> zero_ok m" "length ms \<le> 32767" "length slots = length ms"
  shows "map_option (map mem_value) (sqlite3VdbeRecordUnpack (record_image ff ms) slots) = Some (map mem_value ms)"
proof -
  let ?T = "header_types (map (record_type ff) ms)" and ?D = "concat (map (record_data ff) ms)"
  let ?h = "header_size (length ?T)" 
  let ?H = "varint_bytes (of_nat ?h)"
  have "length ?T < 2 ^ 31" using length_header_types [of "map (record_type ff) ms"] assms(2) by simp
  note hs = header_size_eq [OF this]
  have img: "record_image ff ms = ?H @ ?T @ ?D" by (simp add: record_image_def Let_def)
  have u: "unat (of_nat ?h :: u32) = ?h" using hs by (simp add: unat_of_nat)
  have "getVarint32 (record_image ff ms) = Some (length ?H, of_nat ?h)"
    using getVarint32_bytes [of "of_nat ?h" "?T @ ?D"] hs by (simp add: img ucast_of_nat)
  moreover have "map_option (map mem_value) (unpack_loop (record_image ff ms) ?h (length ?H) ?h slots) = Some (map mem_value ms)"
    by (rule unpack_loop_image [where x = ?D and y = "[]" and ff = ff]) (use assms hs in \<open>simp_all add: img\<close>)
  ultimately show ?thesis by (simp add: sqlite3VdbeRecordUnpack_def u)
qed

section \<open>Properties\<close>

text \<open>
  Property C2. \<open>OP_MakeRecord\<close> never stores outside its buffer. It produces the record of
  the format exactly when that fits the length limit, gives \<open>too_big\<close> only when it does
  not, and \<open>no_mem\<close> only when an allocation failed.
\<close>

theorem MakeRecord_correct:
  assumes "\<forall>m\<in>set regs. storable m \<and> zero_ok m" and "length regs \<le> 32767"
  shows "case OP_MakeRecord alloc junk limit file_format regs pOut of
           None \<Rightarrow> False
         | Some (Inl Too_big) \<Rightarrow> limit < length (record_image file_format regs)
         | Some (Inl No_mem) \<Rightarrow> (\<exists>n. \<not> alloc n)
         | Some (Inr out) \<Rightarrow> mem_value out = VBlob (record_image file_format regs) \<and>
                            length (record_image file_format regs) \<le> limit"
  using assms by (rule MakeRecord_correct_lemma)

abbreviation sample_regs :: "Mem list" where
  "sample_regs \<equiv>
     [\<lparr>flags = {MEM_Int}, u_i = 5, u_r = 0, u_nZero = 0, z = []\<rparr>,
      \<lparr>flags = {MEM_Null}, u_i = 0, u_r = 0, u_nZero = 0, z = []\<rparr>,
      \<lparr>flags = {MEM_Str}, u_i = 0, u_r = 0, u_nZero = 0, z = [104, 105]\<rparr>,
      \<lparr>flags = {MEM_Blob, MEM_Zero}, u_i = 0, u_r = 0, u_nZero = 2, z = [1]\<rparr>]"

theorem MakeRecord_correct_witness:
  "record_image 4 sample_regs = [5, 1, 0, 17, 18, 5, 104, 105, 1, 0, 0] \<and>
   (case OP_MakeRecord (\<lambda>n. True) 170 1000 4 sample_regs (hd sample_regs) of
      None \<Rightarrow> False
    | Some (Inl Too_big) \<Rightarrow> 1000 < length (record_image 4 sample_regs)
    | Some (Inl No_mem) \<Rightarrow> (\<exists>n::nat. \<not> True)
    | Some (Inr out) \<Rightarrow> mem_value out = VBlob (record_image 4 sample_regs) \<and>
                       length (record_image 4 sample_regs) \<le> 1000)"
proof (rule conjI [OF _ MakeRecord_correct])
  show "record_image 4 sample_regs = [5, 1, 0, 17, 18, 5, 104, 105, 1, 0, 0]"
    by code_simp
qed (simp_all add: storable_def zero_ok_def)

text \<open>
  Property C3. Unpacking a record that \<open>OP_MakeRecord\<close> built gives back the values of the
  registers, whatever the destination cells held before.
\<close>

theorem record_roundtrip:
  assumes "\<forall>m\<in>set regs. storable m \<and> zero_ok m" and "length regs \<le> 32767"
    and "OP_MakeRecord alloc junk limit file_format regs pOut = Some (Inr out)"
    and "mem_value out = VBlob aKey" and "length aMem = length regs"
  shows "map_option (map mem_value) (sqlite3VdbeRecordUnpack aKey aMem) = Some (map mem_value regs)"
proof -
  have "aKey = record_image file_format regs"
    using MakeRecord_correct_lemma [OF assms(1,2), where alloc = alloc and junk = junk
        and limit = limit and ff = file_format and pOut = pOut] assms(3,4)
    by simp
  then show ?thesis
    using unpack_image_lemma [OF assms(1,2,5)] by simp
qed

theorem record_roundtrip_witness:
  "map_option (map mem_value)
     (sqlite3VdbeRecordUnpack [5, 1, 0, 17, 18, 5, 104, 105, 1, 0, 0] sample_regs) =
   Some [VInt 5, VNull, VText [104, 105], VBlob [1, 0, 0]]"
proof -
  let ?out = "(hd sample_regs)\<lparr>flags := {MEM_Blob, MEM_Zero}, z := [5, 1, 0, 17, 18, 5, 104, 105, 1], u_nZero := 2\<rparr>"
  have "OP_MakeRecord (\<lambda>n. True) 170 1000 4 sample_regs (hd sample_regs) = Some (Inr ?out)"
    by code_simp
  moreover have "mem_value ?out = VBlob [5, 1, 0, 17, 18, 5, 104, 105, 1, 0, 0]"
    by code_simp
  moreover have "map mem_value sample_regs = [VInt 5, VNull, VText [104, 105], VBlob [1, 0, 0]]"
    by code_simp
  ultimately show ?thesis
    using record_roundtrip [where regs = sample_regs and alloc = "\<lambda>n. True" and junk = 170
        and limit = 1000 and file_format = 4 and pOut = "hd sample_regs" and out = ?out
        and aMem = sample_regs]
    by (simp add: storable_def zero_ok_def)
qed

end
