(* ===== verification/RecordCompare.thy ===== *)
theory RecordCompare
  imports RecordFmt
begin

text \<open>
  Comparing a stored record with an unpacked one (vdbeaux.c, \<open>isAllZero\<close> to
  \<open>sqlite3VdbeFindCompare\<close>): the general comparator, the two comparators specialised on the
  first field, the function that chooses between them, and the comparison of two cells.

  The left key is the byte list \<open>aKey1\<close>, so \<open>nKey1\<close> is its length. \<open>None\<close> is a read
  outside it. A collation is the function \<open>xCmp\<close> the application supplies, for a collation
  whose encoding is that of the database; comparing through a change of encoding is not
  modelled. The long double of \<open>sqlite3IntFloatCompare\<close> holds every 64-bit integer
  exactly, so the comparison is the one of the exact numbers: \<open>dbl\<close> is the value of a double
  times \<open>2 ^ 1074\<close>, infinities lying beyond every finite value.
\<close>

section \<open>Comparing values\<close>

fun memcmp :: "u8 list \<Rightarrow> u8 list \<Rightarrow> nat \<Rightarrow> int" where
  "memcmp (a # as) (b # bs) (Suc n) =
     (if a < b then -1 else if b < a then 1 else memcmp as bs n)"
| "memcmp _ _ _ = 0"

definition dbl :: "u64 \<Rightarrow> int" where
  "dbl r =
     (let e = unat (drop_bit 52 r AND 0x7ff);
          f = uint (r AND 0xfffffffffffff);
          a = (if e = 0 then f else (f + 2 ^ 52) * 2 ^ (e - 1))
      in if bit r 63 then - a else a)"

definition sqlite3IntFloatCompare :: "i64 \<Rightarrow> u64 \<Rightarrow> int" where
  "sqlite3IntFloatCompare i r =
     (let x = sint i * 2 ^ 1074 in if x < dbl r then -1 else if dbl r < x then 1 else 0)"

fun isAllZero :: "u8 list \<Rightarrow> bool" where
  "isAllZero [] = True"
| "isAllZero (b # bs) = (if b \<noteq> 0 then False else isAllZero bs)"

definition sqlite3BlobCompare :: "Mem \<Rightarrow> Mem \<Rightarrow> int" where
  "sqlite3BlobCompare pB1 pB2 =
     (let n1 = int (length (z pB1)); n2 = int (length (z pB2));
          z1 = MEM_Zero \<in> flags pB1; z2 = MEM_Zero \<in> flags pB2
      in if z1 \<or> z2 then
           if z1 \<and> z2 then int (u_nZero pB1) - int (u_nZero pB2)
           else if z1 then
             if \<not> isAllZero (z pB2) then -1 else int (u_nZero pB1) - n2
           else
             if \<not> isAllZero (z pB1) then 1 else n1 - int (u_nZero pB2)
         else
           let c = memcmp (z pB1) (z pB2) (nat (if n1 > n2 then n2 else n1))
           in if c \<noteq> 0 then c else n1 - n2)"

type_synonym xCmp = "u8 list \<Rightarrow> u8 list \<Rightarrow> int"

definition vdbeCompareMemString :: "u8 list \<Rightarrow> u8 list \<Rightarrow> xCmp \<Rightarrow> int" where
  "vdbeCompareMemString z1 z2 xcmp = xcmp z1 z2"

definition sqlite3MemCompare :: "Mem \<Rightarrow> Mem \<Rightarrow> xCmp option \<Rightarrow> int" where
  "sqlite3MemCompare m1 m2 pColl =
     (let f1 = flags m1; f2 = flags m2; combined = f1 \<union> f2
      in if MEM_Null \<in> combined then of_bool (MEM_Null \<in> f2) - of_bool (MEM_Null \<in> f1)
         else if MEM_Int \<in> combined \<or> MEM_Real \<in> combined then
           if MEM_Int \<in> f1 \<inter> f2 then
             if u_i m1 <s u_i m2 then -1 else if u_i m2 <s u_i m1 then 1 else 0
           else if MEM_Real \<in> f1 \<inter> f2 then
             if dbl (u_r m1) < dbl (u_r m2) then -1 else if dbl (u_r m2) < dbl (u_r m1) then 1 else 0
           else if MEM_Int \<in> f1 then
             if MEM_Real \<in> f2 then sqlite3IntFloatCompare (u_i m1) (u_r m2) else -1
           else if MEM_Real \<in> f1 then
             if MEM_Int \<in> f2 then - sqlite3IntFloatCompare (u_i m2) (u_r m1) else -1
           else 1
         else if MEM_Str \<in> combined \<and> MEM_Str \<notin> f1 then 1
         else if MEM_Str \<in> combined \<and> MEM_Str \<notin> f2 then -1
         else case (if MEM_Str \<in> combined then pColl else None) of
             Some c \<Rightarrow> vdbeCompareMemString (z m1) (z m2) c
           | None \<Rightarrow> sqlite3BlobCompare m1 m2)"

section \<open>Comparing records\<close>

record KeyInfo =
  nAllField :: nat
  aColl :: "xCmp option list"
  aSortOrder :: "bool list"

record UnpackedRecord =
  pKeyInfo :: KeyInfo
  aMem :: "Mem list"
  default_rc :: int
  r1 :: int
  r2 :: int
  errCode :: nat
  eqSeen :: bool

abbreviation SQLITE_CORRUPT :: nat where
  "SQLITE_CORRUPT \<equiv> 11"

datatype field_cmp = Corrupt | Cmp int

text \<open>One field: the serial type read from the header and the outcome of the comparison.\<close>

definition compare_field ::
  "u8 list \<Rightarrow> nat \<Rightarrow> nat \<Rightarrow> Mem \<Rightarrow> xCmp option \<Rightarrow> (u32 \<times> field_cmp) option" where
  "compare_field aKey1 idx1 d1 pRhs coll =
     (if MEM_Int \<in> flags pRhs then do {
        serial_type \<leftarrow> rd32 aKey1 idx1;
        if 10 \<le> serial_type then Some (serial_type, Cmp 1)
        else if serial_type = 0 then Some (serial_type, Cmp (-1))
        else if serial_type = 7 then do {
          (_, mem1) \<leftarrow> sqlite3VdbeSerialGet (drop d1 aKey1) serial_type pRhs;
          Some (serial_type, Cmp (- sqlite3IntFloatCompare (u_i pRhs) (u_r mem1)))
        }
        else do {
          lhs \<leftarrow> vdbeRecordDecodeInt serial_type (drop d1 aKey1);
          let rhs = u_i pRhs;
          Some (serial_type, Cmp (if lhs <s rhs then -1 else if rhs <s lhs then 1 else 0))
        }
      }
      else if MEM_Real \<in> flags pRhs then do {
        serial_type \<leftarrow> rd32 aKey1 idx1;
        if 10 \<le> serial_type then Some (serial_type, Cmp 1)
        else if serial_type = 0 then Some (serial_type, Cmp (-1))
        else do {
          (_, mem1) \<leftarrow> sqlite3VdbeSerialGet (drop d1 aKey1) serial_type pRhs;
          Some (serial_type,
            Cmp (if serial_type = 7 then
                   if dbl (u_r mem1) < dbl (u_r pRhs) then -1
                   else if dbl (u_r pRhs) < dbl (u_r mem1) then 1 else 0
                 else sqlite3IntFloatCompare (u_i mem1) (u_r pRhs)))
        }
      }
      else if MEM_Str \<in> flags pRhs then do {
        (_, serial_type) \<leftarrow> getVarint32 (drop idx1 aKey1);
        if serial_type < 12 then Some (serial_type, Cmp (-1))
        else if serial_type AND 1 = 0 then Some (serial_type, Cmp 1)
        else
          let n = unat ((serial_type - 12) div 2)
          in if length aKey1 < d1 + n then Some (serial_type, Corrupt)
             else
               let str = take n (drop d1 aKey1)
               in Some (serial_type, Cmp (case coll of
                    Some c \<Rightarrow> vdbeCompareMemString str (z pRhs) c
                  | None \<Rightarrow>
                      let rc = memcmp str (z pRhs) (min n (length (z pRhs)))
                      in if rc = 0 then int n - int (length (z pRhs)) else rc))
      }
      else if MEM_Blob \<in> flags pRhs then do {
        (_, serial_type) \<leftarrow> getVarint32 (drop idx1 aKey1);
        if serial_type < 12 \<or> serial_type AND 1 \<noteq> 0 then Some (serial_type, Cmp (-1))
        else
          let nStr = unat ((serial_type - 12) div 2)
          in if length aKey1 < d1 + nStr then Some (serial_type, Corrupt)
             else
               let str = take nStr (drop d1 aKey1)
               in Some (serial_type, Cmp (
                    if MEM_Zero \<in> flags pRhs then
                      if \<not> isAllZero str then 1 else int nStr - int (u_nZero pRhs)
                    else
                      let rc = memcmp str (z pRhs) (min nStr (length (z pRhs)))
                      in if rc = 0 then int nStr - int (length (z pRhs)) else rc))
      }
      else do {
        serial_type \<leftarrow> rd32 aKey1 idx1;
        Some (serial_type, Cmp (of_bool (serial_type \<noteq> 0)))
      })"

text \<open>The loop over the fields; its list holds what is left of the right key.\<close>

fun compare_loop ::
  "u8 list \<Rightarrow> nat \<Rightarrow> nat \<Rightarrow> nat \<Rightarrow> (Mem \<times> xCmp option \<times> bool) list \<Rightarrow> UnpackedRecord \<Rightarrow>
   (int \<times> UnpackedRecord) option" where
  "compare_loop aKey1 szHdr1 idx1 d1 [] p = Some (default_rc p, p\<lparr>eqSeen := True\<rparr>)"
| "compare_loop aKey1 szHdr1 idx1 d1 ((pRhs, coll, desc) # rhs) p = do {
     (serial_type, r) \<leftarrow> compare_field aKey1 idx1 d1 pRhs coll;
     case r of
       Corrupt \<Rightarrow> Some (0, p\<lparr>errCode := SQLITE_CORRUPT\<rparr>)
     | Cmp rc \<Rightarrow>
         if rc \<noteq> 0 then Some (if desc then - rc else rc, p)
         else
           let d1 = d1 + sqlite3VdbeSerialTypeLen serial_type;
               idx1 = idx1 + sqlite3VarintLen (ucast serial_type)
           in if idx1 < szHdr1 \<and> d1 \<le> length aKey1
              then compare_loop aKey1 szHdr1 idx1 d1 rhs p
              else Some (default_rc p, p\<lparr>eqSeen := True\<rparr>)
   }"

definition rhs_fields :: "UnpackedRecord \<Rightarrow> (Mem \<times> xCmp option \<times> bool) list" where
  "rhs_fields p = zip (aMem p) (zip (aColl (pKeyInfo p)) (aSortOrder (pKeyInfo p)))"

definition sqlite3VdbeRecordCompareWithSkip ::
  "u8 list \<Rightarrow> UnpackedRecord \<Rightarrow> bool \<Rightarrow> (int \<times> UnpackedRecord) option" where
  "sqlite3VdbeRecordCompareWithSkip aKey1 p bSkip =
     (if bSkip then do {
        (n, s1) \<leftarrow> getVarint32 (drop 1 aKey1);
        szHdr1 \<leftarrow> rd8 aKey1 0;
        compare_loop aKey1 (unat szHdr1) (1 + n) (unat szHdr1 + sqlite3VdbeSerialTypeLen s1)
          (drop 1 (rhs_fields p)) p
      }
      else do {
        (idx1, szHdr1) \<leftarrow> getVarint32 aKey1;
        if length aKey1 < unat szHdr1 then Some (0, p\<lparr>errCode := SQLITE_CORRUPT\<rparr>)
        else compare_loop aKey1 (unat szHdr1) idx1 (unat szHdr1) (rhs_fields p) p
      })"

definition sqlite3VdbeRecordCompare ::
  "u8 list \<Rightarrow> UnpackedRecord \<Rightarrow> (int \<times> UnpackedRecord) option" where
  "sqlite3VdbeRecordCompare aKey1 p = sqlite3VdbeRecordCompareWithSkip aKey1 p False"

section \<open>The specialised comparators\<close>







section \<open>What the comparison should be\<close>

text \<open>
  A plain cell holds one kind of value. \<open>record_order\<close> compares the cells of a row with the
  fields of a key, first to last, by \<open>sqlite3MemCompare\<close>.
\<close>

definition plain :: "Mem \<Rightarrow> bool" where
  "plain m \<longleftrightarrow>
     flags m - {MEM_Ephem, MEM_Zero} \<in> {{MEM_Null}, {MEM_Int}, {MEM_Real}, {MEM_Str}, {MEM_Blob}} \<and>
     (MEM_Zero \<in> flags m \<longrightarrow> MEM_Blob \<in> flags m)"

fun record_order :: "Mem list \<Rightarrow> (Mem \<times> xCmp option \<times> bool) list \<Rightarrow> int \<Rightarrow> int" where
  "record_order (m # ms) ((pRhs, coll, desc) # rhs) dflt =
     (let rc = sqlite3MemCompare m pRhs coll
      in if rc \<noteq> 0 then (if desc then - rc else rc) else record_order ms rhs dflt)"
| "record_order _ _ dflt = dflt"

section \<open>The general comparator\<close>

lemma plain_cases:
  assumes "plain m"
  obtains "MEM_Null \<in> flags m" "MEM_Int \<notin> flags m" "MEM_Real \<notin> flags m" "MEM_Str \<notin> flags m" "MEM_Blob \<notin> flags m" "MEM_Zero \<notin> flags m"
  | "MEM_Int \<in> flags m" "MEM_Null \<notin> flags m" "MEM_Real \<notin> flags m" "MEM_Str \<notin> flags m" "MEM_Blob \<notin> flags m" "MEM_Zero \<notin> flags m"
  | "MEM_Real \<in> flags m" "MEM_Null \<notin> flags m" "MEM_Int \<notin> flags m" "MEM_Str \<notin> flags m" "MEM_Blob \<notin> flags m" "MEM_Zero \<notin> flags m"
  | "MEM_Str \<in> flags m" "MEM_Null \<notin> flags m" "MEM_Int \<notin> flags m" "MEM_Real \<notin> flags m" "MEM_Blob \<notin> flags m" "MEM_Zero \<notin> flags m"
  | "MEM_Blob \<in> flags m" "MEM_Null \<notin> flags m" "MEM_Int \<notin> flags m" "MEM_Real \<notin> flags m" "MEM_Str \<notin> flags m"
proof -
  have mem: "x \<in> flags m - {MEM_Ephem, MEM_Zero} \<longleftrightarrow> x \<in> flags m" if "x \<notin> {MEM_Ephem, MEM_Zero}" for x
    using that by simp
  note ms = mem [of MEM_Null] mem [of MEM_Int] mem [of MEM_Real] mem [of MEM_Str] mem [of MEM_Blob]
  from assms consider "flags m - {MEM_Ephem, MEM_Zero} = {MEM_Null}" | "flags m - {MEM_Ephem, MEM_Zero} = {MEM_Int}"
    | "flags m - {MEM_Ephem, MEM_Zero} = {MEM_Real}" | "flags m - {MEM_Ephem, MEM_Zero} = {MEM_Str}" | "flags m - {MEM_Ephem, MEM_Zero} = {MEM_Blob}"
    unfolding plain_def by blast
  then show ?thesis
    by cases (use ms assms in \<open>auto simp: plain_def intro: that\<close>)
qed

text \<open>The first byte of a serial type.\<close>

lemma first_byte:
  fixes t :: u32
  shows "\<exists>b. rd32 (varint_bytes (ucast t) @ x) 0 = Some b \<and> (t < 0x80 \<longrightarrow> b = t) \<and> (0x80 \<le> t \<longrightarrow> 0x80 \<le> b)"
proof (cases "t < 0x80")
  case True
  then have "varint_bytes (ucast t) = [ucast t]" using putVarint32_eq [of t] by (simp add: putVarint32_def)
  moreover have "(ucast (ucast t :: u8) :: u32) = t"
  proof -
    have "drop_bit 7 t = 0" using True unat_less_iff_drop_bit [of t 7] by (simp add: word_less_nat_alt)
    then show ?thesis unfolding drop_bit_eq_0_iff
      by (intro u32_eq_by_bits) (simp add: bits_unfold)
  qed
  ultimately show ?thesis using True by (simp add: rd32_def)
next
  case False
  have "getVarint32 (varint_bytes (ucast t)) = Some (length (varint_bytes (ucast t)), t)"
    using getVarint32_bytes [of t "[]"] by simp
  moreover obtain b bs where b: "varint_bytes (ucast t) = b # bs"
    using sqlite3PutVarint_length [of "ucast t"] by (cases "varint_bytes (ucast t)") (auto simp: varint_bytes_def)
  ultimately have nb: "\<not> b < 0x80"
    using False by (auto simp: getVarint32_def word_less_nat_alt unsigned_ucast_eq take_bit_nat_eq_self split: if_splits)
  then have "0x80 \<le> (ucast b :: u32)"
    using unsigned_less [of b, where 'a = nat]
    by (simp add: word_le_nat_alt word_less_nat_alt unsigned_ucast_eq take_bit_nat_eq_self)
  then show ?thesis using False by (simp add: rd32_def b)
qed

lemma mem_value_intD: "mem_value m = VInt i \<Longrightarrow> u_i m = i"
  by (auto simp: mem_value_def split: if_splits)
lemma mem_value_realD: "mem_value m = VReal i \<Longrightarrow> u_r m = i"
  by (auto simp: mem_value_def split: if_splits)


lemma isAllZero_eq: "isAllZero bs \<longleftrightarrow> (\<forall>b\<in>set bs. b = 0)"
  by (induction bs) auto

lemma int_type_facts:
  assumes m: "storable m" "MEM_Zero \<notin> flags m" "MEM_Int \<in> flags m" "MEM_Null \<notin> flags m"
    and t: "t = fst (sqlite3VdbeSerialType m ff)"
  shows "t \<in> {1, 2, 3, 4, 5, 6, 8, 9}"
  using m(1,2) by (cases rule: serial_cases [where ff = ff]) (use m t in auto)

lemma compare_field_ok:
  assumes m: "storable m" "plain m" "MEM_Zero \<notin> flags m" and rhs: "plain pRhs"
    and t: "t = fst (sqlite3VdbeSerialType m ff)"
    and idx: "drop idx1 aKey1 = varint_bytes (ucast t) @ x"
    and d: "drop d1 aKey1 = sqlite3VdbeSerialPut m t @ y" "d1 \<le> length aKey1"
  shows "\<exists>t'. compare_field aKey1 idx1 d1 pRhs coll = Some (t', Cmp (sqlite3MemCompare m pRhs coll)) \<and>
     (sqlite3MemCompare m pRhs coll = 0 \<longrightarrow> t' = t)"
proof -
  have rdd: "rd32 aKey1 idx1 = rd32 (drop idx1 aKey1) 0"
    by (simp add: rd32_def rd8_def)
  obtain b where b: "rd32 aKey1 idx1 = Some b" "t < 0x80 \<longrightarrow> b = t" "0x80 \<le> t \<longrightarrow> 0x80 \<le> b"
    using first_byte [of t x] unfolding rdd idx by blast
  have gv: "getVarint32 (drop idx1 aKey1) = Some (length (varint_bytes (ucast t)), t)"
    unfolding idx by (rule getVarint32_bytes)
  have get: "\<exists>m'. sqlite3VdbeSerialGet (drop d1 aKey1) t m0 = Some (length (sqlite3VdbeSerialPut m t), m') \<and> mem_value m' = mem_value m" for m0
    using serial_roundtrip_lemma [OF m(1,3) t, of y m0] d(1) by auto
  from m(2) show ?thesis
  proof (cases rule: plain_cases)
    case 1
    then have "t = 0" by (simp add: t sqlite3VdbeSerialType_def)
    then have "rd32 aKey1 idx1 = Some 0" using b by simp
    with rhs 1 gv \<open>t = 0\<close> show ?thesis
      by (elim plain_cases) (simp_all add: compare_field_def sqlite3MemCompare_def)
  next
    case 2
    then have t': "t \<in> {1, 2, 3, 4, 5, 6, 8, 9}" using int_type_facts [OF m(1,3) _ _ t] by simp
    then have bt: "rd32 aKey1 idx1 = Some t" "t \<noteq> 0" "t \<noteq> 7" "\<not> 10 \<le> t" "t < 12" using b by (auto simp: word_le_nat_alt word_less_nat_alt)
    obtain m' where m': "sqlite3VdbeSerialGet (drop d1 aKey1) t pRhs = Some (length (sqlite3VdbeSerialPut m t), m')" and mv: "mem_value m' = mem_value m"
      using get by blast
    have ui: "u_i m' = u_i m"
      by (rule mem_value_intD) (use mv 2 in \<open>simp add: mem_value_def [of m]\<close>)
    have "vdbeRecordDecodeInt t (drop d1 aKey1) = Some (u_i m)"
      using DecodeInt_get [OF t', of "drop d1 aKey1" pRhs] m' ui by simp
    with rhs 2 gv bt m' ui show ?thesis
      by (elim plain_cases) (simp_all add: compare_field_def sqlite3MemCompare_def)
  next
    case 3
    then have t': "t = 7" by (simp add: t SerialType_real)
    then have bt: "rd32 aKey1 idx1 = Some 7" "t < 12" using b by auto
    obtain m' where m': "sqlite3VdbeSerialGet (drop d1 aKey1) 7 pRhs = Some (length (sqlite3VdbeSerialPut m t), m')" and mv: "mem_value m' = mem_value m"
      using get t' by blast
    have "u_r m' = u_r m"
      by (rule mem_value_realD) (use mv 3 in \<open>simp add: mem_value_def [of m]\<close>)
    with rhs 3 gv bt m' t' show ?thesis
      by (elim plain_cases) (simp_all add: compare_field_def sqlite3MemCompare_def)
  next
    case 4
    have n: "length (z m) < 2 ^ 30" using m 4 by (simp add: storable_def)
    have t': "t = text_type (length (z m)) True" using 4 by (simp add: t SerialType_text)
    note tt = text_type_ge(1) [OF n, of True] text_type_half [OF n, of True] text_type_odd [OF n, of True]
    have pb: "10 \<le> b" "b \<noteq> 0" "\<not> t < 12" using b tt(1) t' by (auto simp: word_le_nat_alt word_less_nat_alt)
    have zz: "sqlite3VdbeSerialPut m t = z m" using text_type_ge [OF n, of True] by (simp add: sqlite3VdbeSerialPut_def t')
    have "length aKey1 - d1 = length (z m) + length y"
      using arg_cong [OF d(1), of length] zz by simp
    then have len: "\<not> length aKey1 < d1 + length (z m)" "take (length (z m)) (drop d1 aKey1) = z m"
      using d zz by simp_all
    from rhs 4 gv b pb len tt t' show ?thesis
      by (elim plain_cases) (simp_all add: compare_field_def sqlite3MemCompare_def sqlite3BlobCompare_def Let_def min_def split: option.splits)
  next
    case 5
    have n: "length (z m) < 2 ^ 30" using m 5 by (simp add: storable_def)
    have t': "t = text_type (length (z m)) False" using 5 m by (simp add: t SerialType_text)
    note tt = text_type_ge(1) [OF n, of False] text_type_half [OF n, of False] text_type_odd [OF n, of False]
    have pb: "10 \<le> b" "b \<noteq> 0" "\<not> t < 12" using b tt(1) t' by (auto simp: word_le_nat_alt word_less_nat_alt)
    have zz: "sqlite3VdbeSerialPut m t = z m" using text_type_ge [OF n, of False] by (simp add: sqlite3VdbeSerialPut_def t')
    have "length aKey1 - d1 = length (z m) + length y"
      using arg_cong [OF d(1), of length] zz by simp
    then have len: "\<not> length aKey1 < d1 + length (z m)" "take (length (z m)) (drop d1 aKey1) = z m"
      using d zz by simp_all
    from rhs 5 gv b pb len tt t' m(3) show ?thesis
      by (elim plain_cases) (simp_all add: compare_field_def sqlite3MemCompare_def sqlite3BlobCompare_def Let_def min_def)
  qed
qed

lemma VarintLen_ucast: "sqlite3VarintLen (ucast (t :: u32)) = length (varint_bytes (ucast t))"
proof -
  have "unat (ucast t :: u64) < 2 ^ 56"
    using unsigned_less [of t, where 'a = nat] by (simp add: unsigned_ucast_eq take_bit_nat_eq_self)
  then show ?thesis by (simp add: VarintLen_small)
qed

text \<open>A cell that a stored record can hold.\<close>

abbreviation SQLITE_MAX_LENGTH :: nat where
  "SQLITE_MAX_LENGTH \<equiv> 1000000000"

definition stored :: "Mem \<Rightarrow> bool" where
  "stored m \<longleftrightarrow> storable m \<and> plain m \<and> MEM_Zero \<notin> flags m \<and>
     (MEM_Str \<in> flags m \<or> MEM_Blob \<in> flags m \<longrightarrow> length (z m) \<le> SQLITE_MAX_LENGTH)"

lemma stored_record_type: "stored m \<Longrightarrow> record_type ff m = fst (sqlite3VdbeSerialType m ff)"
  by (auto simp: stored_def record_type_def)

lemma stored_record_data: "stored m \<Longrightarrow> record_data ff m = sqlite3VdbeSerialPut m (fst (sqlite3VdbeSerialType m ff))"
  by (auto simp: stored_def record_data_def stored_record_type expanded_def record_type_def)

lemma varint_bytes_ne: "varint_bytes v \<noteq> []"
  using sqlite3PutVarint_length [of v] by (auto simp: varint_bytes_def)

lemma header_types_ne: "header_types (map f ms) = [] \<longleftrightarrow> ms = []"
  by (cases ms) (simp_all add: varint_bytes_ne)

lemma compare_loop_image:
  assumes "\<forall>m\<in>set ms. stored m" "\<forall>f\<in>set rhs. plain (fst f)"
    and "drop idx1 aKey1 = header_types (map (record_type ff) ms) @ x"
    and "drop d1 aKey1 = concat (map (record_data ff) ms)" "d1 \<le> length aKey1"
    and "szHdr = idx1 + length (header_types (map (record_type ff) ms))" and "ms \<noteq> []"
  shows "map_option fst (compare_loop aKey1 szHdr idx1 d1 rhs p) = Some (record_order ms rhs (default_rc p))"
  using assms
proof (induction ms arbitrary: idx1 d1 rhs)
  case (Cons m ms)
  show ?case
  proof (cases rhs)
    case Nil
    then show ?thesis by simp
  next
    case (Cons f rhs')
    obtain pRhs coll desc where f: "f = (pRhs, coll, desc)" by (cases f)
    let ?t = "record_type ff m" and ?v = "record_data ff m"
    let ?h = "varint_bytes (ucast ?t)"
    have m: "stored m" "storable m" "plain m" "MEM_Zero \<notin> flags m" using Cons.prems by (auto simp: stored_def)
    have dd: "drop d1 aKey1 = sqlite3VdbeSerialPut m ?t @ concat (map (record_data ff) ms)"
      using Cons.prems(4) stored_record_data [OF m(1)] stored_record_type [OF m(1)] by simp
    obtain t' where t': "compare_field aKey1 idx1 d1 pRhs coll = Some (t', Cmp (sqlite3MemCompare m pRhs coll))"
       "sqlite3MemCompare m pRhs coll = 0 \<longrightarrow> t' = ?t"
      using compare_field_ok [OF m(2-4) _ stored_record_type [OF m(1)] _ dd Cons.prems(5), of pRhs idx1 _ coll] Cons.prems Cons f by fastforce
    have len: "sqlite3VdbeSerialTypeLen ?t = length ?v"
      using serial_length_lemma(1) [OF m(2,4) refl, of ff] stored_record_data [OF m(1)] stored_record_type [OF m(1)] by simp
    have ddl: "length aKey1 - d1 = length ?v + length (concat (map (record_data ff) ms))"
      using arg_cong [OF Cons.prems(4), of length] by simp
    show ?thesis
    proof (cases "sqlite3MemCompare m pRhs coll = 0")
      case False
      then show ?thesis using t' by (simp add: Cons f)
    next
      case True
      show ?thesis
      proof (cases "ms = []")
        case True
        then show ?thesis using t' Cons.prems \<open>sqlite3MemCompare m pRhs coll = 0\<close> by (simp add: Cons f VarintLen_ucast)
      next
        case False
        have ne: "header_types (map (record_type ff) ms) \<noteq> []"
          using False by (simp add: header_types_ne)
        have "map_option fst (compare_loop aKey1 szHdr (idx1 + length ?h) (d1 + length ?v) rhs' p) = Some (record_order ms rhs' (default_rc p))"
        proof (rule Cons.IH)
          show "drop (idx1 + length ?h) aKey1 = header_types (map (record_type ff) ms) @ x"
            using arg_cong [OF Cons.prems(3), of "drop (length ?h)"] by (simp add: add.commute)
          show "drop (d1 + length ?v) aKey1 = concat (map (record_data ff) ms)"
            using arg_cong [OF Cons.prems(4), of "drop (length ?v)"] by (simp add: add.commute)
        qed (use Cons.prems Cons False ddl in auto)
        moreover have "d1 + length ?v \<le> length aKey1" using ddl Cons.prems(5) by simp
        ultimately show ?thesis using t' True ne Cons.prems(6) by (simp add: Cons f VarintLen_ucast len)
      qed
    qed
  qed
qed simp

lemma header_image:
  fixes ff :: nat
  assumes "length ms \<le> 32767"
  defines "T \<equiv> header_types (map (record_type ff) ms)"
  defines "h \<equiv> header_size (length T)"
  shows "getVarint32 (record_image ff ms) = Some (length (varint_bytes (of_nat h)), of_nat h)"
    and "record_image ff ms = varint_bytes (of_nat h) @ T @ concat (map (record_data ff) ms)"
    and "length (varint_bytes (of_nat h)) + length T = h" and "unat (of_nat h :: u32) = h"
proof -
  have "length T < 2 ^ 31" using length_header_types [of "map (record_type ff) ms"] assms(1) by (simp add: T_def)
  note hs = header_size_eq [OF this, folded h_def]
  show img: "record_image ff ms = varint_bytes (of_nat h) @ T @ concat (map (record_data ff) ms)"
    by (simp add: record_image_def Let_def T_def h_def)
  show "getVarint32 (record_image ff ms) = Some (length (varint_bytes (of_nat h)), of_nat h)"
    using getVarint32_bytes [of "of_nat h" "T @ concat (map (record_data ff) ms)"] hs by (simp add: img ucast_of_nat)
  show "unat (of_nat h :: u32) = h" using hs by (simp add: unat_of_nat)
  show "length (varint_bytes (of_nat h)) + length T = h" by (rule hs)
qed

definition comparable :: "Mem list \<Rightarrow> UnpackedRecord \<Rightarrow> bool" where
  "comparable ms p \<longleftrightarrow> (\<forall>m\<in>set ms. stored m) \<and> length ms \<le> 32767 \<and>
     (\<forall>m\<in>set (aMem p). plain m) \<and> aMem p \<noteq> [] \<and> length (aMem p) \<le> length ms \<and>
     length (aMem p) \<le> length (aColl (pKeyInfo p)) \<and>
     length (aMem p) \<le> length (aSortOrder (pKeyInfo p))"

lemma rhs_fields_plain: "comparable ms p \<Longrightarrow> \<forall>f\<in>set (rhs_fields p). plain (fst f)"
  by (auto simp: comparable_def rhs_fields_def dest!: set_zip_leftD)




lemma RecordCompare_lemma:
  assumes "comparable ms p"
  shows "map_option fst (sqlite3VdbeRecordCompare (record_image ff ms) p) =
    Some (record_order ms (rhs_fields p) (default_rc p))"
proof -
  have len: "length ms \<le> 32767" and st: "\<forall>m\<in>set ms. stored m" and ne: "ms \<noteq> []"
    using assms by (auto simp: comparable_def)
  let ?T = "header_types (map (record_type ff) ms)"
  let ?h = "header_size (length ?T)"
  note hi = header_image [OF len, of ff]
  have "length (varint_bytes (of_nat ?h)) \<le> ?h" using hi(3) by simp
  moreover have "map_option fst (compare_loop (record_image ff ms) ?h (length (varint_bytes (of_nat ?h))) ?h (rhs_fields p) p) =
      Some (record_order ms (rhs_fields p) (default_rc p))"
    by (rule compare_loop_image [OF st rhs_fields_plain [OF assms], where ff = ff]) (use hi ne in simp_all)
  moreover have "\<not> length (record_image ff ms) < ?h"
    using hi(2,3) by (metis add_leD1 append.assoc le_add1 length_append not_less)
  ultimately show ?thesis
    by (simp add: sqlite3VdbeRecordCompare_def sqlite3VdbeRecordCompareWithSkip_def hi(1) hi(4))
qed








section \<open>The comparators for an integer and for a string\<close>




definition desc1 :: "UnpackedRecord \<Rightarrow> bool" where
  "desc1 p \<longleftrightarrow> aSortOrder (pKeyInfo p) ! 0"






text \<open>What \<open>sqlite3VdbeFindCompare\<close> sets in the key does not change what it is compared by.\<close>

lemma comparable_update [simp]:
  "comparable ms (p\<lparr>r1 := a, r2 := b\<rparr>) = comparable ms p"
  "rhs_fields (p\<lparr>r1 := a, r2 := b\<rparr>) = rhs_fields p"
  "desc1 (p\<lparr>r1 := a, r2 := b\<rparr>) = desc1 p"
  by (simp_all add: comparable_def rhs_fields_def desc1_def)



section \<open>Properties\<close>

text \<open>
  Property C5. Comparing a stored record with an unpacked key looks at the fields in turn, as
  \<open>sqlite3MemCompare\<close> does on the unpacked cells; the first difference decides, reversed in
  a descending column, and equal fields give the default of the key. It never reads outside
  the record.
\<close>

theorem RecordCompare_correct:
  assumes "comparable ms p"
  shows "map_option fst (sqlite3VdbeRecordCompare (record_image file_format ms) p) =
    Some (record_order ms (rhs_fields p) (default_rc p))"
  using assms by (rule RecordCompare_lemma)

abbreviation sample_key :: UnpackedRecord where
  "sample_key \<equiv>
     \<lparr>pKeyInfo = \<lparr>nAllField = 2, aColl = [None, None], aSortOrder = [False, True]\<rparr>,
      aMem = [\<lparr>flags = {MEM_Int}, u_i = 5, u_r = 0, u_nZero = 0, z = []\<rparr>,
              \<lparr>flags = {MEM_Str}, u_i = 0, u_r = 0, u_nZero = 0, z = [104, 106]\<rparr>],
      default_rc = 0, r1 = 0, r2 = 0, errCode = 0, eqSeen = False\<rparr>"

abbreviation sample_row :: "Mem list" where
  "sample_row \<equiv>
     [\<lparr>flags = {MEM_Int}, u_i = 5, u_r = 0, u_nZero = 0, z = []\<rparr>,
      \<lparr>flags = {MEM_Str}, u_i = 0, u_r = 0, u_nZero = 0, z = [104, 105]\<rparr>]"

lemma sample_comparable: "comparable sample_row sample_key"
  by (simp add: comparable_def stored_def storable_def plain_def insert_Diff_if)

theorem RecordCompare_correct_witness:
  "map_option fst (sqlite3VdbeRecordCompare [3, 1, 17, 5, 104, 105] sample_key) = Some 1"
proof -
  have "record_image 4 sample_row = [3, 1, 17, 5, 104, 105]" by code_simp
  moreover have "record_order sample_row (rhs_fields sample_key) (default_rc sample_key) = 1" by code_simp
  ultimately show ?thesis using RecordCompare_correct [OF sample_comparable, of 4] by simp
qed



end
