(* ===== verification/Rowset.thy ===== *)
theory Rowset
  imports Prelude "HOL-Library.Tree"
begin

text \<open>
  The row set of rowset.c: row numbers are inserted, and then either read back in order with
  \<open>sqlite3RowSetNext\<close> or tested in batches with \<open>sqlite3RowSetTest\<close>.

  A chain of entries linked by \<open>pRight\<close> is the list of its values, so \<open>NULL\<close> is the empty list
  and \<open>pLast\<close> is the last of it; a tree of entries is a tree of HOL-Library.Tree, and the forest
  the list of its trees. Each entry is on one chain or in one tree, so the relinking of the code
  is a function of these. Row numbers are compared only, never computed with, and are integers.
  The entries left in the current chunk are counted (\<open>nFresh\<close>, \<open>nChunk\<close>); an allocation follows the
  script of the prelude. \<open>None\<close> is the sort running out of its forty buckets.
\<close>

section \<open>Sorting the entries\<close>

fun rowSetEntryMerge :: "int list \<Rightarrow> int list \<Rightarrow> int list" where
  "rowSetEntryMerge (a # as) (b # bs) =
     (if a \<le> b then
        (if a < b then [a] else []) @ (if as = [] then b # bs else rowSetEntryMerge as (b # bs))
      else b # (if bs = [] then a # as else rowSetEntryMerge (a # as) bs))"
| "rowSetEntryMerge as [] = as"
| "rowSetEntryMerge [] bs = bs"

text \<open>\<open>aBucket\<close>, from its first element; \<open>None\<close> when there is no free bucket.\<close>

fun bucket_add :: "int list option list \<Rightarrow> int list \<Rightarrow> int list option list option" where
  "bucket_add [] pIn = None"
| "bucket_add (None # bs) pIn = Some (Some pIn # bs)"
| "bucket_add (Some q # bs) pIn = map_option ((#) None) (bucket_add bs (rowSetEntryMerge q pIn))"

fun bucket_all :: "int list option list \<Rightarrow> int list \<Rightarrow> int list option list option" where
  "bucket_all bs [] = Some bs"
| "bucket_all bs (v # vs) = bucket_add bs [v] \<bind> (\<lambda>bs. bucket_all bs vs)"

fun bucket_merge :: "int list \<Rightarrow> int list option list \<Rightarrow> int list" where
  "bucket_merge pIn [] = pIn"
| "bucket_merge pIn (None # bs) = bucket_merge pIn bs"
| "bucket_merge pIn (Some q # bs) = bucket_merge (if pIn \<noteq> [] then rowSetEntryMerge pIn q else q) bs"

definition rowSetEntrySort :: "int list \<Rightarrow> int list option" where
  "rowSetEntrySort pIn = do {
     aBucket \<leftarrow> bucket_all (replicate 40 None) pIn;
     let pIn = (case hd aBucket of None \<Rightarrow> [] | Some q \<Rightarrow> q);
     Some (bucket_merge pIn (tl aBucket))
   }"

section \<open>Lists and trees\<close>

fun rowSetTreeToList :: "int tree \<Rightarrow> int list" where
  "rowSetTreeToList Leaf = []"
| "rowSetTreeToList (Node l v r) =
     (if l \<noteq> Leaf then rowSetTreeToList l else []) @ v # (if r \<noteq> Leaf then rowSetTreeToList r else [])"

fun rowSetNDeepTree :: "int list \<Rightarrow> nat \<Rightarrow> int tree \<times> int list" where
  "rowSetNDeepTree pList iDepth =
     (case pList of [] \<Rightarrow> (Leaf, [])
      | v # rest \<Rightarrow>
          if iDepth > 1 then
            let (pLeft, pList) = rowSetNDeepTree pList (iDepth - 1)
            in case pList of [] \<Rightarrow> (pLeft, [])
               | p # pList \<Rightarrow>
                   let (pRight, pList) = rowSetNDeepTree pList (iDepth - 1)
                   in (Node pLeft p pRight, pList)
          else (Node Leaf v Leaf, rest))"

declare rowSetNDeepTree.simps [simp del]

lemma NDeepTree_inorder: "rowSetNDeepTree pList d = (t, rest) \<Longrightarrow> inorder t @ rest = pList"
proof (induction pList d arbitrary: t rest rule: rowSetNDeepTree.induct)
  case (1 pList d)
  show ?case
  proof (cases pList)
    case Nil
    then show ?thesis using "1.prems" by (simp add: rowSetNDeepTree.simps)
  next
    case (Cons v vs)
    show ?thesis
    proof (cases "d > 1")
      case False
      then show ?thesis using "1.prems" Cons by (auto simp: rowSetNDeepTree.simps)
    next
      case True
      obtain l r1 where l: "rowSetNDeepTree pList (d - 1) = (l, r1)" by (cases "rowSetNDeepTree pList (d - 1)")
      have il: "inorder l @ r1 = pList" using "1.IH"(1) [OF Cons True l] .
      show ?thesis
      proof (cases r1)
        case Nil
        then show ?thesis using "1.prems" Cons True l il by (subst (asm) rowSetNDeepTree.simps) simp
      next
        case (Cons p r2)
        obtain r r3 where r: "rowSetNDeepTree r2 (d - 1) = (r, r3)" by (cases "rowSetNDeepTree r2 (d - 1)")
        have "inorder r @ r3 = r2" using "1.IH"(2) [OF \<open>pList = v # vs\<close> True l [symmetric] refl Cons r] .
        then show ?thesis using "1.prems" \<open>pList = v # vs\<close> True l il r Cons by (subst (asm) rowSetNDeepTree.simps) auto
      qed
    qed
  qed
qed

lemma NDeepTree_length: "rowSetNDeepTree pList d = (t, rest) \<Longrightarrow> length rest \<le> length pList"
  using NDeepTree_inorder by fastforce

function list_to_tree :: "int tree \<Rightarrow> int list \<Rightarrow> nat \<Rightarrow> int tree" where
  "list_to_tree p [] iDepth = p"
| "list_to_tree p (v # pList) iDepth =
     (let (pRight, pList') = rowSetNDeepTree pList iDepth
      in list_to_tree (Node p v pRight) pList' (iDepth + 1))"
  by pat_completeness auto
termination
  by (relation "measure (\<lambda>(p, pList, d). length pList)") (auto dest!: NDeepTree_length [OF sym])

definition rowSetListToTree :: "int list \<Rightarrow> int tree" where
  "rowSetListToTree pList = list_to_tree (Node Leaf (hd pList) Leaf) (tl pList) 1"

section \<open>The row set\<close>

record RowSet =
  nChunk :: nat
  mallocFailed :: bool
  pEntry :: "int list"
  pForest :: "int tree list"
  nFresh :: nat
  rs_sorted :: bool
  rs_next :: bool
  iBatch :: int

abbreviation ROWSET_ENTRY_PER_CHUNK :: nat where "ROWSET_ENTRY_PER_CHUNK \<equiv> 42"

definition sqlite3RowSetInit :: "nat \<Rightarrow> RowSet" where
  "sqlite3RowSetInit n =
     \<lparr>nChunk = 0, mallocFailed = False, pEntry = [], pForest = [], nFresh = (n - 56) div 24 mod 2 ^ 16,
      rs_sorted = True, rs_next = False, iBatch = 0\<rparr>"

definition sqlite3RowSetClear :: "RowSet \<Rightarrow> RowSet" where
  "sqlite3RowSetClear p =
     p\<lparr>nChunk := 0, nFresh := 0, pEntry := [], pForest := [], rs_sorted := True, rs_next := False\<rparr>"

definition rowSetEntryAlloc :: "bool list \<Rightarrow> RowSet \<Rightarrow> bool \<times> RowSet \<times> bool list" where
  "rowSetEntryAlloc mem p =
     (if nFresh p = 0 then
        (case malloc mem of
           (False, mem) \<Rightarrow> (False, p\<lparr>mallocFailed := True\<rparr>, mem)
         | (True, mem) \<Rightarrow> (True, p\<lparr>nChunk := nChunk p + 1, nFresh := ROWSET_ENTRY_PER_CHUNK - 1\<rparr>, mem))
      else (True, p\<lparr>nFresh := nFresh p - 1\<rparr>, mem))"

definition sqlite3RowSetInsert :: "bool list \<Rightarrow> RowSet \<Rightarrow> int \<Rightarrow> RowSet \<times> bool list" where
  "sqlite3RowSetInsert mem p rowid =
     (case rowSetEntryAlloc mem p of
        (False, p, mem) \<Rightarrow> (p, mem)
      | (True, p, mem) \<Rightarrow>
          let p = (if pEntry p \<noteq> [] \<and> rowid \<le> last (pEntry p) then p\<lparr>rs_sorted := False\<rparr> else p)
          in (p\<lparr>pEntry := pEntry p @ [rowid]\<rparr>, mem))"

definition sqlite3RowSetNext :: "RowSet \<Rightarrow> (int option \<times> RowSet) option" where
  "sqlite3RowSetNext p = do {
     p \<leftarrow> (if \<not> rs_next p then do {
             entries \<leftarrow> (if \<not> rs_sorted p then rowSetEntrySort (pEntry p) else Some (pEntry p));
             Some (p\<lparr>pEntry := entries, rs_sorted := True, rs_next := True\<rparr>)
           }
           else Some p);
     case pEntry p of
       [] \<Rightarrow> Some (None, p)
     | v # rest \<Rightarrow>
         let p = p\<lparr>pEntry := rest\<rparr>
         in Some (Some v, if rest = [] then sqlite3RowSetClear p else p)
   }"

text \<open>The loop of \<open>sqlite3RowSetTest\<close> that puts the sorted entries \<open>p\<close> into the forest.\<close>

fun forest_add :: "bool list \<Rightarrow> RowSet \<Rightarrow> int list \<Rightarrow> int tree list \<Rightarrow> int tree list \<times> RowSet \<times> bool list" where
  "forest_add mem rs p [] =
     (case rowSetEntryAlloc mem rs of
        (False, rs, mem) \<Rightarrow> ([], rs, mem)
      | (True, rs, mem) \<Rightarrow> ([rowSetListToTree p], rs, mem))"
| "forest_add mem rs p (pTree # rest) =
     (if pTree = Leaf then (rowSetListToTree p # rest, rs, mem)
      else
        let pAux = rowSetTreeToList pTree;
            (rest, rs, mem) = forest_add mem rs (rowSetEntryMerge pAux p) rest
        in (Leaf # rest, rs, mem))"

fun tree_search :: "int tree \<Rightarrow> int \<Rightarrow> bool" where
  "tree_search Leaf iRowid = False"
| "tree_search (Node l v r) iRowid =
     (if v < iRowid then tree_search r iRowid
      else if v > iRowid then tree_search l iRowid
      else True)"

definition sqlite3RowSetTest :: "bool list \<Rightarrow> RowSet \<Rightarrow> int \<Rightarrow> int \<Rightarrow> (bool \<times> RowSet \<times> bool list) option" where
  "sqlite3RowSetTest mem rs batch iRowid = do {
     (rs, mem) \<leftarrow>
       (if batch \<noteq> iBatch rs then do {
          (rs, mem) \<leftarrow>
            (if pEntry rs \<noteq> [] then do {
               p \<leftarrow> (if \<not> rs_sorted rs then rowSetEntrySort (pEntry rs) else Some (pEntry rs));
               let (forest, rs, mem) = forest_add mem rs p (pForest rs);
               Some (rs\<lparr>pForest := forest, pEntry := [], rs_sorted := True\<rparr>, mem)
             }
             else Some (rs, mem));
          Some (rs\<lparr>iBatch := batch\<rparr>, mem)
        }
        else Some (rs, mem));
     Some (\<exists>t\<in>set (pForest rs). tree_search t iRowid, rs, mem)
   }"

section \<open>The sort\<close>

lemma in_set_merge: "x \<in> set (rowSetEntryMerge as bs) \<longleftrightarrow> x \<in> set as \<or> x \<in> set bs"
  by (induction as bs rule: rowSetEntryMerge.induct) auto

lemma set_merge: "set (rowSetEntryMerge as bs) = set as \<union> set bs"
  by (auto simp: in_set_merge)

lemma sorted_merge:
  "sorted_wrt (<) as \<Longrightarrow> sorted_wrt (<) bs \<Longrightarrow> sorted_wrt (<) (rowSetEntryMerge as bs)"
proof (induction as bs rule: rowSetEntryMerge.induct)
  case (1 a as b bs)
  then show ?case by (auto simp: set_merge)
qed simp_all

lemma merge_ne: "as \<noteq> [] \<Longrightarrow> rowSetEntryMerge as bs \<noteq> []"
  by (metis set_empty set_merge sup_eq_bot_iff)

definition bucket_ok :: "int list option list \<Rightarrow> bool" where
  "bucket_ok bs \<longleftrightarrow> (\<forall>q. Some q \<in> set bs \<longrightarrow> q \<noteq> [] \<and> sorted_wrt (<) q)"

fun bucket_set :: "int list option list \<Rightarrow> int set" where
  "bucket_set [] = {}"
| "bucket_set (None # bs) = bucket_set bs"
| "bucket_set (Some q # bs) = set q \<union> bucket_set bs"

text \<open>The buckets are the digits of a binary counter of the entries.\<close>

fun bucket_count :: "int list option list \<Rightarrow> nat" where
  "bucket_count [] = 0"
| "bucket_count (b # bs) = of_bool (b \<noteq> None) + 2 * bucket_count bs"

lemma bucket_ok_simps [simp]:
  "bucket_ok []" "bucket_ok (None # bs) = bucket_ok bs"
  "bucket_ok (Some q # bs) = (q \<noteq> [] \<and> sorted_wrt (<) q \<and> bucket_ok bs)"
  by (auto simp: bucket_ok_def)

lemma bucket_add_ok:
  assumes "bucket_ok bs" "q \<noteq> []" "sorted_wrt (<) q" "bucket_count bs + 1 < 2 ^ length bs"
  shows "\<exists>bs'. bucket_add bs q = Some bs' \<and> bucket_ok bs' \<and> bucket_set bs' = bucket_set bs \<union> set q \<and>
    bucket_count bs' = bucket_count bs + 1 \<and> length bs' = length bs"
  using assms
proof (induction bs q rule: bucket_add.induct)
  case (3 p bs q)
  then have "\<exists>bs'. bucket_add bs (rowSetEntryMerge p q) = Some bs' \<and> bucket_ok bs' \<and>
    bucket_set bs' = bucket_set bs \<union> set (rowSetEntryMerge p q) \<and> bucket_count bs' = bucket_count bs + 1 \<and> length bs' = length bs"
    by (auto simp: sorted_merge merge_ne)
  then show ?case by (auto simp: set_merge)
qed auto

lemma bucket_all_ok:
  assumes "bucket_ok bs" "bucket_count bs + length vs < 2 ^ length bs"
  shows "\<exists>bs'. bucket_all bs vs = Some bs' \<and> bucket_ok bs' \<and> bucket_set bs' = bucket_set bs \<union> set vs \<and> length bs' = length bs"
  using assms
proof (induction vs arbitrary: bs)
  case (Cons v vs)
  obtain bs1 where b: "bucket_add bs [v] = Some bs1" "bucket_ok bs1" "bucket_set bs1 = bucket_set bs \<union> {v}"
    "bucket_count bs1 = bucket_count bs + 1" "length bs1 = length bs"
    using bucket_add_ok [of bs "[v]"] Cons.prems by auto
  have "\<exists>bs'. bucket_all bs1 vs = Some bs' \<and> bucket_ok bs' \<and> bucket_set bs' = bucket_set bs1 \<union> set vs \<and> length bs' = length bs1"
    using Cons.IH [OF b(2)] Cons.prems(2) b(4,5) by simp
  then show ?case using b by auto
qed simp

lemma bucket_merge_ok:
  "bucket_ok bs \<Longrightarrow> sorted_wrt (<) p \<Longrightarrow> sorted_wrt (<) (bucket_merge p bs) \<and> set (bucket_merge p bs) = set p \<union> bucket_set bs"
  by (induction p bs rule: bucket_merge.induct) (auto simp: sorted_merge set_merge)

lemma bucket_replicate: "bucket_ok (replicate n None)" "bucket_set (replicate n None) = {}" "bucket_count (replicate n None) = 0"
  by (induction n) auto

lemma EntrySort_lemma:
  assumes "length xs < 2 ^ 40"
  shows "rowSetEntrySort xs = Some (sorted_list_of_set (set xs))"
proof -
  obtain bs where bs: "bucket_all (replicate 40 None) xs = Some bs" "bucket_ok bs" "bucket_set bs = set xs" "length bs = 40"
    using bucket_all_ok [OF bucket_replicate(1), of 40 xs] assms bucket_replicate [of 40] by auto
  obtain b bs' where c: "bs = b # bs'" using bs(4) by (cases bs) auto
  let ?q = "case b of None \<Rightarrow> [] | Some q \<Rightarrow> q"
  have q: "bucket_ok bs'" "sorted_wrt (<) ?q" "bucket_set bs = set ?q \<union> bucket_set bs'"
    using bs(2) by (cases b; simp add: c)+
  then have "sorted_wrt (<) (bucket_merge ?q bs')" "set (bucket_merge ?q bs') = set xs"
    using bucket_merge_ok [OF q(1,2)] bs(3) by auto
  then have "bucket_merge ?q bs' = sorted_list_of_set (set xs)"
    by (metis sorted_list_of_set.idem_if_sorted_distinct strict_sorted_iff)
  then show ?thesis using bs(1) c unfolding rowSetEntrySort_def by simp
qed

section \<open>The trees\<close>

lemma TreeToList_inorder [simp]: "rowSetTreeToList t = inorder t"
  by (induction t) auto

lemma list_to_tree_inorder: "inorder (list_to_tree p pList d) = inorder p @ pList"
proof (induction p pList d rule: list_to_tree.induct)
  case (2 p v pList d)
  obtain r rest where r: "rowSetNDeepTree pList d = (r, rest)" by (cases "rowSetNDeepTree pList d")
  then show ?case using "2.IH" [OF r [symmetric] refl] NDeepTree_inorder [OF r] by simp
qed simp

lemma ListToTree_inorder [simp]: "xs \<noteq> [] \<Longrightarrow> inorder (rowSetListToTree xs) = xs"
  by (cases xs) (simp_all add: rowSetListToTree_def list_to_tree_inorder)

lemma arith_double: "(1::nat) \<le> b \<Longrightarrow> (a::nat) = 2 * b \<Longrightarrow> (b - 1) + (b - 1) + 1 = a - 1"
  by linarith

text \<open>Depth: a tree that did not use up the list is complete.\<close>

lemma NDeepTree_depth:
  "1 \<le> d \<Longrightarrow> rowSetNDeepTree pList d = (t, rest) \<Longrightarrow> height t \<le> d \<and> (rest \<noteq> [] \<longrightarrow> size t = 2 ^ d - 1)"
proof (induction pList d arbitrary: t rest rule: rowSetNDeepTree.induct)
  case (1 pList d)
  show ?case
  proof (cases pList)
    case Nil
    then show ?thesis using "1.prems" by (simp add: rowSetNDeepTree.simps)
  next
    case (Cons v vs)
    show ?thesis
    proof (cases "d > 1")
      case False
      then show ?thesis using "1.prems" Cons by (auto simp: rowSetNDeepTree.simps)
    next
      case True
      then have d: "1 \<le> d - 1" "d = Suc (d - 1)" by simp_all
      obtain l r1 where l: "rowSetNDeepTree pList (d - 1) = (l, r1)" by (cases "rowSetNDeepTree pList (d - 1)")
      have il: "height l \<le> d - 1 \<and> (r1 \<noteq> [] \<longrightarrow> size l = 2 ^ (d - 1) - 1)" using "1.IH"(1) [OF Cons True d(1) l] .
      show ?thesis
      proof (cases r1)
        case Nil
        then show ?thesis using "1.prems" Cons True l il by (subst (asm) rowSetNDeepTree.simps) auto
      next
        case (Cons p r2)
        obtain r r3 where r: "rowSetNDeepTree r2 (d - 1) = (r, r3)" by (cases "rowSetNDeepTree r2 (d - 1)")
        have ir: "height r \<le> d - 1 \<and> (r3 \<noteq> [] \<longrightarrow> size r = 2 ^ (d - 1) - 1)"
          using "1.IH"(2) [OF \<open>pList = v # vs\<close> True l [symmetric] refl Cons d(1) r] .
        have t: "t = Node l p r" "rest = r3"
          using "1.prems"(2) \<open>pList = v # vs\<close> True l r Cons by (subst (asm) rowSetNDeepTree.simps, simp)+
        have "(2::nat) ^ d = 2 * 2 ^ (d - 1)" using d(2) by (metis power_Suc)
        moreover have "(1::nat) \<le> 2 ^ (d - 1)" by simp
        moreover have "height t \<le> d" using il ir t Cons d(2) by auto
        moreover have "size t = size l + size r + 1" using t by simp
        moreover have "rest \<noteq> [] \<longrightarrow> size l + size r + 1 = 2 ^ d - 1"
          using il ir t(2) Cons arith_double [OF \<open>1 \<le> 2 ^ (d - 1)\<close> \<open>2 ^ d = 2 * 2 ^ (d - 1)\<close>] by simp
        ultimately show ?thesis by simp
      qed
    qed
  qed
qed

lemma list_to_tree_depth:
  assumes "1 \<le> d" "height p \<le> d" "pList \<noteq> [] \<Longrightarrow> size p = 2 ^ d - 1" "2 ^ (height p - 1) \<le> size p"
  shows "2 ^ (height (list_to_tree p pList d) - 1) \<le> size (list_to_tree p pList d)"
  using assms
proof (induction p pList d rule: list_to_tree.induct)
  case (2 p v pList d)
  obtain r rest where r: "rowSetNDeepTree pList d = (r, rest)" by (cases "rowSetNDeepTree pList d")
  note nd = NDeepTree_depth [OF 2(2) r]
  have sp: "size p = 2 ^ d - 1" using 2 by simp
  have one: "(1::nat) \<le> 2 ^ d" by simp
  have "2 ^ (height (list_to_tree (Node p v r) rest (d + 1)) - 1) \<le> size (list_to_tree (Node p v r) rest (d + 1))"
  proof (rule "2.IH" [OF r [symmetric] refl])
    show "rest \<noteq> [] \<Longrightarrow> size (Node p v r) = 2 ^ (d + 1) - 1" using nd sp one by (simp only: tree.size power_add power_one_right, linarith)
    have "(2::nat) ^ (height (Node p v r) - 1) \<le> 2 ^ d" using nd 2(3) by (intro power_increasing) auto
    moreover have "size (Node p v r) = size p + size r + 1" by simp
    ultimately show "2 ^ (height (Node p v r) - 1) \<le> size (Node p v r)" using sp by linarith
  qed (use nd 2 in auto)
  then show ?case using r by simp
qed simp

lemma ListToTree_depth:
  assumes "xs \<noteq> []"
  shows "2 ^ (height (rowSetListToTree xs) - 1) \<le> length xs"
proof -
  have "size (rowSetListToTree xs) = length xs"
    using arg_cong [OF ListToTree_inorder [OF assms], of length] by simp
  then show ?thesis
    using list_to_tree_depth [of 1 "Node Leaf (hd xs) Leaf" "tl xs"] by (simp add: rowSetListToTree_def)
qed

lemma search_bst: "sorted_wrt (<) (inorder t) \<Longrightarrow> tree_search t x \<longleftrightarrow> x \<in> set (inorder t)"
proof (induction t)
  case (Node l v r)
  have s: "sorted_wrt (<) (inorder l)" "sorted_wrt (<) (inorder r)" "\<forall>y\<in>set (inorder l). y < v" "\<forall>y\<in>set (inorder r). v < y"
    using Node.prems by (simp_all add: sorted_wrt_append del: set_inorder)
  note l = s(3) Node.IH(1) [OF s(1)] and r = s(4) Node.IH(2) [OF s(2)]
  show ?case
  proof (cases x v rule: linorder_cases)
    case less
    then have "x \<notin> set (inorder r)" using r(1) by fastforce
    then show ?thesis using less l by simp
  next
    case greater
    then have "x \<notin> set (inorder l)" using l(1) by fastforce
    then show ?thesis using greater r by simp
  qed simp
qed simp

section \<open>The operations against their specification\<close>

datatype rs_op = RsInsert int | RsTest int int

fun rs_run :: "rs_op list \<Rightarrow> RowSet \<Rightarrow> bool list option" where
  "rs_run [] p = Some []"
| "rs_run (RsInsert x # ops) p = rs_run ops (fst (sqlite3RowSetInsert [] p x))"
| "rs_run (RsTest b x # ops) p = do {
     (r, p, _) \<leftarrow> sqlite3RowSetTest [] p b x;
     rs \<leftarrow> rs_run ops p;
     Some (r # rs)
   }"

text \<open>
  The specification: a test sees the values inserted before the current batch number was
  first used.
\<close>

fun rs_spec :: "rs_op list \<Rightarrow> int set \<Rightarrow> int set \<Rightarrow> int \<Rightarrow> bool list" where
  "rs_spec [] pend seen b = []"
| "rs_spec (RsInsert x # ops) pend seen b = rs_spec ops (insert x pend) seen b"
| "rs_spec (RsTest b' x # ops) pend seen b =
     (if b' \<noteq> b then (x \<in> seen \<union> pend) # rs_spec ops {} (seen \<union> pend) b'
      else (x \<in> seen) # rs_spec ops pend seen b)"

definition forest_set :: "int tree list \<Rightarrow> int set" where
  "forest_set ts = (\<Union>t\<in>set ts. set_tree t)"

definition forest_ok :: "int tree list \<Rightarrow> bool" where
  "forest_ok ts \<longleftrightarrow> (\<forall>t\<in>set ts. sorted_wrt (<) (inorder t))"

definition rs_inv :: "RowSet \<Rightarrow> bool" where
  "rs_inv p \<longleftrightarrow> \<not> rs_next p \<and> (rs_sorted p \<longrightarrow> sorted_wrt (<) (pEntry p)) \<and> forest_ok (pForest p)"

lemma alloc_ok: "rowSetEntryAlloc [] p = (True, p\<lparr>nChunk := nChunk (fst (snd (rowSetEntryAlloc [] p))),
    nFresh := nFresh (fst (snd (rowSetEntryAlloc [] p)))\<rparr>, [])"
  by (simp add: rowSetEntryAlloc_def)

lemma Insert_ok:
  fixes p x
  defines "q \<equiv> fst (sqlite3RowSetInsert [] p x)"
  assumes "rs_inv p"
  shows "rs_inv q" "pEntry q = pEntry p @ [x]" "pForest q = pForest p" "iBatch q = iBatch p" "rs_next q = rs_next p"
proof -
  obtain c f where a: "rowSetEntryAlloc [] p = (True, p\<lparr>nChunk := c, nFresh := f\<rparr>, [])"
    using alloc_ok by blast
  have q: "q = (if pEntry p \<noteq> [] \<and> x \<le> last (pEntry p) then p\<lparr>nChunk := c, nFresh := f, rs_sorted := False, pEntry := pEntry p @ [x]\<rparr>
      else p\<lparr>nChunk := c, nFresh := f, pEntry := pEntry p @ [x]\<rparr>)"
    by (simp add: q_def sqlite3RowSetInsert_def a)
  then show "pEntry q = pEntry p @ [x]" "pForest q = pForest p" "iBatch q = iBatch p" "rs_next q = rs_next p" by simp_all
  have "sorted_wrt (<) (pEntry p @ [x])" if s: "sorted_wrt (<) (pEntry p)" "\<not> (pEntry p \<noteq> [] \<and> x \<le> last (pEntry p))"
  proof (cases "pEntry p" rule: rev_cases)
    case (snoc ys y)
    then show ?thesis using s by (auto simp: sorted_wrt_append)
  qed simp
  then show "rs_inv q" using assms(2) unfolding rs_inv_def q by auto
qed

lemma forest_add_ok:
  assumes "p \<noteq> []" "sorted_wrt (<) p" "forest_ok ts"
  shows "\<exists>ts' c f. forest_add [] rs p ts = (ts', rs\<lparr>nChunk := c, nFresh := f\<rparr>, []) \<and> forest_ok ts' \<and> forest_set ts' = set p \<union> forest_set ts"
  using assms
proof (induction ts arbitrary: p rs)
  case Nil
  obtain c f where a: "rowSetEntryAlloc [] rs = (True, rs\<lparr>nChunk := c, nFresh := f\<rparr>, [])"
    using alloc_ok by blast
  have "set_tree (rowSetListToTree p) = set p" using ListToTree_inorder [OF Nil(1)] by (metis set_inorder)
  then show ?case using Nil ListToTree_inorder [OF Nil(1)] by (auto simp: a forest_ok_def forest_set_def)
next
  case (Cons t ts)
  show ?case
  proof (cases "t = Leaf")
    case True
    have "set_tree (rowSetListToTree p) = set p" using ListToTree_inorder [OF Cons.prems(1)] by (metis set_inorder)
    then have "forest_add [] rs p (t # ts) = (rowSetListToTree p # ts, rs\<lparr>nChunk := nChunk rs, nFresh := nFresh rs\<rparr>, []) \<and>
       forest_ok (rowSetListToTree p # ts) \<and> forest_set (rowSetListToTree p # ts) = set p \<union> forest_set (t # ts)"
      using True Cons.prems ListToTree_inorder [OF Cons.prems(1)] by (simp add: forest_ok_def forest_set_def)
    then show ?thesis by blast
  next
    case False
    let ?m = "rowSetEntryMerge (inorder t) p"
    have "inorder t \<noteq> []" using False by (cases t) auto
    then have m: "?m \<noteq> []" "sorted_wrt (<) ?m" "forest_ok ts"
      using Cons.prems merge_ne by (auto simp: forest_ok_def intro: sorted_merge)
    obtain ts' c f where r: "forest_add [] rs ?m ts = (ts', rs\<lparr>nChunk := c, nFresh := f\<rparr>, [])" "forest_ok ts'" "forest_set ts' = set ?m \<union> forest_set ts"
      using Cons.IH [OF m, of rs] by blast
    have "forest_add [] rs p (t # ts) = (Leaf # ts', rs\<lparr>nChunk := c, nFresh := f\<rparr>, []) \<and> forest_ok (Leaf # ts') \<and>
       forest_set (Leaf # ts') = set p \<union> forest_set (t # ts)"
      using False r by (auto simp: forest_ok_def forest_set_def set_merge)
    then show ?thesis by blast
  qed
qed

lemma forest_search: "forest_ok ts \<Longrightarrow> (\<exists>t\<in>set ts. tree_search t x) \<longleftrightarrow> x \<in> forest_set ts"
  using search_bst by (auto simp: forest_ok_def forest_set_def)

lemma Test_ok:
  assumes "rs_inv p" "length (pEntry p) < 2 ^ 40"
  shows "\<exists>q. sqlite3RowSetTest [] p b x = Some (x \<in> forest_set (pForest q), q, []) \<and> rs_inv q \<and> iBatch q = b \<and>
    (if b \<noteq> iBatch p then pEntry q = [] \<and> forest_set (pForest q) = forest_set (pForest p) \<union> set (pEntry p) else q = p)"
proof (cases "b \<noteq> iBatch p")
  case False
  then show ?thesis using assms(1) forest_search [of "pForest p" x] by (simp add: sqlite3RowSetTest_def rs_inv_def)
next
  case True
  show ?thesis
  proof (cases "pEntry p = []")
    case e: True
    then show ?thesis using assms(1) forest_search [of "pForest p" x] \<open>b \<noteq> iBatch p\<close>
      by (simp add: sqlite3RowSetTest_def rs_inv_def)
  next
    case False
    obtain s where s: "(if \<not> rs_sorted p then rowSetEntrySort (pEntry p) else Some (pEntry p)) = Some s"
      "sorted_wrt (<) s" "set s = set (pEntry p)"
      using assms EntrySort_lemma [OF assms(2)] by (cases "rs_sorted p") (auto simp: rs_inv_def)
    then have "s \<noteq> []" using False by auto
    then obtain ts c f where f: "forest_add [] p s (pForest p) = (ts, p\<lparr>nChunk := c, nFresh := f\<rparr>, [])" "forest_ok ts"
      "forest_set ts = set s \<union> forest_set (pForest p)"
      using forest_add_ok [OF _ s(2), of "pForest p" p] assms(1) by (auto simp: rs_inv_def)
    let ?q = "p\<lparr>nChunk := c, nFresh := f, pForest := ts, pEntry := [], rs_sorted := True, iBatch := b\<rparr>"
    have "sqlite3RowSetTest [] p b x = Some (x \<in> forest_set (pForest ?q), ?q, [])"
      using True False s(1) f forest_search [OF f(2), of x] by (simp add: sqlite3RowSetTest_def)
    moreover have "rs_inv ?q" using f(2) assms(1) by (simp add: rs_inv_def)
    moreover have "forest_set (pForest ?q) = forest_set (pForest p) \<union> set (pEntry p)" using f(3) s(3) by auto
    ultimately show ?thesis using True by (intro exI [of _ ?q]) simp
  qed
qed

lemma rs_run_spec:
  assumes "rs_inv p" "length (pEntry p) + length ops < 2 ^ 40"
  shows "rs_run ops p = Some (rs_spec ops (set (pEntry p)) (forest_set (pForest p)) (iBatch p))"
  using assms
proof (induction ops arbitrary: p)
  case (Cons op ops)
  show ?case
  proof (cases op)
    case (RsInsert x)
    then show ?thesis using Cons.IH [OF Insert_ok(1) [OF Cons.prems(1), of x]] Insert_ok [OF Cons.prems(1), of x] Cons.prems(2)
      by (simp add: insert_commute)
  next
    case (RsTest b x)
    have len: "length (pEntry p) < 2 ^ 40" using Cons.prems(2) by simp
    obtain q where q: "sqlite3RowSetTest [] p b x = Some (x \<in> forest_set (pForest q), q, [])" "rs_inv q" "iBatch q = b"
      "if b \<noteq> iBatch p then pEntry q = [] \<and> forest_set (pForest q) = forest_set (pForest p) \<union> set (pEntry p) else q = p"
      using Test_ok [OF Cons.prems(1) len, of b x] by blast
    have "length (pEntry q) + length ops < 2 ^ 40" using q(4) Cons.prems(2) by (auto split: if_splits)
    from Cons.IH [OF q(2) this] show ?thesis using q by (auto simp: RsTest split: if_splits)
  qed
qed simp

lemma rs_inv_Init: "rs_inv (sqlite3RowSetInit n)"
  by (simp add: rs_inv_def sqlite3RowSetInit_def forest_ok_def)

fun insert_all :: "RowSet \<Rightarrow> int list \<Rightarrow> RowSet" where
  "insert_all p [] = p"
| "insert_all p (x # xs) = insert_all (fst (sqlite3RowSetInsert [] p x)) xs"

fun drain :: "nat \<Rightarrow> RowSet \<Rightarrow> int list option" where
  "drain 0 p = None"
| "drain (Suc n) p = do {
     (r, p) \<leftarrow> sqlite3RowSetNext p;
     case r of None \<Rightarrow> Some [] | Some v \<Rightarrow> map_option ((#) v) (drain n p)
   }"

lemma insert_all_ok:
  "rs_inv p \<Longrightarrow> rs_inv (insert_all p xs) \<and> pEntry (insert_all p xs) = pEntry p @ xs"
proof (induction xs arbitrary: p)
  case (Cons x xs)
  then show ?case using Cons.IH [OF Insert_ok(1) [OF Cons.prems, of x]] Insert_ok(2) [OF Cons.prems, of x] by simp
qed simp

lemma drain_sorted:
  "rs_next p \<Longrightarrow> rs_sorted p \<Longrightarrow> length (pEntry p) < n \<Longrightarrow> drain n p = Some (pEntry p)"
proof (induction n arbitrary: p)
  case (Suc n)
  show ?case
  proof (cases "pEntry p")
    case Nil
    then show ?thesis using Suc.prems by (simp add: sqlite3RowSetNext_def)
  next
    case (Cons v rest)
    show ?thesis
    proof (cases rest)
      case Nil
      obtain n' where "n = Suc n'" using Suc.prems(3) Cons by (cases n) auto
      then show ?thesis using Suc.prems Cons Nil by (simp add: sqlite3RowSetNext_def sqlite3RowSetClear_def)
    next
      case (Cons w ws)
      then show ?thesis using Suc.IH [of "p\<lparr>pEntry := rest\<rparr>"] Suc.prems \<open>pEntry p = v # rest\<close>
        by (simp add: sqlite3RowSetNext_def)
    qed
  qed
qed simp

lemma drain_lemma:
  assumes "rs_inv p" "length (pEntry p) < 2 ^ 40" "length (pEntry p) < n"
  shows "drain n p = Some (sorted_list_of_set (set (pEntry p)))"
proof -
  have s: "(if \<not> rs_sorted p then rowSetEntrySort (pEntry p) else Some (pEntry p)) = Some (sorted_list_of_set (set (pEntry p)))"
    using EntrySort_lemma [OF assms(2)] assms(1)
    by (simp add: rs_inv_def) (metis sorted_list_of_set.idem_if_sorted_distinct strict_sorted_iff)
  let ?q = "p\<lparr>pEntry := sorted_list_of_set (set (pEntry p)), rs_sorted := True, rs_next := True\<rparr>"
  obtain n' where n: "n = Suc n'" using assms(3) by (cases n) auto
  have "sqlite3RowSetNext p = sqlite3RowSetNext ?q"
    using s assms(1) by (simp add: sqlite3RowSetNext_def rs_inv_def)
  then have "drain n p = drain n ?q" by (simp add: n)
  moreover have "length (sorted_list_of_set (set (pEntry p))) < n"
    using assms(3) card_length [of "pEntry p"] by (simp add: length_sorted_list_of_set)
  ultimately show ?thesis using drain_sorted [of ?q n] by simp
qed

section \<open>Properties\<close>

text \<open>
  Property C29. Values inserted in any order, with any repetitions, come out of
  \<open>sqlite3RowSetNext\<close> once each and in increasing order, and then it reports the end; the
  forty buckets of the sort are enough.
\<close>

theorem RowSet_sorts:
  assumes "length xs < 2 ^ 40"
  shows "drain (length xs + 1) (insert_all (sqlite3RowSetInit n) xs) = Some (sorted_list_of_set (set xs))"
  using insert_all_ok [OF rs_inv_Init, of n xs] drain_lemma [of "insert_all (sqlite3RowSetInit n) xs" "length xs + 1"] assms
  by (simp add: sqlite3RowSetInit_def)

theorem RowSet_sorts_witness:
  "drain 6 (insert_all (sqlite3RowSetInit 200) [5, -2, 5, 9, 0]) = Some [-2, 0, 5, 9]"
proof -
  have "length [5, -2, 5, 9, 0 :: int] + 1 = 6" "length [5, -2, 5, 9, 0 :: int] < 2 ^ 40" by simp_all
  moreover have "sorted_list_of_set (set [5, -2, 5, 9, 0 :: int]) = [-2, 0, 5, 9]"
    unfolding sorted_list_of_set_sort_remdups by code_simp
  ultimately show ?thesis using RowSet_sorts [of "[5, -2, 5, 9, 0]" 200] by metis
qed

text \<open>
  Property C20. Whatever inserts and tests are interleaved, a test answers whether the value
  was inserted before its batch began: the forest of trees refines that set.
\<close>

theorem RowSet_batches:
  assumes "length ops < 2 ^ 40"
  shows "rs_run ops (sqlite3RowSetInit n) = Some (rs_spec ops {} {} 0)"
  using rs_run_spec [OF rs_inv_Init, of n ops] assms by (simp add: sqlite3RowSetInit_def forest_set_def)

theorem RowSet_batches_witness:
  "rs_run [RsInsert 7, RsTest 0 7, RsTest 1 7, RsInsert 3, RsTest 1 3, RsTest 2 3] (sqlite3RowSetInit 56) =
   Some [False, True, False, True]"
  using RowSet_batches [of "[RsInsert 7, RsTest 0 7, RsTest 1 7, RsInsert 3, RsTest 1 3, RsTest 2 3]" 56] by simp

text \<open>
  Property C35. The tree made of a sorted list holds exactly that list in order, and its
  depth is logarithmic: a list of \<open>n\<close> entries gives a tree of depth at most \<open>1 + log n\<close>.
\<close>

theorem ListToTree_balanced:
  assumes "xs \<noteq> []"
  shows "rowSetTreeToList (rowSetListToTree xs) = xs \<and> 2 ^ (height (rowSetListToTree xs) - 1) \<le> length xs"
  using ListToTree_depth [OF assms] ListToTree_inorder [OF assms] by simp

theorem ListToTree_balanced_witness:
  "rowSetTreeToList (rowSetListToTree [1, 2, 3, 4, 5]) = [1, 2, 3, 4, 5] \<and>
   2 ^ (height (rowSetListToTree [1, 2, 3, 4, 5]) - 1) \<le> length [1, 2, 3, 4, 5 :: int]"
  by (rule ListToTree_balanced) simp

end
