(* ===== verification/Spec2Isabelle.thy ===== *)
theory Spec2Isabelle
  imports Arith Bitvec Complete Hash LikeGlob LockSystem LogEst MemJournal RecordCompare Rowset
begin

text \<open>
  A model of core parts of SQLite 3.23, the C library in src/database/sqlite3 (file
  sqlite3-binding.c, the amalgamation of the sources named below). The other directories of the
  repository are Go packages.

  How the parts fit together. SQL text is cut into tokens (tokenize.c) that the parser turns into
  a program of the virtual machine (vdbe.c). The program builds records from registers
  (OP_MakeRecord), compares records with search keys (vdbeaux.c) and keeps row sets (rowset.c);
  strings are converted and compared by util.c, utf.c and func.c. Records lie in pages, and the pager
  logs which pages it has journalled in bitmaps (bitvec.c), keeps small journals in memory
  (memjournal.c) and takes file locks (os_unix.c). Hash tables (hash.c) hold the schema.

  Conventions. \<open>Prelude\<close> has the machine types, reads of buffers and arrays that are \<open>None\<close>
  outside them, and a script of the outcomes of allocations (\<open>malloc\<close>). A definition has the name
  of the C function it translates; loops of a C function that are definitions of their own have
  names of ours, and the manifest gives their lines. \<open>None\<close> is undefined behaviour of the C code,
  such as a read outside a buffer, or a failed \<open>assert\<close> (those that are translated): the properties
  show that it does not occur. \<open>Codec\<close> and \<open>Containers\<close> hold the interfaces (locales): codecs, sets and maps; the
  component theories interpret them.

  Records.
  \<^item> \<open>Varint\<close>: the variable-length integers of util.c; encoders, the three decoders, lengths. Round
    trip, minimal lengths, agreement of the decoders.
  \<^item> \<open>Serial\<close>: serial types and cells (sqlite3VdbeSerialType, -Put, -Get). Round trip of a cell.
  \<^item> \<open>RecordFmt\<close>: OP_MakeRecord and sqlite3VdbeRecordUnpack. The record made is the one the format
    prescribes, stays in its buffer, and unpacks to the registers it was made from.
  \<^item> \<open>RecordCompare\<close>: sqlite3VdbeRecordCompareWithSkip, its two fast versions and their selection.
    Equivalence of each with the lexicographic order of fields, and of the fast versions with the
    general one.

  Text.
  \<^item> \<open>Chars\<close>: the character tables of global.c and what each class contains.
  \<^item> \<open>Text\<close>: comparison without case, dequoting and quoting, hex, and the parsers of integers
    (sqlite3Atoi64, sqlite3GetInt32) against the value of their digits.
  \<^item> \<open>Utf\<close>: characters in UTF-8 and UTF-16 and the translation of texts between them. Round trip.
  \<^item> \<open>LikeGlob\<close>: patternCompare and likeFunc, the operators LIKE and GLOB. Equivalence with what the
    items of a pattern match, termination, errors and NULL, and two limits of the code.
  \<^item> \<open>Arith\<close>: 64-bit arithmetic with overflow checks.
  \<^item> \<open>LogEst\<close>: the logarithmic estimates of the planner are the rounded logarithms.

  SQL text.
  \<^item> \<open>Keywords\<close>: the packed keyword hash of tokenize.c finds exactly the keywords of SQL.
  \<^item> \<open>Tokenizer\<close>: sqlite3GetToken and the loop of sqlite3RunParser, with the generated parser as a
    parameter. Tokens stay within the text and make it up; the loop ends on every text; what the
    parser is fed.
  \<^item> \<open>Complete\<close>: sqlite3_complete; its state machine accepts exactly the complete scripts.

  Containers.
  \<^item> \<open>Bitvec\<close>: bitmaps with their three representations refine a set of page numbers. The
    insertion \<open>set_loop\<close> has fuel 9: each level divides the size by the number of children, and nine
    levels reach a leaf for every 32-bit size, which the proofs show.
  \<^item> \<open>Rowset\<close>: sets of rowids as a list, trees and a forest; the merge sort with its forty buckets.
  \<^item> \<open>Hash\<close>: hash tables; lists of elements with buckets that share them refine a map, through
    rehashing and failing allocations.

  Files.
  \<^item> \<open>Locks\<close>, \<open>LockSystem\<close>: the lock protocol of os_unix.c. A call is a tree of system calls; many
    processes interleave at every system call, any of which may fail. Mutual exclusion, the locks
    that back a handle's level, absence of failed assertions, and progress of a handle that is
    alone. What POSIX promises of advisory locks is the hypothesis \<open>posix_os\<close>.
  \<^item> \<open>MemJournal\<close>: the in-memory journal and its move to a real file refine one append-only file;
    what the operating system promises of that file is the hypothesis \<open>vfs_ok\<close>, and of a write
    to it that fails \<open>vfs_keeps\<close>.

  Not modelled: the code generator and the parser tables, the dispatch loop of the virtual
  machine, b-trees, the pager and the write-ahead log, system interfaces other than file locks, the extensions
  (full-text search, r-trees, sessions, JSON), date functions and printf; the Go packages.
\<close>

end
